(* ===== verification/HWS_Prelude.thy ===== *)
theory HWS_Prelude
  imports Main "HOL-Library.Word"
begin

text \<open>
  Shared vocabulary of the development: the machine types of the C++ sources, the outcome of
  a C++ expression that may throw or leave an array, the sequencing of such expressions, and the
  generic facts on lists and words that the component theories use.

  \<^item> \<open>uint8_t\<close>, \<open>uint16_t\<close>, \<open>uint32_t\<close>, \<open>uint64_t\<close> are words of that width; \<open>int32_t\<close> and
    \<open>int64_t\<close> are words too, read as two's complement by \<open>sint\<close>.
  \<^item> \<open>size_t\<close> is \<open>nat\<close>; where the code adds a number taken from the wire to a position, the
    64-bit wrap-around is written out with \<open>size_add\<close>.
  \<^item> \<open>std::string\<close> and \<open>std::vector<uint8_t>\<close> are lists of bytes.
  \<^item> A thrown \<open>std::runtime_error\<close> and a read outside an array are the two values of
    \<open>cpp_error\<close>; a memory-safety theorem says that \<open>OutOfBounds\<close> is never produced.
\<close>

unbundle bit_operations_syntax

named_theorems hws_consts "the numeric constants of codec.hpp"
named_theorems be_simps "big-endian byte sequences"

type_synonym u8 = "8 word"
type_synonym u16 = "16 word"
type_synonym u32 = "32 word"
type_synonym u64 = "64 word"
type_synonym i32 = "32 word"
type_synonym i64 = "64 word"
type_synonym bytes = "8 word list"

section \<open>Outcomes\<close>

datatype cpp_error =
    RuntimeError string  \<comment> \<open>\<open>throw std::runtime_error(...)\<close>\<close>
  | OutOfBounds          \<comment> \<open>a read outside the array: undefined behaviour in C++\<close>

type_synonym 'a res = "cpp_error + 'a"

definition bind_res :: "'a res \<Rightarrow> ('a \<Rightarrow> 'b res) \<Rightarrow> 'b res" where
  "bind_res m f = (case m of Inl e \<Rightarrow> Inl e | Inr x \<Rightarrow> f x)"

lemma bind_res_simps [simp]:
  "bind_res (Inl e) f = Inl e"
  "bind_res (Inr x) f = f x"
  by (simp_all add: bind_res_def)

lemma bind_res_cong [fundef_cong]:
  "m = m' \<Longrightarrow> (\<And>x. m' = Inr x \<Longrightarrow> f x = g x) \<Longrightarrow> bind_res m f = bind_res m' g"
  by (cases m') (auto simp: bind_res_def)

lemma bind_res_eq_Inr:
  "bind_res m f = Inr y \<longleftrightarrow> (\<exists>x. m = Inr x \<and> f x = Inr y)"
  by (cases m) auto

lemma bind_res_eq_Inl:
  "bind_res m f = Inl e \<longleftrightarrow> m = Inl e \<or> (\<exists>x. m = Inr x \<and> f x = Inl e)"
  by (cases m) auto

section \<open>Arrays\<close>

definition size_add :: "nat \<Rightarrow> nat \<Rightarrow> nat" where
  "size_add a b = (a + b) mod 2 ^ 64"

lemma size_add_small [simp]: "a + b < 2 ^ 64 \<Longrightarrow> size_add a b = a + b"
  by (simp add: size_add_def)

definition rd_at :: "'a list \<Rightarrow> nat \<Rightarrow> 'a res" where
  "rd_at xs i = (if i < length xs then Inr (xs ! i) else Inl OutOfBounds)"

definition rd_range :: "'a list \<Rightarrow> nat \<Rightarrow> nat \<Rightarrow> 'a list res" where
  "rd_range xs i n = (if i + n \<le> length xs then Inr (take n (drop i xs)) else Inl OutOfBounds)"

lemma rd_at_inside [simp]: "i < length xs \<Longrightarrow> rd_at xs i = Inr (xs ! i)"
  by (simp add: rd_at_def)

lemma rd_range_inside [simp]:
  "i + n \<le> length xs \<Longrightarrow> rd_range xs i n = Inr (take n (drop i xs))"
  by (simp add: rd_range_def)

definition wr_at :: "'a list \<Rightarrow> nat \<Rightarrow> 'a \<Rightarrow> 'a list res" where
  "wr_at xs i v = (if i < length xs then Inr (xs[i := v]) else Inl OutOfBounds)"

lemma wr_at_inside [simp]: "i < length xs \<Longrightarrow> wr_at xs i v = Inr (xs[i := v])"
  by (simp add: wr_at_def)

text \<open>Loops over a range of indices whose body may fail.\<close>

fun map_res :: "('a \<Rightarrow> 'b res) \<Rightarrow> 'a list \<Rightarrow> 'b list res" where
  "map_res f [] = Inr []"
| "map_res f (x # xs) = bind_res (f x) (\<lambda>y. bind_res (map_res f xs) (\<lambda>ys. Inr (y # ys)))"

fun fold_res :: "('a \<Rightarrow> 'b \<Rightarrow> 'b res) \<Rightarrow> 'a list \<Rightarrow> 'b \<Rightarrow> 'b res" where
  "fold_res f [] acc = Inr acc"
| "fold_res f (x # xs) acc = bind_res (f x acc) (fold_res f xs)"

lemma map_res_Inr: "(\<And>x. x \<in> set xs \<Longrightarrow> f x = Inr (g x)) \<Longrightarrow> map_res f xs = Inr (map g xs)"
  by (induction xs) simp_all

lemma map_res_length: "map_res f xs = Inr ys \<Longrightarrow> length ys = length xs"
  by (induction xs arbitrary: ys) (auto simp: bind_res_eq_Inr)

lemma fold_res_append:
  "fold_res f (xs @ ys) acc = bind_res (fold_res f xs acc) (fold_res f ys)"
  by (induction xs arbitrary: acc) (auto simp: bind_res_def split: sum.split)

section \<open>Text\<close>

text \<open>A C++ string literal, as its bytes.\<close>

definition str :: "string \<Rightarrow> bytes" where
  "str s = map of_char s"

lemma str_simps [simp]:
  "str [] = []"
  "str (c # s) = of_char c # str s"
  by (simp_all add: str_def)

lemma length_str [simp]: "length (str s) = length s"
  by (simp add: str_def)

lemma str_append [simp]: "str (s @ t) = str s @ str t"
  by (simp add: str_def)

lemma unat_of_char_u8: "unat (of_char c :: u8) = of_char c"
proof -
  have "unat (of_nat (of_char c) :: u8) = of_char c"
    by (simp only: unat_of_nat) simp
  then show ?thesis by (simp only: of_nat_of_char)
qed

lemma of_char_u8_inject [simp]: "(of_char c :: u8) = of_char d \<longleftrightarrow> c = d"
proof
  assume "(of_char c :: u8) = of_char d"
  then have "unat (of_char c :: u8) = unat (of_char d :: u8)" by (rule arg_cong)
  then show "c = d" by (simp only: unat_of_char_u8 of_char_eq_iff)
qed simp

lemma str_inject [simp]: "str s = str t \<longleftrightarrow> s = t"
proof -
  have "inj (of_char :: char \<Rightarrow> u8)" by (rule injI) simp
  then show ?thesis by (simp add: str_def)
qed

text \<open>\<open>std::to_string\<close> on the integer types: the decimal form, with a minus sign.\<close>

definition digit_char :: "nat \<Rightarrow> char" where
  "digit_char d = char_of (48 + d)"

fun dec_nat :: "nat \<Rightarrow> string" where
  "dec_nat n = (if n < 10 then [digit_char n] else dec_nat (n div 10) @ [digit_char (n mod 10)])"

declare dec_nat.simps [simp del]

definition to_string :: "int \<Rightarrow> string" where
  "to_string i = (if i < 0 then CHR ''-'' # dec_nat (nat (- i)) else dec_nat (nat i))"

lemma length_dec_nat: "n < 10 ^ Suc k \<Longrightarrow> length (dec_nat n) \<le> Suc k"
proof (induction k arbitrary: n)
  case 0
  then show ?case by (simp add: dec_nat.simps)
next
  case (Suc k)
  have "n div 10 < 10 ^ Suc k" using Suc.prems by (simp add: less_mult_imp_div_less)
  from Suc.IH [OF this] show ?case by (subst dec_nat.simps) simp
qed

lemma dec_nat_digits: "c \<in> set (dec_nat n) \<Longrightarrow> \<exists>d < 10. c = digit_char d"
proof (induction n rule: dec_nat.induct)
  case (1 n)
  show ?case
  proof (cases "n < 10")
    case True
    with 1 show ?thesis by (auto simp: dec_nat.simps [of n])
  next
    case False
    then consider "c \<in> set (dec_nat (n div 10))" | "c = digit_char (n mod 10)"
      using 1(2) by (auto simp: dec_nat.simps [of n])
    then show ?thesis using 1(1) False by cases (auto intro!: exI [of _ "n mod 10"])
  qed
qed

lemma to_string_bytes:
  assumes "c \<in> set (str (to_string i))"
  shows "45 \<le> unat c \<and> unat c < 58"
proof -
  have "unat (of_char (digit_char d) :: u8) = 48 + d" if "d < 10" for d
    using that by (simp add: unat_of_char_u8 digit_char_def)
  moreover have "unat (of_char CHR ''-'' :: u8) = 45" by simp
  ultimately show ?thesis using assms
    by (auto simp: to_string_def str_def dest!: dec_nat_digits split: if_splits)
qed

lemma length_to_string_i64: "length (to_string (sint (t :: i64))) \<le> 20"
proof -
  have "nat \<bar>sint t\<bar> < 10 ^ Suc 18"
    using sint_range_size [of t] by (auto simp: word_size)
  then show ?thesis
    using length_dec_nat [of "nat \<bar>sint t\<bar>" 18] by (auto simp: to_string_def)
qed

section \<open>Big-endian byte sequences\<close>

text \<open>
  The shift-and-mask expressions of \<open>writeU16\<close>, \<open>writeU32\<close>, \<open>readU16\<close>, \<open>readU32\<close> and of the
  frame headers and hash functions. The two directions are inverse to each other.
\<close>

definition be16 :: "u16 \<Rightarrow> bytes" where
  "be16 v = [ucast (drop_bit 8 v AND 0xFF), ucast (v AND 0xFF)]"

definition be32 :: "u32 \<Rightarrow> bytes" where
  "be32 v = [ucast (drop_bit 24 v AND 0xFF), ucast (drop_bit 16 v AND 0xFF),
             ucast (drop_bit 8 v AND 0xFF), ucast (v AND 0xFF)]"

definition of_be16 :: "u8 \<Rightarrow> u8 \<Rightarrow> u16" where
  "of_be16 a b = push_bit 8 (ucast a) OR ucast b"

definition of_be32 :: "u8 \<Rightarrow> u8 \<Rightarrow> u8 \<Rightarrow> u8 \<Rightarrow> u32" where
  "of_be32 a b c d =
     push_bit 24 (ucast a) OR push_bit 16 (ucast b) OR push_bit 8 (ucast c) OR ucast d"

lemma length_be [simp]: "length (be16 v) = 2" "length (be32 w) = 4"
  by (simp_all add: be16_def be32_def)

lemma ff_mask: "(0xFF :: 'a::len word) = mask 8"
  by (simp add: mask_eq_exp_minus_1)

lemma bit_u8_length [simp]: "8 \<le> n \<Longrightarrow> \<not> bit (b :: u8) n"
  using bit_imp_le_length by fastforce

lemma byte_ranges:
  obtains "n < 8"
    | m where "n = 8 + m" "m < 8"
    | m where "n = 16 + m" "m < 8"
    | m where "n = 24 + m" "m < 8"
    | "32 \<le> (n::nat)"
proof -
  have "n < 8 \<or> (n = 8 + (n - 8) \<and> n - 8 < 8) \<or> (n = 16 + (n - 16) \<and> n - 16 < 8)
      \<or> (n = 24 + (n - 24) \<and> n - 24 < 8) \<or> 32 \<le> n"
    by linarith
  then show thesis using that by metis
qed

lemma of_be16_inverse [be_simps]:
  "of_be16 (ucast (drop_bit 8 v AND 0xFF)) (ucast (v AND 0xFF)) = v"
  unfolding ff_mask of_be16_def by (rule bit_word_eqI) (auto simp: bit_simps)

lemma of_be32_inverse [be_simps]:
  "of_be32 (ucast (drop_bit 24 v AND 0xFF)) (ucast (drop_bit 16 v AND 0xFF))
     (ucast (drop_bit 8 v AND 0xFF)) (ucast (v AND 0xFF)) = v" (is "?l = v")
proof (rule bit_word_eqI)
  fix n assume "n < LENGTH(32)"
  then show "bit ?l n = bit v n"
    unfolding ff_mask of_be32_def by (cases n rule: byte_ranges) (auto simp: bit_simps)
qed

lemma be16_of_be16 [be_simps]: "be16 (of_be16 a b) = [a, b]"
proof -
  have "ucast (drop_bit 8 (of_be16 a b) AND 0xFF) = a"
    unfolding ff_mask of_be16_def by (rule bit_word_eqI) (simp add: bit_simps)
  moreover have "ucast (of_be16 a b AND 0xFF) = b"
    unfolding ff_mask of_be16_def by (rule bit_word_eqI) (simp add: bit_simps)
  ultimately show ?thesis by (simp add: be16_def)
qed

lemma be32_of_be32 [be_simps]: "be32 (of_be32 a b c d) = [a, b, c, d]"
proof -
  have "ucast (drop_bit 24 (of_be32 a b c d) AND 0xFF) = a"
    unfolding ff_mask of_be32_def by (rule bit_word_eqI) (simp add: bit_simps)
  moreover have "ucast (drop_bit 16 (of_be32 a b c d) AND 0xFF) = b"
    unfolding ff_mask of_be32_def by (rule bit_word_eqI) (simp add: bit_simps)
  moreover have "ucast (drop_bit 8 (of_be32 a b c d) AND 0xFF) = c"
    unfolding ff_mask of_be32_def by (rule bit_word_eqI) (simp add: bit_simps)
  moreover have "ucast (of_be32 a b c d AND 0xFF) = d"
    unfolding ff_mask of_be32_def by (rule bit_word_eqI) (simp add: bit_simps)
  ultimately show ?thesis by (simp add: be32_def)
qed

lemma be32_inject [simp]: "be32 v = be32 w \<longleftrightarrow> v = w"
proof
  have nth: "of_be32 (be32 x ! 0) (be32 x ! 1) (be32 x ! 2) (be32 x ! 3) = x" for x
    by (simp add: be32_def of_be32_inverse)
  assume "be32 v = be32 w"
  then show "v = w" using nth [of v] nth [of w] by metis
qed simp

text \<open>An \<open>int64_t\<close> as two big-endian halves.\<close>

definition be64 :: "u64 \<Rightarrow> bytes" where
  "be64 v = be32 (ucast (drop_bit 32 v)) @ be32 (ucast v)"

lemma length_be64 [simp]: "length (be64 v) = 8"
  by (simp add: be64_def)

lemma halves_join [be_simps]:
  "push_bit 32 (ucast (ucast (drop_bit 32 v) :: u32)) OR ucast (ucast v :: u32) = (v :: u64)"
  by (rule bit_word_eqI) (auto simp: bit_simps)

lemma high_half [be_simps]:
  "ucast (signed_drop_bit 32 v :: u64) = (ucast (drop_bit 32 v) :: u32)"
  by (rule bit_word_eqI) (auto simp: bit_simps)

lemma low_half [be_simps]: "ucast (v AND 0xFFFFFFFF :: u64) = (ucast v :: u32)"
proof -
  have eq: "(0xFFFFFFFF :: u64) = mask 32" by (simp add: mask_eq_exp_minus_1)
  show ?thesis unfolding eq by (rule bit_word_eqI) (auto simp: bit_simps)
qed

lemma be64_join: "be64 (push_bit 32 (ucast hi) OR ucast lo) = be32 hi @ be32 lo"
proof -
  have "ucast (drop_bit 32 (push_bit 32 (ucast hi) OR ucast lo :: u64)) = hi" for hi lo :: u32
    by (rule bit_word_eqI) (auto simp: bit_simps dest: bit_imp_le_length)
  moreover have "ucast (push_bit 32 (ucast hi) OR ucast lo :: u64) = lo" for hi lo :: u32
    by (rule bit_word_eqI) (auto simp: bit_simps)
  ultimately show ?thesis by (simp add: be64_def)
qed

text \<open>A 64-bit number written byte by byte from the most significant one.\<close>

lemma be64_shifts: "map (\<lambda>i. ucast (drop_bit (i * 8) v)) (rev [0..<8]) = be64 v" for v :: u64
proof -
  have "ucast (drop_bit k v) = (ucast (drop_bit k' (ucast (drop_bit j v) :: u32) AND 0xFF) :: u8)"
    if "k = j + k'" "k' + 8 \<le> 32" for j k k'
    unfolding ff_mask using that by (intro bit_word_eqI) (auto simp: bit_simps ac_simps)
  from this [of 56 32 24] this [of 48 32 16] this [of 40 32 8] this [of 32 32 0]
    this [of 24 0 24] this [of 16 0 16] this [of 8 0 8] this [of 0 0 0]
  show ?thesis by (simp add: be64_def be32_def upt_rec)
qed

lemma ucast_low_byte: "ucast (w AND 0xFF) = (ucast w :: u8)" for w :: u64
  unfolding ff_mask by (rule bit_word_eqI) (auto simp: bit_simps)

lemma be64_masked_shifts:
  "map (\<lambda>i. ucast (drop_bit (i * 8) v AND 0xFF)) (rev [0..<8]) = be64 v" for v :: u64
  unfolding ucast_low_byte by (rule be64_shifts)

end
