(* ===== verification/Hash_Blocks.thy ===== *)
theory Hash_Blocks
  imports HWS_Prelude
begin

text \<open>
  What SHA-1 (\<open>common/ws.hpp\<close>) and SHA-256 (\<open>common/codec.hpp\<close>) share. First the pieces of
  code they have in common: loading sixteen big-endian words of a block, and filling an array
  whose elements depend on earlier ones. Then the framework of FIPS 180-4 that both are specified
  by: the padding of a message to whole blocks, and the iteration of a compression function.
\<close>

section \<open>Common code\<close>

text \<open>The rotations of both hash functions, by two shifts.\<close>

definition rotl :: "u32 \<Rightarrow> nat \<Rightarrow> u32" where
  "rotl x n = push_bit n x OR drop_bit (32 - n) x"

definition rotr :: "u32 \<Rightarrow> nat \<Rightarrow> u32" where
  "rotr x n = drop_bit n x OR push_bit (32 - n) x"

lemma rotr_word_rotr: "0 < n \<Longrightarrow> n < 32 \<Longrightarrow> rotr x n = word_rotr n x"
proof (rule bit_word_eqI)
  fix i
  assume n: "0 < n" "n < 32" and i: "i < LENGTH(32)"
  have "(i + n) mod 32 = (if i + n < 32 then i + n else i + n - 32)"
    using n i by (simp add: mod_if)
  with n i show "bit (rotr x n) i = bit (word_rotr n x) i"
    by (auto simp: rotr_def bit_simps add.commute dest: bit_imp_le_length)
qed

lemma rotl_word_rotl: "0 < n \<Longrightarrow> n < 32 \<Longrightarrow> rotl x n = word_rotl n x"
proof (rule bit_word_eqI)
  fix i
  assume n: "0 < n" "n < 32" and i: "i < LENGTH(32)"
  have "(i + (32 - n)) mod 32 = (if i < n then i + (32 - n) else i - n)"
    using n i by (auto simp: mod_if)
  moreover have "32 + i - n = i + 32 - n" by simp
  ultimately show "bit (rotl x n) i = bit (word_rotl n x) i"
    using n i by (auto simp: rotl_def bit_simps dest: bit_imp_le_length)
qed

text \<open>\<open>w[i] = (data[i*4] << 24) | ...\<close> for \<open>i < 16\<close>, from position \<open>off\<close> of an array.\<close>

definition load_word :: "bytes \<Rightarrow> nat \<Rightarrow> nat \<Rightarrow> u32 res" where
  "load_word data off i =
     bind_res (rd_at data (off + i * 4)) (\<lambda>a.
     bind_res (rd_at data (off + i * 4 + 1)) (\<lambda>b.
     bind_res (rd_at data (off + i * 4 + 2)) (\<lambda>c.
     bind_res (rd_at data (off + i * 4 + 3)) (\<lambda>d.
       Inr (push_bit 24 (ucast a) OR push_bit 16 (ucast b) OR push_bit 8 (ucast c) OR ucast d)))))"

definition block_word :: "bytes \<Rightarrow> nat \<Rightarrow> u32" where
  "block_word blk i = of_be32 (blk ! (i * 4)) (blk ! (i * 4 + 1)) (blk ! (i * 4 + 2)) (blk ! (i * 4 + 3))"

lemma load_words:
  assumes "off + 64 \<le> length data"
  shows "map_res (load_word data off) [0..<16] = Inr (map (block_word (take 64 (drop off data))) [0..<16])"
proof (rule map_res_Inr)
  fix i
  assume "i \<in> set [0..<16]"
  with assms show "load_word data off i = Inr (block_word (take 64 (drop off data)) i)"
    by (simp add: load_word_def block_word_def of_be32_def add.assoc)
qed

text \<open>\<open>for (i = n; i < m; i++) w[i] = g(w, i)\<close>: the element \<open>i\<close> is the \<open>i\<close>-th value of the
  recursion that \<open>g\<close> unfolds.\<close>

lemma array_fill:
  assumes step: "\<And>i w. n \<le> i \<Longrightarrow> i < m \<Longrightarrow> (\<forall>j < i. w ! j = V j) \<Longrightarrow> g w i = V i"
    and init: "\<forall>j < n. w ! j = V j" and len: "m \<le> length w" and "n \<le> m"
  shows "\<forall>j < m. fold (\<lambda>i w. w[i := g w i]) [n..<m] w ! j = V j"
  using \<open>n \<le> m\<close> step len
proof (induction m rule: dec_induct)
  case base
  then show ?case using init by simp
next
  case (step k)
  let ?w = "fold (\<lambda>i w. w[i := g w i]) [n..<k] w"
  have l: "length (fold (\<lambda>i w. w[i := g w i]) is w) = length w" for "is"
    by (induction "is" arbitrary: w) simp_all
  have IH: "\<forall>j < k. ?w ! j = V j" using step by simp
  moreover have "g ?w k = V k" using step.prems(1) [of k ?w] step.hyps IH by simp
  ultimately show ?case
    using step l [of "[n..<k]"] by (auto simp: nth_list_update less_Suc_eq)
qed

text \<open>The same loop with a growing list, which is quicker to evaluate.\<close>

lemma fill_by_append:
  assumes local: "\<And>i w w'. n \<le> i \<Longrightarrow> (\<forall>j < i. w ! j = w' ! j) \<Longrightarrow> g w i = g w' i"
    and w0: "length w0 = n" and "n \<le> m"
  shows "fold (\<lambda>i w. w[i := g w i]) [n..<m] (w0 @ replicate (m - n) z) =
         fold (\<lambda>i w. w @ [g w i]) [n..<m] w0"
proof -
  let ?F = "\<lambda>k. fold (\<lambda>i w. w @ [g w i]) [n..<k] w0"
  have "length (?F k) = k \<and>
      fold (\<lambda>i w. w[i := g w i]) [n..<k] (w0 @ replicate (m - n) z) = ?F k @ replicate (m - k) z"
    if "n \<le> k" "k \<le> m" for k
    using that
  proof (induction k rule: dec_induct)
    case (step k)
    then have IH: "length (?F k) = k"
      "fold (\<lambda>i w. w[i := g w i]) [n..<k] (w0 @ replicate (m - n) z) = ?F k @ replicate (m - k) z"
      by simp_all
    have "g (?F k @ replicate (m - k) z) k = g (?F k) k"
      using step IH(1) by (intro local) (simp_all add: nth_append)
    moreover have "replicate (m - k) z = z # replicate (m - Suc k) z"
      using step by (simp flip: replicate_Suc add: Suc_diff_Suc)
    ultimately show ?case using step IH by (simp add: list_update_append)
  qed (simp add: w0)
  from this [of m] \<open>n \<le> m\<close> show ?thesis by simp
qed

lemma fold_nth_zip:
  "length xs = n \<Longrightarrow> length ys = n \<Longrightarrow>
     fold (\<lambda>i. f (xs ! i) (ys ! i)) [0..<n] = fold (\<lambda>(x, y). f x y) (zip xs ys)"
proof -
  assume "length xs = n" "length ys = n"
  then have "zip xs ys = map (\<lambda>i. (xs ! i, ys ! i)) [0..<n]" by (auto intro: nth_equalityI)
  then show ?thesis by (simp add: fold_map comp_def)
qed

text \<open>\<open>for (i = 0; i < n; i++) data[a + i] = g(i)\<close>\<close>

lemma fold_wr_at:
  "a + n \<le> length d \<Longrightarrow>
     fold_res (\<lambda>i d. wr_at d (a + i) (g i)) [0..<n] d = Inr (take a d @ map g [0..<n] @ drop (a + n) d)"
proof (induction n)
  case (Suc n)
  then have "fold_res (\<lambda>i d. wr_at d (a + i) (g i)) [0..<n] d = Inr (take a d @ map g [0..<n] @ drop (a + n) d)"
    by simp
  moreover have "drop (a + n) d = d ! (a + n) # drop (Suc (a + n)) d"
    using Suc.prems by (simp add: Cons_nth_drop_Suc)
  ultimately show ?case
    using Suc.prems by (simp add: fold_res_append list_update_append)
qed simp

section \<open>FIPS 180-4: functions, padding and iteration\<close>

definition Ch :: "u32 \<Rightarrow> u32 \<Rightarrow> u32 \<Rightarrow> u32" where
  "Ch x y z = (x AND y) XOR (NOT x AND z)"

definition Maj :: "u32 \<Rightarrow> u32 \<Rightarrow> u32 \<Rightarrow> u32" where
  "Maj x y z = (x AND y) XOR (x AND z) XOR (y AND z)"

text \<open>The message, a single 1 bit, zeros up to 56 bytes modulo 64, the length in bits as a 64-bit
  big-endian number.\<close>

definition md_pad :: "bytes \<Rightarrow> bytes" where
  "md_pad m = m @ [0x80] @ replicate ((119 - length m mod 64) mod 64) 0 @ be64 (of_nat (8 * length m))"

function blocks :: "bytes \<Rightarrow> bytes list" where
  "blocks m = (if length m < 64 then [] else take 64 m # blocks (drop 64 m))"
  by pat_completeness auto
termination by (relation "measure length") auto

declare blocks.simps [simp del]

definition partial_block :: "bytes \<Rightarrow> bytes" where
  "partial_block m = drop (64 * (length m div 64)) m"

lemma length_partial_block [simp]: "length (partial_block m) = length m mod 64"
  by (simp add: partial_block_def minus_mult_div_eq_mod)

lemma blocks_short [simp]: "length m < 64 \<Longrightarrow> blocks m = []"
  by (subst blocks.simps) simp

lemma blocks_block: "length b = 64 \<Longrightarrow> blocks (b @ m) = b # blocks m"
  by (subst blocks.simps) simp

lemma partial_block_block: "length b = 64 \<Longrightarrow> partial_block (b @ m) = partial_block m"
  by (simp add: partial_block_def div_add1_eq [of 64])

text \<open>Only the partial block at the end of a message meets what is appended to the message.\<close>

lemma blocks_append:
  "blocks (m @ n) = blocks m @ blocks (partial_block m @ n)"
  "partial_block (m @ n) = partial_block (partial_block m @ n)"
proof (induction m rule: blocks.induct)
  case (1 m)
  show "blocks (m @ n) = blocks m @ blocks (partial_block m @ n)"
    and "partial_block (m @ n) = partial_block (partial_block m @ n)"
  proof (atomize (full), cases "length m < 64")
    case True
    then show "blocks (m @ n) = blocks m @ blocks (partial_block m @ n) \<and>
        partial_block (m @ n) = partial_block (partial_block m @ n)"
      by (simp add: partial_block_def)
  next
    case False
    define b where "b = take 64 m"
    define t where "t = drop 64 m"
    have m: "m = b @ t" and b: "length b = 64" using False by (simp_all add: b_def t_def)
    from 1 [OF False] show "blocks (m @ n) = blocks m @ blocks (partial_block m @ n) \<and>
        partial_block (m @ n) = partial_block (partial_block m @ n)"
      by (simp add: m b blocks_block partial_block_block flip: t_def)
  qed
qed

lemma length_md_pad: "64 dvd length (md_pad m)"
proof -
  have "length m + 1 + (119 - length m mod 64) mod 64 + 8 = length m - length m mod 64
      + (length m mod 64 + 1 + (119 - length m mod 64) mod 64 + 8)"
    by simp
  moreover have "64 dvd length m - length m mod 64" by (rule dvd_minus_mod)
  moreover have "64 dvd k + 1 + (119 - k) mod 64 + 8" if "k < 64" for k :: nat
    using that by (cases "k < 56") (auto simp: mod_if dvd_eq_mod_eq_0)
  from this [of "length m mod 64"] have "64 dvd length m mod 64 + 1 + (119 - length m mod 64) mod 64 + 8"
    by simp
  ultimately have "64 dvd length m + 1 + (119 - length m mod 64) mod 64 + 8"
    by (metis dvd_add)
  then show ?thesis by (simp add: md_pad_def ac_simps)
qed

text \<open>The digest: the compression function folded over the blocks, the chaining value as bytes.\<close>

definition md_digest :: "(bytes \<Rightarrow> u32 list \<Rightarrow> u32 list) \<Rightarrow> u32 list \<Rightarrow> bytes \<Rightarrow> bytes" where
  "md_digest compress iv m = concat (map be32 (fold compress (blocks (md_pad m)) iv))"

lemma length_md_digest:
  assumes "\<And>blk h. length (compress blk h) = n" and "length iv = n"
  shows "length (md_digest compress iv m) = 4 * n"
proof -
  have "length (fold compress bs iv) = n" for bs using assms by (cases bs rule: rev_cases) simp_all
  moreover have "length (concat (map be32 ws)) = 4 * length ws" for ws
    by (induction ws) simp_all
  ultimately show ?thesis by (simp add: md_digest_def)
qed

end
