(* ===== verification/Sha256.thy ===== *)
theory Sha256
  imports Hash_Blocks
begin

text \<open>
  \<open>detail::sha256\<close> and \<open>hashNumber\<close> of \<open>common/codec.hpp\<close>. The code pads a copy of the message,
  fills the 64-word schedule array by index and runs the rounds on eight local variables; it is
  proved equal to SHA-256 as FIPS 180-4 defines it, with the schedule as a recurrence and the
  rotations as operations on words. The reads of the message are checked; the arrays \<open>K\<close>, \<open>w\<close> and \<open>h\<close>,
  which have fixed lengths, are read at the indices of the loops.
\<close>

section \<open>The code\<close>

text \<open>The table \<open>K\<close>, in the rows of the source.\<close>

definition sha256_K :: "u32 list" where
  "sha256_K = concat [
     [0x428a2f98, 0x71374491, 0xb5c0fbcf, 0xe9b5dba5, 0x3956c25b, 0x59f111f1, 0x923f82a4, 0xab1c5ed5],
     [0xd807aa98, 0x12835b01, 0x243185be, 0x550c7dc3, 0x72be5d74, 0x80deb1fe, 0x9bdc06a7, 0xc19bf174],
     [0xe49b69c1, 0xefbe4786, 0x0fc19dc6, 0x240ca1cc, 0x2de92c6f, 0x4a7484aa, 0x5cb0a9dc, 0x76f988da],
     [0x983e5152, 0xa831c66d, 0xb00327c8, 0xbf597fc7, 0xc6e00bf3, 0xd5a79147, 0x06ca6351, 0x14292967],
     [0x27b70a85, 0x2e1b2138, 0x4d2c6dfc, 0x53380d13, 0x650a7354, 0x766a0abb, 0x81c2c92e, 0x92722c85],
     [0xa2bfe8a1, 0xa81a664b, 0xc24b8b70, 0xc76c51a3, 0xd192e819, 0xd6990624, 0xf40e3585, 0x106aa070],
     [0x19a4c116, 0x1e376c08, 0x2748774c, 0x34b0bcb5, 0x391c0cb3, 0x4ed8aa4a, 0x5b9cca4f, 0x682e6ff3],
     [0x748f82ee, 0x78a5636f, 0x84c87814, 0x8cc70208, 0x90befffa, 0xa4506ceb, 0xbef9a3f7, 0xc67178f2]]"

definition sha256_init :: "u32 list" where
  "sha256_init = [0x6a09e667, 0xbb67ae85, 0x3c6ef372, 0xa54ff53a,
                  0x510e527f, 0x9b05688c, 0x1f83d9ab, 0x5be0cd19]"

lemma pad_distance:
  assumes "n mod 64 \<noteq> 56"
  shows "(120 - n mod 64) mod 64 = Suc ((120 - Suc n mod 64) mod (64 :: nat))"
proof -
  define r where "r = n mod 64"
  have "r < 64" by (simp add: r_def)
  then consider "r < 56" | "56 < r" "r < 63" | "r = 63" using assms unfolding r_def by linarith
  then show ?thesis
  proof cases
    case 1
    then have "(120 - r) mod 64 = 56 - r" "(119 - r) mod 64 = 55 - r"
      by (subst le_mod_geq; simp)+
    with 1 show ?thesis by (simp add: mod_Suc flip: r_def)
  next
    case 2
    then have "(120 - r) mod 64 = 120 - r" "(119 - r) mod 64 = 119 - r" by simp_all
    with 2 show ?thesis by (simp add: mod_Suc flip: r_def)
  qed (simp add: mod_Suc flip: r_def)
qed

text \<open>\<open>while (msg.size() % 64 != 56) msg.push_back(0)\<close>\<close>

function pad_zeros :: "bytes \<Rightarrow> bytes" where
  "pad_zeros msg = (if length msg mod 64 \<noteq> 56 then pad_zeros (msg @ [0]) else msg)"
  by pat_completeness auto
termination
  by (relation "measure (\<lambda>msg. (120 - length msg mod 64) mod 64)") (simp_all add: pad_distance)

declare pad_zeros.simps [simp del]

definition sha256_pad :: "bytes \<Rightarrow> nat \<Rightarrow> bytes res" where
  "sha256_pad data len =
     bind_res (rd_range data 0 len) (\<lambda>msg.
       let msg = msg @ [0x80];
           msg = pad_zeros msg;
           bitLen = of_nat len * 8 :: u64
       in Inr (msg @ map (\<lambda>i. ucast (drop_bit (i * 8) bitLen)) (rev [0..<8])))"

definition sha256_extend :: "u32 list \<Rightarrow> nat \<Rightarrow> u32" where
  "sha256_extend w i =
     (let s0 = rotr (w ! (i - 15)) 7 XOR rotr (w ! (i - 15)) 18 XOR drop_bit 3 (w ! (i - 15));
          s1 = rotr (w ! (i - 2)) 17 XOR rotr (w ! (i - 2)) 19 XOR drop_bit 10 (w ! (i - 2))
      in w ! (i - 16) + s0 + w ! (i - 7) + s1)"

type_synonym sha256_vars = "u32 \<times> u32 \<times> u32 \<times> u32 \<times> u32 \<times> u32 \<times> u32 \<times> u32"

fun sha256_round :: "u32 \<Rightarrow> u32 \<Rightarrow> sha256_vars \<Rightarrow> sha256_vars" where
  "sha256_round k w (a, b, c, d, e, f, g, h) =
     (let S1 = rotr e 6 XOR rotr e 11 XOR rotr e 25;
          ch = (e AND f) XOR (NOT e AND g);
          temp1 = h + S1 + ch + k + w;
          S0 = rotr a 2 XOR rotr a 13 XOR rotr a 22;
          maj = (a AND b) XOR (a AND c) XOR (b AND c);
          temp2 = S0 + maj
      in (temp1 + temp2, a, b, c, d + temp1, e, f, g))"

text \<open>One round of the outer loop, on the block at \<open>off\<close>.\<close>

definition sha256_block :: "bytes \<Rightarrow> nat \<Rightarrow> u32 list \<Rightarrow> u32 list res" where
  "sha256_block msg off h =
     bind_res (map_res (load_word msg off) [0..<16]) (\<lambda>w16.
       let w = fold (\<lambda>i w. w[i := sha256_extend w i]) [16..<64] (w16 @ replicate 48 0);
           (a, b, c, d, e, f, g, h') =
             fold (\<lambda>i. sha256_round (sha256_K ! i) (w ! i)) [0..<64]
               (h ! 0, h ! 1, h ! 2, h ! 3, h ! 4, h ! 5, h ! 6, h ! 7)
       in Inr [h ! 0 + a, h ! 1 + b, h ! 2 + c, h ! 3 + d, h ! 4 + e, h ! 5 + f, h ! 6 + g, h ! 7 + h'])"

function sha256_blocks :: "bytes \<Rightarrow> nat \<Rightarrow> u32 list \<Rightarrow> u32 list res" where
  "sha256_blocks msg off h =
     (if off < length msg then bind_res (sha256_block msg off h) (sha256_blocks msg (off + 64))
      else Inr h)"
  by pat_completeness auto
termination
  by (relation "measure (\<lambda>(msg, off, h). length msg - off)") auto

declare sha256_blocks.simps [simp del]

definition sha256 :: "bytes \<Rightarrow> nat \<Rightarrow> bytes res" where
  "sha256 data len =
     bind_res (sha256_pad data len) (\<lambda>msg.
     bind_res (sha256_blocks msg 0 sha256_init) (\<lambda>h. Inr (concat (map be32 h))))"

definition hex_digit :: "nat \<Rightarrow> u8" where
  "hex_digit d = (if d < 10 then of_nat (48 + d) else of_nat (87 + d))"

text \<open>\<open>ss << std::hex << std::setw(2) << std::setfill('0') << hash[i]\<close>\<close>

definition hex2 :: "u8 \<Rightarrow> bytes" where
  "hex2 b = [hex_digit (unat b div 16), hex_digit (unat b mod 16)]"

definition hashNumber :: "i64 \<Rightarrow> bytes res" where
  "hashNumber num =
     (let s = str (to_string (sint num))
      in bind_res (sha256 s (length s)) (\<lambda>hash.
           bind_res (map_res (rd_at hash) [0..<5]) (\<lambda>bs. Inr (concat (map hex2 bs)))))"

section \<open>FIPS 180-4\<close>

definition BSIG0 :: "u32 \<Rightarrow> u32" where
  "BSIG0 x = word_rotr 2 x XOR word_rotr 13 x XOR word_rotr 22 x"

definition BSIG1 :: "u32 \<Rightarrow> u32" where
  "BSIG1 x = word_rotr 6 x XOR word_rotr 11 x XOR word_rotr 25 x"

definition SSIG0 :: "u32 \<Rightarrow> u32" where
  "SSIG0 x = word_rotr 7 x XOR word_rotr 18 x XOR drop_bit 3 x"

definition SSIG1 :: "u32 \<Rightarrow> u32" where
  "SSIG1 x = word_rotr 17 x XOR word_rotr 19 x XOR drop_bit 10 x"

fun sha256_W :: "bytes \<Rightarrow> nat \<Rightarrow> u32" where
  "sha256_W blk t =
     (if t < 16 then block_word blk t
      else SSIG1 (sha256_W blk (t - 2)) + sha256_W blk (t - 7) + SSIG0 (sha256_W blk (t - 15))
             + sha256_W blk (t - 16))"

declare sha256_W.simps [simp del]

fun sha256_step :: "bytes \<Rightarrow> nat \<Rightarrow> sha256_vars \<Rightarrow> sha256_vars" where
  "sha256_step blk t (a, b, c, d, e, f, g, h) =
     (let T1 = h + BSIG1 e + Ch e f g + sha256_K ! t + sha256_W blk t;
          T2 = BSIG0 a + Maj a b c
      in (T1 + T2, a, b, c, d + T1, e, f, g))"

definition sha256_compress :: "bytes \<Rightarrow> u32 list \<Rightarrow> u32 list" where
  "sha256_compress blk H =
     (case fold (sha256_step blk) [0..<64] (H ! 0, H ! 1, H ! 2, H ! 3, H ! 4, H ! 5, H ! 6, H ! 7) of
        (a, b, c, d, e, f, g, h) \<Rightarrow>
          [H ! 0 + a, H ! 1 + b, H ! 2 + c, H ! 3 + d, H ! 4 + e, H ! 5 + f, H ! 6 + g, H ! 7 + h])"

definition SHA_256 :: "bytes \<Rightarrow> bytes" where
  "SHA_256 = md_digest sha256_compress sha256_init"

section \<open>The code computes SHA-256\<close>

lemma pad_zeros_replicate:
  "pad_zeros msg = msg @ replicate ((120 - length msg mod 64) mod 64) 0"
proof (induction msg rule: pad_zeros.induct)
  case (1 msg)
  show ?case
  proof (cases "length msg mod 64 = 56")
    case True
    then show ?thesis by (subst pad_zeros.simps) simp
  next
    case False
    with 1 [OF False] pad_distance [OF False] show ?thesis
      by (subst pad_zeros.simps) simp
  qed
qed

lemma sha256_pad_md: "sha256_pad data (length data) = Inr (md_pad data)"
proof -
  have "(120 - Suc (length data) mod 64) mod 64 = (119 - length data mod 64) mod 64"
    by (auto simp: mod_Suc)
  then show ?thesis
    by (simp add: sha256_pad_def pad_zeros_replicate be64_shifts md_pad_def mult.commute del: upt_Suc)
qed

lemma sha256_schedule:
  assumes "w16 = map (block_word blk) [0..<16]"
  shows "\<forall>j < 64. fold (\<lambda>i w. w[i := sha256_extend w i]) [16..<64] (w16 @ replicate 48 0) ! j = sha256_W blk j"
proof (rule array_fill)
  fix i and w :: "u32 list"
  assume i: "16 \<le> i" and w: "\<forall>j < i. w ! j = sha256_W blk j"
  from i have "w ! (i - 15) = sha256_W blk (i - 15)" "w ! (i - 2) = sha256_W blk (i - 2)"
    "w ! (i - 16) = sha256_W blk (i - 16)" "w ! (i - 7) = sha256_W blk (i - 7)"
    by (simp_all add: w)
  then show "sha256_extend w i = sha256_W blk i"
    using i by (subst sha256_W.simps)
      (simp add: sha256_extend_def SSIG0_def SSIG1_def rotr_word_rotr Let_def ac_simps)
qed (simp_all add: assms nth_append sha256_W.simps)

lemma sha256_round_step: "sha256_round (sha256_K ! t) (sha256_W blk t) v = sha256_step blk t v"
  by (cases "(blk, t, v)" rule: sha256_step.cases) (simp add: Let_def rotr_word_rotr BSIG0_def BSIG1_def Ch_def Maj_def)

lemma sha256_block_compress:
  assumes "off + 64 \<le> length msg"
  shows "sha256_block msg off h = Inr (sha256_compress (take 64 (drop off msg)) h)"
proof -
  let ?blk = "take 64 (drop off msg)"
  define w where
    "w = fold (\<lambda>i w. w[i := sha256_extend w i]) [16..<64] (map (block_word ?blk) [0..<16] @ replicate 48 0)"
  have w: "\<forall>j < 64. w ! j = sha256_W ?blk j"
    unfolding w_def by (rule sha256_schedule [OF refl])
  have rounds: "fold (\<lambda>i. sha256_round (sha256_K ! i) (w ! i)) [0..<64] v = fold (sha256_step ?blk) [0..<64] v"
    for v
  proof (rule fold_cong [OF refl refl])
    fix i :: nat
    assume "i \<in> set [0..<64]"
    then have "i < 64" by (simp only: set_upt atLeastLessThan_iff)
    with w show "sha256_round (sha256_K ! i) (w ! i) = sha256_step ?blk i"
      by (simp add: sha256_round_step fun_eq_iff)
  qed
  show ?thesis
    unfolding sha256_block_def load_words [OF assms] sha256_compress_def bind_res_simps Let_def
      w_def [symmetric] rounds
    by (simp only: prod.case_distrib [of Inr])
qed

lemma sha256_blocks_fold:
  "64 dvd length msg \<Longrightarrow> 64 dvd off \<Longrightarrow>
     sha256_blocks msg off h = Inr (fold sha256_compress (blocks (drop off msg)) h)"
proof (induction msg off h rule: sha256_blocks.induct)
  case (1 msg off h)
  show ?case
  proof (cases "off < length msg")
    case True
    then have len: "off + 64 \<le> length msg" using 1(2,3) by (elim dvdE) simp
    then have "blocks (drop off msg) = take 64 (drop off msg) # blocks (drop (off + 64) msg)"
      by (subst blocks.simps) (simp add: add.commute)
    with 1 True sha256_block_compress [OF len] show ?thesis
      by (subst sha256_blocks.simps) simp
  qed (subst sha256_blocks.simps, simp)
qed

lemma sha256_SHA_256: "sha256 data (length data) = Inr (SHA_256 data)"
  by (simp add: sha256_def sha256_pad_md sha256_blocks_fold length_md_pad SHA_256_def md_digest_def)

text \<open>C17: \<open>detail::sha256\<close> computes SHA-256 as FIPS 180-4 defines it, for a message of any length, and
  never leaves its arrays.\<close>

theorem sha256_correct: "sha256 data (length data) = Inr (SHA_256 data)"
  by (rule sha256_SHA_256)

section \<open>Fingerprints\<close>

lemma length_sha256_compress [simp]: "length (sha256_compress blk h) = 8"
  unfolding sha256_compress_def by (simp only: split_beta) simp

lemma length_SHA_256 [simp]: "length (SHA_256 m) = 32"
  using length_md_digest [of sha256_compress 8 sha256_init m] by (simp add: SHA_256_def sha256_init_def)

lemma hex_digit_range: "d < 16 \<Longrightarrow> hex_digit d \<in> set (str ''0123456789abcdef'')"
  unfolding hex_digit_def
  by (simp add: less_Suc_eq numeral_eq_Suc; auto)

lemma hex2_range: "set (hex2 b) \<subseteq> set (str ''0123456789abcdef'')"
  using unsigned_less [of b, where 'a = nat] hex_digit_range unfolding hex2_def
  by (simp del: str_simps add: less_mult_imp_div_less)

lemma hashNumber_digest: "hashNumber num = Inr (concat (map hex2 (take 5 (SHA_256 (str (to_string (sint num)))))))"
proof -
  let ?d = "SHA_256 (str (to_string (sint num)))"
  have "map_res (rd_at ?d) [0..<5] = Inr (map ((!) ?d) [0..<5])"
    by (rule map_res_Inr) simp
  moreover have "map ((!) ?d) [0..<5] = take 5 ?d" by (simp add: list_eq_iff_nth_eq)
  ultimately show ?thesis by (simp only: hashNumber_def Let_def sha256_SHA_256 bind_res_simps)
qed

lemma hex_bytes: "length (concat (map hex2 bs)) = 2 * length bs" "set (concat (map hex2 bs)) \<subseteq> set (str ''0123456789abcdef'')"
proof -
  show "length (concat (map hex2 bs)) = 2 * length bs" by (induction bs) (simp_all add: hex2_def)
  show "set (concat (map hex2 bs)) \<subseteq> set (str ''0123456789abcdef'')" using hex2_range by fastforce
qed

text \<open>C32: The fingerprint the server answers a random number with is the first five bytes of the SHA-256
  digest of the number's decimal form, as ten lower-case hexadecimal digits.\<close>

theorem hashNumber_correct:
  "\<exists>hex. hashNumber num = Inr hex
     \<and> hex = concat (map hex2 (take 5 (SHA_256 (str (to_string (sint num))))))
     \<and> length hex = 10 \<and> set hex \<subseteq> set (str ''0123456789abcdef'')"
  using hashNumber_digest [of num] hex_bytes [of "take 5 (SHA_256 (str (to_string (sint num))))"] by simp

end
