(* ===== verification/Hash_Vectors.thy ===== *)
theory Hash_Vectors
  imports Sha256
begin

text \<open>
  Known digests. The correctness theorems share the round constants with the code; evaluating
  the code on published digests ties the constants to the standard. The evaluation goes through
  a form of the block function that computes on lists, proved equal to the code.
\<close>

section \<open>SHA-256\<close>

definition sha256_fast :: "u32 list \<Rightarrow> u32 list \<Rightarrow> u32 list" where
  "sha256_fast w16 h =
     (case fold (\<lambda>(k, w). sha256_round k w)
             (zip sha256_K (fold (\<lambda>i w. w @ [sha256_extend w i]) [16..<64] w16))
             (h ! 0, h ! 1, h ! 2, h ! 3, h ! 4, h ! 5, h ! 6, h ! 7) of
        (a, b, c, d, e, f, g, h') \<Rightarrow>
          [h ! 0 + a, h ! 1 + b, h ! 2 + c, h ! 3 + d, h ! 4 + e, h ! 5 + f, h ! 6 + g, h ! 7 + h'])"

lemma sha256_block_code [code]:
  "sha256_block msg off h = bind_res (map_res (load_word msg off) [0..<16]) (\<lambda>w16. Inr (sha256_fast w16 h))"
  unfolding sha256_block_def
proof (rule bind_res_cong [OF refl])
  fix w16
  assume "map_res (load_word msg off) [0..<16] = Inr w16"
  then have len: "length w16 = 16" by (auto dest: map_res_length simp del: upt_rec_numeral)
  let ?w = "fold (\<lambda>i w. w @ [sha256_extend w i]) [16..<64] w16"
  have "fold (\<lambda>i w. w[i := sha256_extend w i]) [16..<64] (w16 @ replicate (64 - 16) 0) = ?w"
    by (rule fill_by_append) (simp_all add: len sha256_extend_def)
  moreover have "64 - 16 = (48 :: nat)" by simp
  ultimately have w: "fold (\<lambda>i w. w[i := sha256_extend w i]) [16..<64] (w16 @ replicate 48 0) = ?w"
    by (simp only:)
  have "length (fold (\<lambda>i w. w @ [sha256_extend w i]) is w) = length w + length is" for "is" w
    by (induction "is" arbitrary: w) simp_all
  then have "length ?w = 64" by (simp only: len length_upt)
  moreover have "length sha256_K = 64" by (simp add: sha256_K_def)
  ultimately have "fold (\<lambda>i. sha256_round (sha256_K ! i) (?w ! i)) [0..<64]
      = fold (\<lambda>(k, w). sha256_round k w) (zip sha256_K ?w)"
    by (intro fold_nth_zip)
  then show "(let w = fold (\<lambda>i w. w[i := sha256_extend w i]) [16..<64] (w16 @ replicate 48 0);
           (a, b, c, d, e, f, g, h') =
             fold (\<lambda>i. sha256_round (sha256_K ! i) (w ! i)) [0..<64]
               (h ! 0, h ! 1, h ! 2, h ! 3, h ! 4, h ! 5, h ! 6, h ! 7)
       in Inr [h ! 0 + a, h ! 1 + b, h ! 2 + c, h ! 3 + d, h ! 4 + e, h ! 5 + f, h ! 6 + g, h ! 7 + h'])
      = Inr (sha256_fast w16 h)"
    by (simp only: w Let_def sha256_fast_def prod.case_distrib [of Inr])
qed

lemma sha256_blocks_step:
  "off < length msg \<Longrightarrow> sha256_block msg off h = Inr h' \<Longrightarrow>
     sha256_blocks msg off h = sha256_blocks msg (off + 64) h'"
  by (subst sha256_blocks.simps) simp

lemma sha256_blocks_end: "length msg \<le> off \<Longrightarrow> sha256_blocks msg off h = Inr h"
  by (subst sha256_blocks.simps) simp

lemma sha256_42: "sha256 [0x34, 0x32] 2 = Inr (concat (map be32
   [0x73475cb4, 0x0a568e8d, 0xa8a045ce, 0xd110137e,
     0x159f890a, 0xc4da883b, 0x6b17dc65, 0x1b3a8049]))"
proof -
  have pad: "sha256_pad [0x34, 0x32] 2 = Inr ([0x34, 0x32, 0x80] @ replicate 60 0 @ [16])" (is "_ = Inr ?msg")
    by code_simp
  have w16: "map_res (load_word ?msg 0) [0..<16] = Inr [0x34328000, 0, 0, 0, 0, 0, 0, 0, 0, 0, 0, 0, 0, 0, 0, 16]"
    by code_simp
  have digest: "sha256_fast [0x34328000, 0, 0, 0, 0, 0, 0, 0, 0, 0, 0, 0, 0, 0, 0, 16] sha256_init =
    [0x73475cb4, 0x0a568e8d, 0xa8a045ce, 0xd110137e,
     0x159f890a, 0xc4da883b, 0x6b17dc65, 0x1b3a8049]"
    by code_simp
  have "sha256_block ?msg 0 sha256_init = Inr [0x73475cb4, 0x0a568e8d, 0xa8a045ce, 0xd110137e,
     0x159f890a, 0xc4da883b, 0x6b17dc65, 0x1b3a8049]"
    by (simp only: sha256_block_code w16 digest bind_res_simps)
  moreover have "length ?msg = 64" by simp
  ultimately have "sha256_blocks ?msg 0 sha256_init = Inr [0x73475cb4, 0x0a568e8d, 0xa8a045ce, 0xd110137e,
     0x159f890a, 0xc4da883b, 0x6b17dc65, 0x1b3a8049]"
    using sha256_blocks_step [of 0 ?msg] sha256_blocks_end [of ?msg "0 + 64"] by (simp only:)
  then show ?thesis by (simp only: sha256_def pad bind_res_simps)
qed

lemma hashNumber_42: "hashNumber 42 = Inr (str ''73475cb40a'')"
proof -
  have "str (to_string (sint (42 :: i64))) = [0x34, 0x32]" by code_simp
  moreover have "map_res (rd_at (concat (map be32 [0x73475cb4, 0x0a568e8d, 0xa8a045ce, 0xd110137e,
     0x159f890a, 0xc4da883b, 0x6b17dc65, 0x1b3a8049]))) [0..<5] =
      Inr [0x73, 0x47, 0x5c, 0xb4, 0x0a]"
    by code_simp
  moreover have "concat (map hex2 [0x73, 0x47, 0x5c, 0xb4, 0x0a]) = str ''73475cb40a''" by code_simp
  moreover have "length [0x34 :: u8, 0x32] = 2" by simp
  ultimately show ?thesis by (simp only: hashNumber_def Let_def sha256_42 bind_res_simps)
qed

end
