(* ===== verification/Ws_Socket.thy ===== *)
theory Ws_Socket
  imports HWS_Prelude
begin

text \<open>
  The TCP helpers of \<open>common/ws.hpp\<close>: \<open>recvAll\<close>, \<open>sendAll\<close> and \<open>recvHttpHeaders\<close>, loops over the
  system calls \<open>recv\<close> and \<open>send\<close>. The system is a parameter: a record of the calls the code makes,
  over a state \<open>'s\<close> that only the system knows. What POSIX documents of a blocking stream socket is
  the locale \<open>stream_socket\<close>, with two observers of the state: the bytes the peer still delivers and
  the bytes handed over to the peer so far. \<open>reliable_socket\<close> adds that the calls do not fail while
  the connection is up. Both are interpreted on an executable socket that delivers and accepts
  bytes in segments of any sizes.
\<close>

section \<open>The system\<close>

text \<open>
  \<open>os_recv n\<close> is \<open>::recv(sock, buf, n, 0)\<close>: \<open>None\<close> for a negative result, otherwise the bytes put
  into the buffer, none of them for the result 0. \<open>os_send buf n\<close> is \<open>::send(sock, buf, n, 0)\<close>
  with its result. \<open>os_rand\<close> is a byte drawn from \<open>std::random_device\<close>, directly or through a
  generator seeded by it.
\<close>

record 's os =
  os_recv :: "int \<Rightarrow> 's \<Rightarrow> bytes option \<times> 's"
  os_send :: "bytes \<Rightarrow> int \<Rightarrow> 's \<Rightarrow> int \<times> 's"
  os_rand :: "'s \<Rightarrow> u8 \<times> 's"

text \<open>\<open>static_cast<int>\<close> of a \<open>size_t\<close>.\<close>

definition to_int :: "nat \<Rightarrow> int" where
  "to_int n = sint (of_nat n :: i32)"

section \<open>The code\<close>

text \<open>\<open>None\<close> is the result \<open>false\<close>; on success the buffer's contents are returned.\<close>

function recvAll_from :: "'s os \<Rightarrow> nat \<Rightarrow> bytes \<Rightarrow> 's \<Rightarrow> bytes option \<times> 's" where
  "recvAll_from os len buf s =
     (if length buf < len then
        (case os_recv os (to_int (len - length buf)) s of
           (None, s) \<Rightarrow> (None, s)
         | (Some bs, s) \<Rightarrow> if bs = [] then (None, s) else recvAll_from os len (buf @ bs) s)
      else (Some buf, s))"
  by pat_completeness auto
termination
  by (relation "measure (\<lambda>(os, len, buf, s). len - length buf)") (auto intro!: diff_less_mono2)

definition recvAll :: "'s os \<Rightarrow> nat \<Rightarrow> 's \<Rightarrow> bytes option \<times> 's" where
  "recvAll os len = recvAll_from os len []"

function sendAll_from :: "'s os \<Rightarrow> bytes \<Rightarrow> nat \<Rightarrow> 's \<Rightarrow> bool \<times> 's" where
  "sendAll_from os buf sofar s =
     (if sofar < length buf then
        (case os_send os (drop sofar buf) (to_int (length buf - sofar)) s of
           (n, s) \<Rightarrow> if n \<le> 0 then (False, s) else sendAll_from os buf (sofar + nat n) s)
      else (True, s))"
  by pat_completeness auto
termination
  by (relation "measure (\<lambda>(os, buf, sofar, s). length buf - sofar)") auto

definition sendAll :: "'s os \<Rightarrow> bytes \<Rightarrow> 's \<Rightarrow> bool \<times> 's" where
  "sendAll os buf = sendAll_from os buf 0"

definition CRLF2 :: bytes where
  "CRLF2 = [13, 10, 13, 10]"

text \<open>The loop of \<open>recvHttpHeaders\<close>; the empty string is its failure value.\<close>

function recvHttp_from :: "'s os \<Rightarrow> bytes \<Rightarrow> 's \<Rightarrow> bytes \<times> 's" where
  "recvHttp_from os buf s =
     (case os_recv os 1 s of
        (None, s) \<Rightarrow> ([], s)
      | (Some [], s) \<Rightarrow> ([], s)
      | (Some (ch # _), s) \<Rightarrow>
          let buf = buf @ [ch]
          in if length buf \<ge> 4 \<and> drop (length buf - 4) buf = CRLF2 then (buf, s)
             else if length buf > 8192 then ([], s)
             else recvHttp_from os buf s)"
  by pat_completeness auto
termination
  by (relation "measure (\<lambda>(os, buf, s). 8193 - length buf)") auto

declare recvAll_from.simps [simp del] sendAll_from.simps [simp del] recvHttp_from.simps [simp del]

definition recvHttpHeaders :: "'s os \<Rightarrow> 's \<Rightarrow> bytes \<times> 's" where
  "recvHttpHeaders os = recvHttp_from os []"

text \<open>\<open>for (...) key[i] = rd()\<close>\<close>

fun randomBytes :: "'s os \<Rightarrow> nat \<Rightarrow> 's \<Rightarrow> bytes \<times> 's" where
  "randomBytes os 0 s = ([], s)"
| "randomBytes os (Suc n) s =
     (case os_rand os s of (b, s) \<Rightarrow> case randomBytes os n s of (bs, s) \<Rightarrow> (b # bs, s))"

lemma length_randomBytes: "randomBytes os n s = (bs, s') \<Longrightarrow> length bs = n"
  by (induction n arbitrary: s bs) (auto split: prod.splits)

section \<open>Stream sockets\<close>

locale stream_socket =
  fixes os :: "'s os"
    and input :: "'s \<Rightarrow> bytes"
    and sent :: "'s \<Rightarrow> bytes"
  assumes recv_data: "0 < k \<Longrightarrow> os_recv os k s = (Some bs, s') \<Longrightarrow>
      int (length bs) \<le> k \<and> input s = bs @ input s' \<and> sent s' = sent s"
    and recv_end: "0 < k \<Longrightarrow> os_recv os k s = (Some [], s') \<Longrightarrow> input s = []"
    and recv_fail: "os_recv os k s = (None, s') \<Longrightarrow> sent s' = sent s"
    and send_data: "0 < k \<Longrightarrow> k \<le> int (length buf) \<Longrightarrow> os_send os buf k s = (n, s') \<Longrightarrow>
      input s' = input s \<and> n \<le> k \<and> sent s' = sent s @ take (nat n) buf"
    and rand_data: "os_rand os s = (b, s') \<Longrightarrow> input s' = input s \<and> sent s' = sent s"

text \<open>The sizes that survive the conversion to \<open>int\<close>.\<close>

lemma to_int_small: "n < 2 ^ 31 \<Longrightarrow> to_int n = int n"
proof -
  assume "n < 2 ^ 31"
  then have "uint (of_nat n :: i32) = int n" by (simp add: uint_nat unat_of_nat)
  then show ?thesis
    using \<open>n < 2 ^ 31\<close> by (simp add: to_int_def sint_uint signed_take_bit_int_eq_self)
qed

context stream_socket
begin

lemma recvAll_from_outcome:
  "len < 2 ^ 31 \<Longrightarrow> length buf \<le> len \<Longrightarrow> recvAll_from os len buf s = (r, s') \<Longrightarrow>
     sent s' = sent s \<and>
     (\<forall>bs. r = Some bs \<longrightarrow> (\<exists>cs. bs = buf @ cs \<and> length bs = len \<and> input s = cs @ input s'))"
proof (induction "len - length buf" arbitrary: buf s rule: less_induct)
  case less
  show ?case
  proof (cases "length buf < len")
    case False
    with less.prems show ?thesis by (auto simp: recvAll_from.simps)
  next
    case True
    let ?k = "to_int (len - length buf)"
    have k: "?k = int (len - length buf)" "0 < ?k" using True less.prems(1) by (simp_all add: to_int_small)
    obtain x s1 where x: "os_recv os ?k s = (x, s1)" by fastforce
    show ?thesis
    proof (cases x)
      case None
      with x less.prems(3) True recv_fail [of ?k s s1] show ?thesis by (auto simp: recvAll_from.simps)
    next
      case (Some bs)
      note d = recv_data [OF k(2) x [unfolded Some]]
      show ?thesis
      proof (cases "bs = []")
        case True
        with d x Some less.prems(3) \<open>length buf < len\<close> show ?thesis
          by (auto simp: recvAll_from.simps [of os len buf s])
      next
        case False
        then have "recvAll_from os len (buf @ bs) s1 = (r, s')"
          using x Some less.prems(3) \<open>length buf < len\<close> by (simp add: recvAll_from.simps [of os len buf s])
        moreover have "length (buf @ bs) \<le> len" using d k by simp
        moreover have "len - length (buf @ bs) < len - length buf"
          using False \<open>length buf < len\<close> by (simp add: diff_less_mono2)
        ultimately show ?thesis using less.hyps [of "buf @ bs" s1] less.prems(1) d by fastforce
      qed
    qed
  qed
qed

lemma recvAll_sound:
  "recvAll os n s = (Some bs, s') \<Longrightarrow> n < 2 ^ 31 \<Longrightarrow>
     length bs = n \<and> input s = bs @ input s' \<and> sent s' = sent s"
  using recvAll_from_outcome [of n "[]" s "Some bs" s'] by (simp add: recvAll_def)

lemma recvAll_sent: "recvAll os n s = (r, s') \<Longrightarrow> n < 2 ^ 31 \<Longrightarrow> sent s' = sent s"
  using recvAll_from_outcome [of n "[]" s r s'] by (simp add: recvAll_def)

lemma sendAll_from_outcome:
  "length buf < 2 ^ 31 \<Longrightarrow> j \<le> length buf \<Longrightarrow> sendAll_from os buf j s = (ok, s') \<Longrightarrow>
     \<exists>k. j \<le> k \<and> k \<le> length buf \<and> (ok \<longleftrightarrow> k = length buf) \<and> input s' = input s
       \<and> sent s' = sent s @ take (k - j) (drop j buf)"
proof (induction "length buf - j" arbitrary: j s rule: less_induct)
  case less
  show ?case
  proof (cases "j < length buf")
    case False
    with less.prems show ?thesis by (auto simp: sendAll_from.simps)
  next
    case True
    let ?k = "to_int (length buf - j)"
    have k: "?k = int (length buf - j)" "0 < ?k" "?k \<le> int (length (drop j buf))"
      using True less.prems(1) by (simp_all add: to_int_small)
    obtain n s1 where x: "os_send os (drop j buf) ?k s = (n, s1)" by fastforce
    note d = send_data [OF k(2,3) x]
    show ?thesis
    proof (cases "n \<le> 0")
      case True
      with d x less.prems(2,3) \<open>j < length buf\<close> show ?thesis
        by (intro exI [of _ j]) (auto simp: sendAll_from.simps [of os buf j s])
    next
      case False
      let ?j = "j + nat n"
      have j: "?j \<le> length buf" using d k False by linarith
      have "sendAll_from os buf ?j s1 = (ok, s')"
        using False x less.prems(3) \<open>j < length buf\<close> by (simp add: sendAll_from.simps [of os buf j s])
      moreover have "length buf - ?j < length buf - j" using False \<open>j < length buf\<close> by linarith
      ultimately obtain l where l: "?j \<le> l" "l \<le> length buf" "ok \<longleftrightarrow> l = length buf" "input s' = input s1"
        "sent s' = sent s1 @ take (l - ?j) (drop ?j buf)"
        using less.hyps [of ?j s1] less.prems(1) j by blast
      have "take (nat n) (drop j buf) @ take (l - ?j) (drop ?j buf) = take (l - j) (drop j buf)"
        using l(1) by (simp add: add.commute [of j] flip: drop_drop take_add)
      with l d show ?thesis by (intro exI [of _ l]) auto
    qed
  qed
qed

lemma sendAll_outcome:
  "sendAll os buf s = (ok, s') \<Longrightarrow> length buf < 2 ^ 31 \<Longrightarrow>
     \<exists>k \<le> length buf. (ok \<longleftrightarrow> k = length buf) \<and> input s' = input s \<and> sent s' = sent s @ take k buf"
  using sendAll_from_outcome [of buf 0 s ok s'] by (auto simp: sendAll_def)

lemma sendAll_True:
  "sendAll os buf s = (True, s') \<Longrightarrow> length buf < 2 ^ 31 \<Longrightarrow> input s' = input s \<and> sent s' = sent s @ buf"
  using sendAll_outcome by fastforce

lemma randomBytes_silent:
  "randomBytes os n s = (bs, s') \<Longrightarrow> input s' = input s \<and> sent s' = sent s"
proof (induction n arbitrary: s bs)
  case (Suc n)
  then show ?case using rand_data by (auto split: prod.splits)
qed simp

end

text \<open>
  The text that \<open>recvHttpHeaders\<close> looks for: it ends with an empty line, no shorter prefix does, and
  it is not longer than the limit allows.
\<close>

definition ends_headers :: "bytes \<Rightarrow> bool" where
  "ends_headers t \<longleftrightarrow> 4 \<le> length t \<and> drop (length t - 4) t = CRLF2"

definition header_text :: "bytes \<Rightarrow> bool" where
  "header_text t \<longleftrightarrow> ends_headers t \<and> (\<forall>k < length t. \<not> ends_headers (take k t)) \<and> length t \<le> 8193"

lemma header_text_nonempty: "header_text t \<Longrightarrow> t \<noteq> []"
  by (auto simp: header_text_def ends_headers_def)

context stream_socket
begin

lemma recv_one:
  assumes "os_recv os 1 s = (Some (ch # cs), s')"
  shows "cs = [] \<and> input s = ch # input s' \<and> sent s' = sent s"
  using recv_data [of 1 s "ch # cs" s'] assms by simp

lemma recvHttp_from_sound:
  "recvHttp_from os buf s = (t, s') \<Longrightarrow> (\<forall>k \<le> length buf. \<not> ends_headers (take k buf)) \<Longrightarrow> length buf \<le> 8192 \<Longrightarrow>
     sent s' = sent s \<and> (t \<noteq> [] \<longrightarrow> header_text t \<and> (\<exists>cs. t = buf @ cs \<and> input s = cs @ input s'))"
proof (induction "8193 - length buf" arbitrary: buf s rule: less_induct)
  case less
  obtain r s1 where r: "os_recv os 1 s = (r, s1)" by fastforce
  consider "r = None" | "r = Some []" | ch cs where "r = Some (ch # cs)" by (metis list.exhaust option.exhaust)
  then show ?case
  proof cases
    case 1
    with r less.prems(1) recv_fail [of 1 s s1] show ?thesis by (simp add: recvHttp_from.simps [of os buf s])
  next
    case 2
    with r less.prems(1) recv_data [of 1 s "[]" s1] show ?thesis by (simp add: recvHttp_from.simps [of os buf s])
  next
    case 3
    let ?b = "buf @ [ch]"
    note one = recv_one [OF r [unfolded 3]]
    have eq: "recvHttp_from os buf s =
        (if ends_headers ?b then (?b, s1) else if length ?b > 8192 then ([], s1) else recvHttp_from os ?b s1)"
      using r 3 by (subst recvHttp_from.simps) (simp add: Let_def ends_headers_def)
    have prefixes: "\<forall>k < length ?b. \<not> ends_headers (take k ?b)" using less.prems(2) by auto
    show ?thesis
    proof (cases "ends_headers ?b \<or> length ?b > 8192")
      case True
      then show ?thesis using eq less.prems(1,3) one prefixes by (auto simp: header_text_def split: if_splits)
    next
      case False
      then have "recvHttp_from os ?b s1 = (t, s')" using eq less.prems(1) by simp
      moreover have "\<forall>k \<le> length ?b. \<not> ends_headers (take k ?b)"
        using prefixes False by (metis le_neq_implies_less order_refl take_all)
      ultimately have "sent s' = sent s1 \<and> (t \<noteq> [] \<longrightarrow> header_text t \<and> (\<exists>cs. t = ?b @ cs \<and> input s1 = cs @ input s'))"
        using less.hyps [of ?b s1] False less.prems(3) by fastforce
      with one show ?thesis by auto
    qed
  qed
qed

lemma recvHttpHeaders_sound:
  assumes "recvHttpHeaders os s = (t, s')"
  shows "sent s' = sent s" and "t \<noteq> [] \<Longrightarrow> header_text t \<and> input s = t @ input s'"
  using recvHttp_from_sound [of "[]" s t s'] assms
  by (auto simp: recvHttpHeaders_def ends_headers_def)

end

section \<open>Reliable sockets\<close>

text \<open>While the connection is up, \<open>recv\<close> delivers what is there and \<open>send\<close> accepts at least one byte.\<close>

locale reliable_socket = stream_socket +
  assumes recv_live: "0 < k \<Longrightarrow> input s \<noteq> [] \<Longrightarrow> fst (os_recv os k s) \<noteq> None"
    and send_live: "0 < k \<Longrightarrow> k \<le> int (length buf) \<Longrightarrow> 0 < fst (os_send os buf k s)"
begin

lemma recv_some:
  assumes "0 < k" and "input s \<noteq> []"
  obtains bs s' where "os_recv os k s = (Some bs, s')" "bs \<noteq> []" "int (length bs) \<le> k"
    "input s = bs @ input s'" "sent s' = sent s"
proof -
  obtain bs s' where "os_recv os k s = (Some bs, s')"
    using recv_live [OF assms] by (cases "os_recv os k s") auto
  then show thesis using recv_data [OF assms(1), of s bs s'] recv_end [OF assms(1)] assms(2) that by metis
qed

lemma recvAll_from_exact:
  "len < 2 ^ 31 \<Longrightarrow> length buf \<le> len \<Longrightarrow>
     (if len - length buf \<le> length (input s)
      then \<exists>s'. recvAll_from os len buf s = (Some (buf @ take (len - length buf) (input s)), s')
                 \<and> input s' = drop (len - length buf) (input s) \<and> sent s' = sent s
      else fst (recvAll_from os len buf s) = None)"
proof (induction "len - length buf" arbitrary: buf s rule: less_induct)
  case less
  show ?case
  proof (cases "length buf < len")
    case False
    with less.prems show ?thesis by (simp add: recvAll_from.simps)
  next
    case True
    let ?n = "len - length buf"
    have k: "to_int ?n = int ?n" "0 < to_int ?n" using True less.prems(1) by (simp_all add: to_int_small)
    show ?thesis
    proof (cases "input s = []")
      case empty: True
      obtain r s1 where r: "os_recv os (to_int ?n) s = (r, s1)" by fastforce
      have "r = None \<or> r = Some []" using recv_data [OF k(2), of s _ s1] r empty by (cases r) auto
      with r True empty show ?thesis by (auto simp: recvAll_from.simps [of os len buf s])
    next
      case False
      obtain bs s1 where bs: "os_recv os (to_int ?n) s = (Some bs, s1)" "bs \<noteq> []" "int (length bs) \<le> to_int ?n"
        "input s = bs @ input s1" "sent s1 = sent s"
        using recv_some [OF k(2) False] .
      have len: "length (buf @ bs) \<le> len" using bs(3) k True by simp
      have "recvAll_from os len buf s = recvAll_from os len (buf @ bs) s1"
        using True bs by (simp add: recvAll_from.simps [of os len buf s])
      moreover have "len - length (buf @ bs) < ?n" using bs(2) True by (simp add: diff_less_mono2)
      moreover have "take ?n (input s) = bs @ take (len - length (buf @ bs)) (input s1)"
        "drop ?n (input s) = drop (len - length (buf @ bs)) (input s1)"
        using bs(3,4) k by simp_all
      moreover have "?n \<le> length (input s) \<longleftrightarrow> len - length (buf @ bs) \<le> length (input s1)"
        using bs(3,4) k by auto
      ultimately show ?thesis
        using less.hyps [of "buf @ bs" s1] less.prems(1) len bs(5) by (simp split: if_splits)
    qed
  qed
qed

lemma recvAll_exact:
  assumes "n < 2 ^ 31" and "n \<le> length (input s)"
  obtains s' where "recvAll os n s = (Some (take n (input s)), s')" "input s' = drop n (input s)" "sent s' = sent s"
  using recvAll_from_exact [of n "[]" s] assms that by (auto simp: recvAll_def)

lemma recvAll_append:
  assumes "input s = bs @ ts" and "length bs = n" and "n < 2 ^ 31"
  obtains s' where "recvAll os n s = (Some bs, s')" "input s' = ts" "sent s' = sent s"
  using recvAll_exact [of n s] assms by auto

lemma recvAll_short: "n < 2 ^ 31 \<Longrightarrow> length (input s) < n \<Longrightarrow> fst (recvAll os n s) = None"
  using recvAll_from_exact [of n "[]" s] by (simp add: recvAll_def)

lemma sendAll_from_live:
  "length buf < 2 ^ 31 \<Longrightarrow> j \<le> length buf \<Longrightarrow> fst (sendAll_from os buf j s)"
proof (induction "length buf - j" arbitrary: j s rule: less_induct)
  case less
  show ?case
  proof (cases "j < length buf")
    case False
    then show ?thesis by (simp add: sendAll_from.simps)
  next
    case True
    let ?k = "to_int (length buf - j)"
    have k: "0 < ?k" "?k = int (length buf - j)" "?k \<le> int (length (drop j buf))"
      using True less.prems(1) by (simp_all add: to_int_small)
    obtain n s1 where n: "os_send os (drop j buf) ?k s = (n, s1)" by fastforce
    have "0 < n" using send_live [OF k(1,3), of s] n by simp
    moreover have "n \<le> ?k" using send_data [OF k(1,3) n] by simp
    ultimately have "length buf - (j + nat n) < length buf - j" "j + nat n \<le> length buf" using k(2) True by linarith+
    from less.hyps [OF this(1) less.prems(1) this(2), of s1] True n \<open>0 < n\<close> show ?thesis
      by (simp add: sendAll_from.simps [of os buf j s])
  qed
qed

lemma sendAll_live:
  assumes "length buf < 2 ^ 31"
  obtains s' where "sendAll os buf s = (True, s')" "input s' = input s" "sent s' = sent s @ buf"
proof -
  obtain s' where "sendAll os buf s = (True, s')"
    using sendAll_from_live [of buf 0 s] assms by (cases "sendAll os buf s") (simp add: sendAll_def)
  then show thesis using sendAll_True [OF _ assms] that by blast
qed

lemma recvHttp_from_live:
  "header_text (buf @ cs) \<Longrightarrow> cs \<noteq> [] \<Longrightarrow> input s = cs @ ts \<Longrightarrow>
     \<exists>s'. recvHttp_from os buf s = (buf @ cs, s') \<and> input s' = ts \<and> sent s' = sent s"
proof (induction cs arbitrary: buf s)
  case (Cons c cs)
  obtain bs s1 where "os_recv os 1 s = (Some bs, s1)" "bs \<noteq> []"
    by (rule recv_some [of 1 s]) (use Cons.prems(3) in auto)
  then obtain b bs' where r: "os_recv os 1 s = (Some (b # bs'), s1)" by (cases bs) auto
  with recv_one [OF r] Cons.prems(3) have b: "b = c" "input s1 = cs @ ts" "sent s1 = sent s" by simp_all
  let ?b = "buf @ [c]"
  have eq: "recvHttp_from os buf s =
      (if ends_headers ?b then (?b, s1) else if length ?b > 8192 then ([], s1) else recvHttp_from os ?b s1)"
    using r b(1) by (subst recvHttp_from.simps) (simp add: Let_def ends_headers_def)
  show ?case
  proof (cases "cs = []")
    case True
    then show ?thesis using Cons.prems(1) eq b by (simp add: header_text_def)
  next
    case False
    have "length ?b < length (buf @ c # cs)" using False by simp
    then have "\<not> ends_headers (take (length ?b) (buf @ c # cs))"
      using Cons.prems(1) unfolding header_text_def by blast
    then have "\<not> ends_headers ?b" by simp
    moreover have "length ?b \<le> 8192" using Cons.prems(1) False unfolding header_text_def by (cases cs) auto
    ultimately show ?thesis using eq Cons.IH [of ?b s1] Cons.prems(1) False b by simp
  qed
qed simp

lemma recvHttpHeaders_live:
  assumes "header_text t" and "input s = t @ ts"
  obtains s' where "recvHttpHeaders os s = (t, s')" "input s' = ts" "sent s' = sent s"
  using recvHttp_from_live [of "[]" t s ts] assms header_text_nonempty that
  by (auto simp: recvHttpHeaders_def)

end

section \<open>An executable socket\<close>

text \<open>
  A connection whose input arrives in segments (the boundaries the network chooses), whose send
  buffer accepts at most the next number of \<open>seg_accept\<close> per call, and whose random bytes are
  given.
\<close>

record seg_sock =
  seg_in :: "bytes list"
  seg_out :: bytes
  seg_accept :: "nat list"
  seg_random :: bytes

definition seg_recv :: "int \<Rightarrow> seg_sock \<Rightarrow> bytes option \<times> seg_sock" where
  "seg_recv k s =
     (if k \<le> 0 then (None, s)
      else case dropWhile (\<lambda>seg. seg = []) (seg_in s) of
          [] \<Rightarrow> (Some [], s\<lparr>seg_in := []\<rparr>)
        | seg # segs \<Rightarrow> (Some (take (nat k) seg), s\<lparr>seg_in := drop (nat k) seg # segs\<rparr>))"

definition seg_send :: "bytes \<Rightarrow> int \<Rightarrow> seg_sock \<Rightarrow> int \<times> seg_sock" where
  "seg_send buf k s =
     (if k \<le> 0 \<or> int (length buf) < k then (-1, s)
      else let n = (case seg_accept s of [] \<Rightarrow> nat k | a # _ \<Rightarrow> min (nat k) (Suc a))
           in (int n, s\<lparr>seg_out := seg_out s @ take n buf, seg_accept := tl (seg_accept s)\<rparr>))"

definition seg_rand :: "seg_sock \<Rightarrow> u8 \<times> seg_sock" where
  "seg_rand s = (case seg_random s of [] \<Rightarrow> (0, s) | b # bs \<Rightarrow> (b, s\<lparr>seg_random := bs\<rparr>))"

definition seg_os :: "seg_sock os" where
  "seg_os = \<lparr>os_recv = seg_recv, os_send = seg_send, os_rand = seg_rand\<rparr>"

lemma concat_dropWhile_empty: "concat (dropWhile (\<lambda>seg. seg = []) segs) = concat segs"
  by (induction segs) simp_all

lemma seg_recv_outcome:
  assumes "0 < k"
  obtains bs s' where "os_recv seg_os k s = (Some bs, s')" "int (length bs) \<le> k"
    "concat (seg_in s) = bs @ concat (seg_in s')" "seg_out s' = seg_out s" "bs = [] \<Longrightarrow> concat (seg_in s) = []"
proof (cases "dropWhile (\<lambda>seg. seg = []) (seg_in s)")
  case Nil
  then have "concat (seg_in s) = []" using concat_dropWhile_empty [of "seg_in s"] by simp
  moreover have "seg_recv k s = (Some [], s\<lparr>seg_in := []\<rparr>)"
    unfolding seg_recv_def Nil using assms by simp
  ultimately show thesis using assms that [of "[]" "s\<lparr>seg_in := []\<rparr>"] by (simp add: seg_os_def)
next
  case (Cons seg segs)
  then have "concat (seg_in s) = seg @ concat segs" using concat_dropWhile_empty [of "seg_in s"] by simp
  moreover have "seg \<noteq> []" using hd_dropWhile [of "\<lambda>seg. seg = []" "seg_in s"] Cons by simp
  moreover have "seg_recv k s = (Some (take (nat k) seg), s\<lparr>seg_in := drop (nat k) seg # segs\<rparr>)"
    unfolding seg_recv_def Cons using assms by simp
  moreover have "int (length (take (nat k) seg)) \<le> k" using assms by auto
  ultimately show thesis
    using assms that [of "take (nat k) seg" "s\<lparr>seg_in := drop (nat k) seg # segs\<rparr>"]
    by (simp add: seg_os_def)
qed

lemma seg_send_outcome:
  assumes "0 < k" and "k \<le> int (length buf)"
  obtains n s' where "os_send seg_os buf k s = (int n, s')" "0 < n" "int n \<le> k"
    "seg_in s' = seg_in s" "seg_out s' = seg_out s @ take n buf"
proof -
  define n where "n = (case seg_accept s of [] \<Rightarrow> nat k | a # _ \<Rightarrow> min (nat k) (Suc a))"
  have "0 < n" "int n \<le> k" using assms(1) by (auto simp: n_def split: list.split)
  then show thesis
    using assms that [of n "s\<lparr>seg_out := seg_out s @ take n buf, seg_accept := tl (seg_accept s)\<rparr>"]
    by (simp add: seg_os_def seg_send_def n_def Let_def)
qed

interpretation seg: reliable_socket seg_os "\<lambda>s. concat (seg_in s)" seg_out
proof unfold_locales
  fix k :: int and s s' :: seg_sock and bs
  assume k: "0 < k"
  show "int (length bs) \<le> k \<and> concat (seg_in s) = bs @ concat (seg_in s') \<and> seg_out s' = seg_out s"
    if "os_recv seg_os k s = (Some bs, s')"
    by (rule seg_recv_outcome [OF k, of s]) (use that in simp)
  show "concat (seg_in s) = []" if "os_recv seg_os k s = (Some [], s')"
    by (rule seg_recv_outcome [OF k, of s]) (use that in simp)
  show "fst (os_recv seg_os k s) \<noteq> None"
    by (rule seg_recv_outcome [OF k, of s]) simp
next
  fix k :: int and s s' :: seg_sock
  assume none: "os_recv seg_os k s = (None, s')"
  show "seg_out s' = seg_out s"
  proof (cases "0 < k")
    case True
    show ?thesis by (rule seg_recv_outcome [OF True, of s]) (use none in simp)
  qed (use none in \<open>simp add: seg_os_def seg_recv_def\<close>)
next
  fix k n :: int and s s' :: seg_sock and buf :: bytes
  assume k: "0 < k" "k \<le> int (length buf)"
  show "concat (seg_in s') = concat (seg_in s) \<and> n \<le> k \<and> seg_out s' = seg_out s @ take (nat n) buf"
    if "os_send seg_os buf k s = (n, s')"
    by (rule seg_send_outcome [OF k, of s]) (use that in simp)
  show "0 < fst (os_send seg_os buf k s)"
    by (rule seg_send_outcome [OF k, of s]) simp
next
  fix s s' :: seg_sock and b
  show "concat (seg_in s') = concat (seg_in s) \<and> seg_out s' = seg_out s" if "os_rand seg_os s = (b, s')"
    using that by (auto simp: seg_os_def seg_rand_def split: list.splits)
qed

end
