(* ===== verification/Net_System.thy ===== *)
theory Net_System
  imports Ws_Socket
begin

text \<open>
  The rest of the system under \<open>WSServer\<close>, \<open>WSClient\<close> and the two programs: sockets as
  descriptors, name resolution, the environment and the clock. As in the theory of the TCP
  helpers it is a parameter, a record of the calls the code makes. The locale \<open>net_system\<close> states
  what POSIX documents of descriptors: a new one is not in use, closing frees it, and the
  other calls open and close nothing. It is interpreted on an executable system.
\<close>

section \<open>The calls\<close>

definition INVALID_SOCKET :: int where
  "INVALID_SOCKET = -1"

definition SOCKET_ERROR :: int where
  "SOCKET_ERROR = -1"

text \<open>
  \<open>net_io fd\<close> are \<open>recv\<close> and \<open>send\<close> on a descriptor, with the random source. An address is an
  IPv4 address and a port. \<open>net_pton\<close> is \<open>inet_pton\<close> with \<open>None\<close> for a result \<open>\<le> 0\<close>, \<open>net_addrinfo\<close> the
  first result of \<open>getaddrinfo\<close> with \<open>None\<close> for an error, \<open>net_reuse\<close> the call of \<open>setsockopt\<close>,
  whose result the code ignores, and \<open>net_now\<close> is \<open>nowMs\<close>.
\<close>

record 's net =
  net_io :: "int \<Rightarrow> 's os"
  net_socket :: "'s \<Rightarrow> int \<times> 's"
  net_reuse :: "int \<Rightarrow> 's \<Rightarrow> 's"
  net_bind :: "int \<Rightarrow> u16 \<Rightarrow> 's \<Rightarrow> int \<times> 's"
  net_listen :: "int \<Rightarrow> int \<Rightarrow> 's \<Rightarrow> int \<times> 's"
  net_accept :: "int \<Rightarrow> 's \<Rightarrow> int \<times> 's"
  net_pton :: "bytes \<Rightarrow> u32 option"
  net_addrinfo :: "bytes \<Rightarrow> bytes \<Rightarrow> 's \<Rightarrow> (u32 \<times> u16) option \<times> 's"
  net_connect :: "int \<Rightarrow> u32 \<times> u16 \<Rightarrow> 's \<Rightarrow> int \<times> 's"
  net_close :: "int \<Rightarrow> 's \<Rightarrow> 's"
  net_getenv :: "bytes \<Rightarrow> bytes option"
  net_now :: "'s \<Rightarrow> i64 \<times> 's"

section \<open>What the calls on a connection leave alone\<close>

locale silent_calls =
  fixes os :: "'s os"
    and obs :: "'s \<Rightarrow> 'x"
  assumes recv_obs: "obs (snd (os_recv os k s)) = obs s"
    and send_obs: "obs (snd (os_send os buf k s)) = obs s"
    and rand_obs: "obs (snd (os_rand os s)) = obs s"
begin

lemma recvAll_obs: "obs (snd (recvAll os len s)) = obs s"
proof -
  have "obs (snd (recvAll_from os len buf s)) = obs s" for buf
  proof (induction "len - length buf" arbitrary: buf s rule: less_induct)
    case less
    obtain r s1 where r: "os_recv os (to_int (len - length buf)) s = (r, s1)" by fastforce
    then have s1: "obs s1 = obs s" using recv_obs by (metis snd_conv)
    show ?case
    proof (cases "length buf < len \<and> r \<noteq> None \<and> r \<noteq> Some []")
      case True
      then obtain bs where bs: "r = Some bs" "bs \<noteq> []" by auto
      then have "len - length (buf @ bs) < len - length buf" using True by (simp add: diff_less_mono2)
      from less [OF this, of s1] s1 bs r True show ?thesis by (subst recvAll_from.simps) simp
    next
      case False
      then show ?thesis using r s1 by (subst recvAll_from.simps) (auto split: option.splits)
    qed
  qed
  then show ?thesis by (simp add: recvAll_def)
qed

lemma sendAll_obs: "obs (snd (sendAll os buf s)) = obs s"
proof -
  have "obs (snd (sendAll_from os buf j s)) = obs s" for j
  proof (induction "length buf - j" arbitrary: j s rule: less_induct)
    case less
    obtain n s1 where n: "os_send os (drop j buf) (to_int (length buf - j)) s = (n, s1)" by fastforce
    then have s1: "obs s1 = obs s" using send_obs by (metis snd_conv)
    show ?case
    proof (cases "j < length buf \<and> 0 < n")
      case True
      then have "length buf - (j + nat n) < length buf - j" by auto
      from less [OF this, of s1] s1 n True show ?thesis by (subst sendAll_from.simps) simp
    next
      case False
      then show ?thesis using n s1 by (subst sendAll_from.simps) auto
    qed
  qed
  then show ?thesis by (simp add: sendAll_def)
qed

lemma recvHttpHeaders_obs: "obs (snd (recvHttpHeaders os s)) = obs s"
proof -
  have "obs (snd (recvHttp_from os buf s)) = obs s" for buf
  proof (induction "8193 - length buf" arbitrary: buf s rule: less_induct)
    case less
    obtain r s1 where r: "os_recv os 1 s = (r, s1)" by fastforce
    then have s1: "obs s1 = obs s" using recv_obs by (metis snd_conv)
    have step: "length buf \<le> 8191 \<Longrightarrow> obs (snd (recvHttp_from os (buf @ [ch]) s1)) = obs s1" for ch
      by (rule less) simp
    show ?case using r s1 step
      by (subst recvHttp_from.simps) (auto simp: Let_def split: option.splits list.splits)
  qed
  then show ?thesis by (simp add: recvHttpHeaders_def)
qed

lemma randomBytes_obs: "obs (snd (randomBytes os n s)) = obs s"
proof (induction n arbitrary: s)
  case (Suc n)
  obtain b s1 where b: "os_rand os s = (b, s1)" by fastforce
  then have "obs s1 = obs s" using rand_obs by (metis snd_conv)
  with Suc [of s1] b show ?case by (auto split: prod.splits)
qed simp

end

section \<open>Descriptors\<close>

locale net_system =
  fixes net :: "'s net"
    and input :: "int \<Rightarrow> 's \<Rightarrow> bytes"
    and sent :: "int \<Rightarrow> 's \<Rightarrow> bytes"
    and opened :: "'s \<Rightarrow> int set"
  assumes io: "stream_socket (net_io net fd) (input fd) (sent fd)"
    and io_opened: "silent_calls (net_io net fd) opened"
    and socket_opened: "net_socket net s = (fd, s') \<Longrightarrow>
      (if fd = INVALID_SOCKET then opened s' = opened s else fd \<notin> opened s \<and> opened s' = insert fd (opened s))"
    and accept_opened: "net_accept net l s = (fd, s') \<Longrightarrow>
      (if fd = INVALID_SOCKET then opened s' = opened s else fd \<notin> opened s \<and> opened s' = insert fd (opened s))"
    and close_opened: "opened (net_close net fd s) = opened s - {fd}"
    and reuse_opened: "opened (net_reuse net fd s) = opened s"
    and bind_opened: "opened (snd (net_bind net fd p s)) = opened s"
    and listen_opened: "opened (snd (net_listen net fd n s)) = opened s"
    and addrinfo_opened: "opened (snd (net_addrinfo net h port s)) = opened s"
    and connect_opened: "opened (snd (net_connect net fd a s)) = opened s"
    and now_silent: "net_now net s = (t, s') \<Longrightarrow> opened s' = opened s \<and> input fd s' = input fd s \<and> sent fd s' = sent fd s"

sublocale net_system \<subseteq> conn: stream_socket "net_io net fd" "input fd" "sent fd" for fd
  by (rule io)

sublocale net_system \<subseteq> quiet: silent_calls "net_io net fd" opened for fd
  by (rule io_opened)

text \<open>While the connections are up, their calls succeed.\<close>

locale reliable_net = net_system +
  assumes io_live: "reliable_socket (net_io net fd) (input fd) (sent fd)"

sublocale reliable_net \<subseteq> live: reliable_socket "net_io net fd" "input fd" "sent fd" for fd
  by (rule io_live)

section \<open>An executable system\<close>

text \<open>
  Descriptors with a segmented connection each, the connections that will come in or be made, the
  environment's answer for every variable, and the readings of the clock.
\<close>

record seg_net =
  sn_conn :: "int \<Rightarrow> seg_sock"
  sn_open :: "int list"
  sn_pending :: "seg_sock list"
  sn_clock :: "i64 list"

definition sn_io :: "int \<Rightarrow> seg_net os" where
  "sn_io fd =
     \<lparr>os_recv = (\<lambda>k s. case os_recv seg_os k (sn_conn s fd) of (r, c) \<Rightarrow> (r, s\<lparr>sn_conn := (sn_conn s)(fd := c)\<rparr>)),
      os_send = (\<lambda>b k s. case os_send seg_os b k (sn_conn s fd) of (r, c) \<Rightarrow> (r, s\<lparr>sn_conn := (sn_conn s)(fd := c)\<rparr>)),
      os_rand = (\<lambda>s. case os_rand seg_os (sn_conn s fd) of (r, c) \<Rightarrow> (r, s\<lparr>sn_conn := (sn_conn s)(fd := c)\<rparr>))\<rparr>"

definition sn_fresh :: "seg_net \<Rightarrow> int" where
  "sn_fresh s = foldr max (sn_open s) 2 + 1"

definition sn_attach :: "int \<Rightarrow> seg_sock \<Rightarrow> seg_net \<Rightarrow> seg_net" where
  "sn_attach fd c s = s\<lparr>sn_conn := (sn_conn s)(fd := c), sn_pending := tl (sn_pending s)\<rparr>"

definition seg_system :: "(bytes \<Rightarrow> bytes option) \<Rightarrow> seg_net net" where
  "seg_system env =
     \<lparr>net_io = sn_io,
      net_socket = (\<lambda>s. (sn_fresh s, s\<lparr>sn_open := sn_fresh s # sn_open s\<rparr>)),
      net_reuse = (\<lambda>_ s. s),
      net_bind = (\<lambda>_ _ s. (0, s)),
      net_listen = (\<lambda>_ _ s. (0, s)),
      net_accept = (\<lambda>_ s. case sn_pending s of [] \<Rightarrow> (INVALID_SOCKET, s)
         | c # _ \<Rightarrow> (sn_fresh s, sn_attach (sn_fresh s) c (s\<lparr>sn_open := sn_fresh s # sn_open s\<rparr>))),
      net_pton = (\<lambda>h. if h = str ''127.0.0.1'' then Some 0x7F000001 else None),
      net_addrinfo = (\<lambda>h _ s. (if h = str ''localhost'' then Some (0x7F000001, 9898) else None, s)),
      net_connect = (\<lambda>fd _ s. case sn_pending s of [] \<Rightarrow> (SOCKET_ERROR, s) | c # _ \<Rightarrow> (0, sn_attach fd c s)),
      net_close = (\<lambda>fd s. s\<lparr>sn_open := removeAll fd (sn_open s)\<rparr>),
      net_getenv = env,
      net_now = (\<lambda>s. case sn_clock s of [] \<Rightarrow> (0, s) | t # ts \<Rightarrow> (t, s\<lparr>sn_clock := ts\<rparr>))\<rparr>"

lemma sn_fresh_new: "sn_fresh s \<notin> set (sn_open s)" "sn_fresh s \<noteq> INVALID_SOCKET"
proof -
  have m: "\<forall>x \<in> set xs. x \<le> foldr max xs (2 :: int)" "2 \<le> foldr max xs (2 :: int)" for xs by (induction xs) auto
  show "sn_fresh s \<notin> set (sn_open s)" using m(1) [of "sn_open s"] by (force simp: sn_fresh_def)
  show "sn_fresh s \<noteq> INVALID_SOCKET" using m(2) [of "sn_open s"] by (simp add: sn_fresh_def INVALID_SOCKET_def)
qed

lemma sn_io_reliable: "reliable_socket (sn_io fd) (\<lambda>s. concat (seg_in (sn_conn s fd))) (\<lambda>s. seg_out (sn_conn s fd))"
proof unfold_locales
  fix k :: int and s s' :: seg_net and bs
  assume k: "0 < k"
  show "int (length bs) \<le> k \<and> concat (seg_in (sn_conn s fd)) = bs @ concat (seg_in (sn_conn s' fd))
      \<and> seg_out (sn_conn s' fd) = seg_out (sn_conn s fd)"
    if "os_recv (sn_io fd) k s = (Some bs, s')"
    using that seg.recv_data [OF k] by (auto simp: sn_io_def split: prod.splits)
  show "concat (seg_in (sn_conn s fd)) = []" if "os_recv (sn_io fd) k s = (Some [], s')"
    using that seg.recv_end [OF k] by (auto simp: sn_io_def split: prod.splits)
  show "fst (os_recv (sn_io fd) k s) \<noteq> None" if "concat (seg_in (sn_conn s fd)) \<noteq> []"
    using seg.recv_live [OF k that] by (auto simp: sn_io_def split: prod.splits)
next
  fix k :: int and s s' :: seg_net
  show "seg_out (sn_conn s' fd) = seg_out (sn_conn s fd)" if "os_recv (sn_io fd) k s = (None, s')"
    using that seg.recv_fail by (auto simp: sn_io_def split: prod.splits)
next
  fix k n :: int and s s' :: seg_net and buf :: bytes
  assume k: "0 < k" "k \<le> int (length buf)"
  show "concat (seg_in (sn_conn s' fd)) = concat (seg_in (sn_conn s fd)) \<and> n \<le> k
      \<and> seg_out (sn_conn s' fd) = seg_out (sn_conn s fd) @ take (nat n) buf"
    if "os_send (sn_io fd) buf k s = (n, s')"
    using that seg.send_data [OF k] by (auto simp: sn_io_def split: prod.splits)
  show "0 < fst (os_send (sn_io fd) buf k s)"
    using seg.send_live [OF k, of "sn_conn s fd"] by (auto simp: sn_io_def split: prod.splits)
next
  fix s s' :: seg_net and b
  show "concat (seg_in (sn_conn s' fd)) = concat (seg_in (sn_conn s fd)) \<and> seg_out (sn_conn s' fd) = seg_out (sn_conn s fd)"
    if "os_rand (sn_io fd) s = (b, s')"
    using that seg.rand_data by (auto simp: sn_io_def split: prod.splits)
qed

interpretation sn: reliable_net "seg_system env" "\<lambda>fd s. concat (seg_in (sn_conn s fd))" "\<lambda>fd s. seg_out (sn_conn s fd)"
  "\<lambda>s. set (sn_open s)"
  for env
proof (intro reliable_net.intro net_system.intro reliable_net_axioms.intro)
  show "stream_socket (net_io (seg_system env) fd) (\<lambda>s. concat (seg_in (sn_conn s fd))) (\<lambda>s. seg_out (sn_conn s fd))" for fd
    using sn_io_reliable by (simp add: seg_system_def reliable_socket.axioms)
  show "reliable_socket (net_io (seg_system env) fd) (\<lambda>s. concat (seg_in (sn_conn s fd))) (\<lambda>s. seg_out (sn_conn s fd))" for fd
    using sn_io_reliable by (simp add: seg_system_def)
  show "silent_calls (net_io (seg_system env) fd) (\<lambda>s. set (sn_open s))" for fd
    by unfold_locales (auto simp: seg_system_def sn_io_def split: prod.splits)
qed (auto simp: seg_system_def sn_fresh_new sn_attach_def split: list.splits)

end
