(* ===== verification/Http_Header.thy ===== *)
theory Http_Header
  imports HWS_Prelude "HOL-Library.Sublist"
begin

text \<open>
  \<open>extractHeader\<close> of \<open>common/ws.hpp\<close>: a search for the lower-cased key in the lower-cased text. It
  is specified on parsed header lines: the value of the first field whose name equals the key up to
  case, without the blanks before it.
\<close>

section \<open>The code\<close>

definition CRLF :: bytes where
  "CRLF = [13, 10]"

text \<open>\<open>tolower\<close> in the \<open>"C"\<close> locale, which the program never leaves. Bytes from 128 on, which the
  code passes as negative values outside the domain of the C function, are taken to stay as they are.\<close>

definition tolower :: "u8 \<Rightarrow> u8" where
  "tolower c = (if 65 \<le> c \<and> c \<le> 90 then c + 32 else c)"

text \<open>\<open>std::string::find\<close>; \<open>None\<close> is \<open>npos\<close>.\<close>

fun find_str :: "bytes \<Rightarrow> bytes \<Rightarrow> nat option" where
  "find_str pat [] = (if pat = [] then Some 0 else None)"
| "find_str pat (c # text) =
     (if prefix pat (c # text) then Some 0 else map_option Suc (find_str pat text))"

definition find_at :: "bytes \<Rightarrow> bytes \<Rightarrow> nat \<Rightarrow> nat option" where
  "find_at pat text pos = map_option (\<lambda>i. pos + i) (find_str pat (drop pos text))"

definition blank :: "u8 \<Rightarrow> bool" where
  "blank c \<longleftrightarrow> c = 32 \<or> c = 9"

text \<open>\<open>while (pos < lowerText.size() && ...) pos++\<close>\<close>

function skip_blanks :: "bytes \<Rightarrow> nat \<Rightarrow> nat" where
  "skip_blanks text pos =
     (if pos < length text \<and> blank (text ! pos) then skip_blanks text (pos + 1) else pos)"
  by pat_completeness auto
termination
  by (relation "measure (\<lambda>(text, pos). length text - pos)") auto

declare skip_blanks.simps [simp del]

definition extractHeader :: "bytes \<Rightarrow> bytes \<Rightarrow> bytes" where
  "extractHeader httpText key =
     (let search = CRLF @ key @ [58];
          lowerKey = map tolower search;
          lowerText = map tolower httpText
      in case find_at lowerKey lowerText 0 of
           None \<Rightarrow> []
         | Some pos \<Rightarrow>
             let pos = skip_blanks lowerText (pos + length lowerKey);
                 end = (case find_at CRLF lowerText pos of None \<Rightarrow> length lowerText | Some e \<Rightarrow> e)
             in take (end - pos) (drop pos httpText))"

section \<open>Header fields\<close>

type_synonym header = "bytes \<times> bytes"

definition header_line :: "header \<Rightarrow> bytes" where
  "header_line h = fst h @ [58] @ snd h"

text \<open>A start line and header fields, ended by an empty line.\<close>

definition http_text :: "bytes \<Rightarrow> header list \<Rightarrow> bytes" where
  "http_text start hs = start @ concat (map (\<lambda>h. CRLF @ header_line h) hs) @ CRLF @ CRLF"

definition header_ok :: "header \<Rightarrow> bool" where
  "header_ok h \<longleftrightarrow> 13 \<notin> set (fst h) \<and> 58 \<notin> set (fst h) \<and> 13 \<notin> set (snd h)"

fun header_value :: "bytes \<Rightarrow> header list \<Rightarrow> bytes" where
  "header_value key [] = []"
| "header_value key (h # hs) =
     (if map tolower (fst h) = map tolower key then dropWhile blank (snd h) else header_value key hs)"

section \<open>Searching\<close>

lemma find_str_skip:
  assumes "pat \<noteq> []" and "hd pat \<notin> set xs"
  shows "find_str pat (xs @ ys) = map_option (\<lambda>i. length xs + i) (find_str pat ys)"
  using assms
proof (induction xs)
  case Nil
  then show ?case by (simp add: option.map_ident)
next
  case (Cons x xs)
  then have "\<not> prefix pat (x # xs @ ys)" by (cases pat) auto
  with Cons show ?case by (simp add: option.map_comp comp_def)
qed

lemma find_str_prefix: "find_str pat (pat @ ys) = Some 0"
  by (cases pat; cases ys) simp_all

lemma skip_blanks_app: "skip_blanks (xs @ ys) (length xs) = length xs + length (takeWhile blank ys)"
proof (induction ys arbitrary: xs)
  case (Cons y ys)
  from Cons.IH [of "xs @ [y]"] show ?case
    by (subst skip_blanks.simps) (simp add: nth_append)
qed (simp add: skip_blanks.simps)

lemma tolower_simps [simp]:
  "tolower 13 = 13" "tolower 10 = 10" "tolower 58 = 58"
  by (simp_all add: tolower_def)

lemma tolower_eq_plain:
  assumes "c < 65"
  shows "tolower b = c \<longleftrightarrow> b = c"
proof -
  have "b + 32 \<noteq> c" if "65 \<le> b" "b \<le> 90"
  proof
    assume "b + 32 = c"
    then have "unat c = unat b + 32" using that by (auto simp: unat_word_ariths word_le_nat_alt)
    with that assms show False by (simp add: word_le_nat_alt word_less_nat_alt)
  qed
  moreover have "\<not> 65 \<le> c" using assms by simp
  ultimately show ?thesis by (auto simp: tolower_def)
qed

lemma blank_tolower [simp]: "blank (tolower c) = blank c"
  by (simp add: blank_def tolower_eq_plain)

lemma in_tolower [simp]: "c < 65 \<Longrightarrow> c \<in> tolower ` A \<longleftrightarrow> c \<in> A"
  by (simp add: image_iff tolower_eq_plain eq_commute [of c])

lemma takeWhile_blank_map: "length (takeWhile blank (map tolower xs)) = length (takeWhile blank xs)"
  by (induction xs) simp_all

lemma dropWhile_append_stop: "\<not> P y \<Longrightarrow> length (takeWhile P (xs @ y # ys)) = length (takeWhile P xs)"
  by (induction xs) simp_all

text \<open>A key matches at a field exactly if it is the field's name.\<close>

lemma prefix_name:
  assumes "58 \<notin> set k" and "58 \<notin> set n"
  shows "prefix (k @ [58]) (n @ [58] @ v) \<longleftrightarrow> k = (n :: bytes)"
  using assms
proof (induction k arbitrary: n)
  case Nil
  then show ?case by (cases n) auto
next
  case (Cons a k)
  then show ?case by (cases n) auto
qed

text \<open>The value of the field found at the end of \<open>pre\<close>.\<close>

lemma extractHeader_found:
  assumes "find_at (map tolower (CRLF @ key @ [58])) (map tolower text) 0 = Some (length pre)"
    and txt0: "text = pre @ CRLF @ n @ [58] @ v @ CRLF @ post" and "length key = length n" and v: "13 \<notin> set v"
  shows "extractHeader text key = dropWhile blank v"
proof -
  let ?L = "map tolower" and ?front = "pre @ CRLF @ n @ [58]"
  define k where "k = length (takeWhile blank v)"
  have "k \<le> length v" by (simp add: k_def length_takeWhile_le)
  have tail: "?L (v @ CRLF @ post) = ?L v @ 13 # 10 # ?L post" by (simp add: CRLF_def)
  have text': "?L text = ?L ?front @ ?L v @ 13 # 10 # ?L post" unfolding txt0 by (simp add: CRLF_def)
  have pos: "skip_blanks (?L text) (length pre + length (?L (CRLF @ key @ [58]))) = length ?front + k"
    using skip_blanks_app [of "?L ?front" "?L v @ 13 # 10 # ?L post"] assms(3)
    by (simp add: text' k_def dropWhile_append_stop blank_def takeWhile_blank_map CRLF_def del: map_append)
  have "drop (length ?front + k) (?L text) = ?L (drop k v) @ CRLF @ ?L post"
    using drop_append [of "length ?front + k" "?L ?front"] \<open>k \<le> length v\<close>
    by (simp add: text' drop_map CRLF_def del: map_append append_assoc)
  moreover have "hd CRLF \<notin> set (?L (drop k v))" using v by (auto simp: CRLF_def tolower_eq_plain dest: in_set_dropD)
  ultimately have "find_at CRLF (?L text) (length ?front + k) = Some (length ?front + length v)"
    using \<open>k \<le> length v\<close> by (simp add: find_at_def find_str_skip find_str_prefix CRLF_def del: map_append)
  moreover have "take (length v - k) (drop (length ?front + k) text) = dropWhile blank v"
    using \<open>k \<le> length v\<close> by (simp add: txt0 dropWhile_eq_drop k_def)
  ultimately show ?thesis
    unfolding extractHeader_def Let_def assms(1) option.case pos by simp
qed

section \<open>The value of a field\<close>

lemma find_key:
  assumes "\<forall>h \<in> set hs. header_ok h" and "13 \<notin> set key" "58 \<notin> set key"
  defines "P \<equiv> \<lambda>h. map tolower (fst h) \<noteq> map tolower key"
  shows "find_str (map tolower (CRLF @ key @ [58])) (map tolower (concat (map (\<lambda>h. CRLF @ header_line h) hs) @ CRLF @ CRLF)) =
    (if list_all P hs then None
     else Some (length (concat (map (\<lambda>h. CRLF @ header_line h) (takeWhile P hs)))))"
  using assms(1)
proof (induction hs)
  case Nil
  then show ?case using assms(2) by (cases key) (auto simp: CRLF_def tolower_eq_plain)
next
  case (Cons h hs)
  let ?pat = "map tolower (CRLF @ key @ [58])" and ?n = "map tolower (fst h)" and ?v = "map tolower (snd h)"
  let ?rest = "map tolower (concat (map (\<lambda>h. CRLF @ header_line h) hs) @ CRLF @ CRLF)"
  from Cons.prems have h: "13 \<notin> set ?n" "58 \<notin> set ?n" "13 \<notin> set ?v" by (simp_all add: header_ok_def)
  have txt0: "map tolower (concat (map (\<lambda>h. CRLF @ header_line h) (h # hs)) @ CRLF @ CRLF)
      = 13 # (10 # ?n @ [58] @ ?v) @ ?rest"
    by (simp add: header_line_def CRLF_def)
  have pat: "?pat = 13 # 10 # map tolower key @ [58]" by (simp add: CRLF_def)
  have "58 \<notin> set (map tolower key)" using assms(3) by simp
  from prefix_name [OF this h(2), of "?v @ ?rest"]
  have here: "prefix ?pat (13 # (10 # ?n @ [58] @ ?v) @ ?rest) \<longleftrightarrow> \<not> P h" unfolding pat P_def by auto
  have "13 \<notin> set (10 # ?n @ [58] @ ?v)" using h by simp
  then have "find_str ?pat ((10 # ?n @ [58] @ ?v) @ ?rest)
      = map_option (\<lambda>i. length (10 # ?n @ [58] @ ?v) + i) (find_str ?pat ?rest)"
    unfolding pat by (intro find_str_skip) simp_all
  with Cons here show ?case
    unfolding txt0 by (simp add: header_line_def CRLF_def del: map_append append.simps)
qed

lemma header_value_dropWhile:
  "header_value key hs =
     (case dropWhile (\<lambda>h. map tolower (fst h) \<noteq> map tolower key) hs of [] \<Rightarrow> [] | h # _ \<Rightarrow> dropWhile blank (snd h))"
  by (induction hs) simp_all

lemma extractHeader_value:
  assumes "13 \<notin> set start" and "\<forall>h \<in> set hs. header_ok h" and "13 \<notin> set key" "58 \<notin> set key"
  shows "extractHeader (http_text start hs) key = header_value key hs"
proof -
  let ?P = "\<lambda>h. map tolower (fst h) \<noteq> map tolower key" and ?lines = "\<lambda>hs. concat (map (\<lambda>h. CRLF @ header_line h) hs)"
  let ?pat = "map tolower (CRLF @ key @ [58])"
  have "find_at ?pat (map tolower (http_text start hs)) 0
      = map_option (\<lambda>i. length start + i) (find_str ?pat (map tolower (?lines hs @ CRLF @ CRLF)))"
    using find_str_skip [of ?pat "map tolower start" "map tolower (?lines hs @ CRLF @ CRLF)"] assms(1)
    by (simp add: find_at_def http_text_def CRLF_def tolower_eq_plain image_iff option.map_ident)
  with find_key [OF assms(2-4)]
  have found: "find_at ?pat (map tolower (http_text start hs)) 0 =
      (if list_all ?P hs then None else Some (length (start @ ?lines (takeWhile ?P hs))))" by simp
  show ?thesis
  proof (cases "dropWhile ?P hs")
    case Nil
    then have "list_all ?P hs" by (simp add: list_all_iff)
    with found Nil show ?thesis by (simp only: extractHeader_def header_value_dropWhile Let_def) simp
  next
    case (Cons h hs2)
    then have hs: "hs = takeWhile ?P hs @ h # hs2" by (metis takeWhile_dropWhile_id)
    have "\<not> ?P h" using Cons by (metis (full_types, lifting) hd_dropWhile list.distinct(1) list.sel(1))
    then have name: "map tolower (fst h) = map tolower key" by simp
    have "h \<in> set hs" using hs by (metis in_set_conv_decomp)
    then have v: "13 \<notin> set (snd h)" "\<not> list_all ?P hs" using assms(2) name by (auto simp: header_ok_def list_all_iff)
    obtain post where post: "?lines hs2 @ CRLF @ CRLF = CRLF @ post" by (cases hs2) (auto simp: CRLF_def)
    have "http_text start hs = (start @ ?lines (takeWhile ?P hs)) @ CRLF @ fst h @ [58] @ snd h @ CRLF @ post"
      unfolding post [symmetric] http_text_def by (subst hs) (simp add: header_line_def)
    from extractHeader_found [OF _ this _ v(1)] found v(2) map_eq_imp_length_eq [OF name] Cons
    show ?thesis by (simp add: header_value_dropWhile)
  qed
qed

end
