(* ===== verification/Sha1.thy ===== *)
theory Sha1
  imports Hash_Blocks
begin

text \<open>
  \<open>detail::SHA1\<close> of \<open>common/ws.hpp\<close>, the incremental hash behind the handshake key: a 64-byte
  buffer that \<open>update\<close> fills and \<open>transform\<close> consumes, and \<open>final\<close> that pads in place. The
  state after any sequence of updates is described by the message hashed so far, and the digest
  is proved to be that of FIPS 180-4 whatever the buffer held initially (the code does not
  initialise it). The accesses to the buffer are checked; the arrays \<open>w\<close> and \<open>h\<close>, which have fixed lengths, are
  read at the indices of the loops.
\<close>

section \<open>The code\<close>

record SHA1 =
  sha_h :: "u32 list"
  sha_bitlen :: u64
  sha_data :: bytes
  sha_datalen :: nat

definition sha1_init :: "u32 list" where
  "sha1_init = [0x67452301, 0xEFCDAB89, 0x98BADCFE, 0x10325476, 0xC3D2E1F0]"

text \<open>A new object; the contents of \<open>data\<close> are arbitrary.\<close>

definition newSHA1 :: "bytes \<Rightarrow> SHA1" where
  "newSHA1 junk = \<lparr>sha_h = sha1_init, sha_bitlen = 0, sha_data = junk, sha_datalen = 0\<rparr>"

definition sha1_extend :: "u32 list \<Rightarrow> nat \<Rightarrow> u32" where
  "sha1_extend w i = rotl (w ! (i - 3) XOR w ! (i - 8) XOR w ! (i - 14) XOR w ! (i - 16)) 1"

type_synonym sha1_vars = "u32 \<times> u32 \<times> u32 \<times> u32 \<times> u32"

fun sha1_round :: "nat \<Rightarrow> u32 \<Rightarrow> sha1_vars \<Rightarrow> sha1_vars" where
  "sha1_round i w (a, b, c, d, e) =
     (let (f, k) =
            (if i < 20 then ((b AND c) OR (NOT b AND d), 0x5A827999)
             else if i < 40 then (b XOR c XOR d, 0x6ED9EBA1)
             else if i < 60 then ((b AND c) OR (b AND d) OR (c AND d), 0x8F1BBCDC)
             else (b XOR c XOR d, 0xCA62C1D6));
          temp = rotl a 5 + f + e + k + w
      in (temp, a, rotl b 30, c, d))"

definition transform :: "SHA1 \<Rightarrow> SHA1 res" where
  "transform s =
     bind_res (map_res (load_word (sha_data s) 0) [0..<16]) (\<lambda>w16.
       let w = fold (\<lambda>i w. w[i := sha1_extend w i]) [16..<80] (w16 @ replicate 64 0);
           h = sha_h s;
           (a, b, c, d, e) =
             fold (\<lambda>i. sha1_round i (w ! i)) [0..<80] (h ! 0, h ! 1, h ! 2, h ! 3, h ! 4)
       in Inr (s\<lparr>sha_h := [h ! 0 + a, h ! 1 + b, h ! 2 + c, h ! 3 + d, h ! 4 + e]\<rparr>))"

text \<open>The body of the loop of \<open>update\<close>.\<close>

definition updateByte :: "u8 \<Rightarrow> SHA1 \<Rightarrow> SHA1 res" where
  "updateByte b s =
     bind_res (wr_at (sha_data s) (sha_datalen s) b) (\<lambda>d.
       let s = s\<lparr>sha_data := d, sha_datalen := sha_datalen s + 1\<rparr>
       in if sha_datalen s = 64
          then bind_res (transform s) (\<lambda>s.
                 Inr (s\<lparr>sha_bitlen := sha_bitlen s + 512, sha_datalen := 0\<rparr>))
          else Inr s)"

definition update :: "bytes \<Rightarrow> nat \<Rightarrow> SHA1 \<Rightarrow> SHA1 res" where
  "update msg len = fold_res (\<lambda>i s. bind_res (rd_at msg i) (\<lambda>b. updateByte b s)) [0..<len]"

text \<open>\<open>while (datalen < lim) data[datalen++] = 0\<close>\<close>

function zero_fill :: "nat \<Rightarrow> SHA1 \<Rightarrow> SHA1 res" where
  "zero_fill lim s =
     (if sha_datalen s < lim
      then bind_res (wr_at (sha_data s) (sha_datalen s) 0) (\<lambda>d.
             zero_fill lim (s\<lparr>sha_data := d, sha_datalen := sha_datalen s + 1\<rparr>))
      else Inr s)"
  by pat_completeness auto
termination
  by (relation "measure (\<lambda>(lim, s). lim - sha_datalen s)") auto

declare zero_fill.simps [simp del]

definition final :: "SHA1 \<Rightarrow> (bytes \<times> SHA1) res" where
  "final s =
     (let totalBits = sha_bitlen s + of_nat (sha_datalen s) * 8
      in bind_res (wr_at (sha_data s) (sha_datalen s) 0x80) (\<lambda>d.
         let s = s\<lparr>sha_data := d, sha_datalen := sha_datalen s + 1\<rparr>
         in bind_res
              (if sha_datalen s > 56
               then bind_res (zero_fill 64 s) (\<lambda>s.
                      bind_res (transform s) (\<lambda>s. Inr (s\<lparr>sha_datalen := 0\<rparr>)))
               else Inr s) (\<lambda>s.
            bind_res (zero_fill 56 s) (\<lambda>s.
            bind_res (fold_res (\<lambda>i d. wr_at d (56 + i) (ucast (drop_bit ((7 - i) * 8) totalBits AND 0xFF)))
                        [0..<8] (sha_data s)) (\<lambda>d.
            bind_res (transform (s\<lparr>sha_data := d\<rparr>)) (\<lambda>s.
              Inr (concat (map be32 (sha_h s)), s)))))))"

section \<open>FIPS 180-4\<close>

definition Parity :: "u32 \<Rightarrow> u32 \<Rightarrow> u32 \<Rightarrow> u32" where
  "Parity x y z = x XOR y XOR z"

definition sha1_f :: "nat \<Rightarrow> u32 \<Rightarrow> u32 \<Rightarrow> u32 \<Rightarrow> u32" where
  "sha1_f t = (if t < 20 then Ch else if t < 40 then Parity else if t < 60 then Maj else Parity)"

definition sha1_K :: "nat \<Rightarrow> u32" where
  "sha1_K t = (if t < 20 then 0x5A827999 else if t < 40 then 0x6ED9EBA1
               else if t < 60 then 0x8F1BBCDC else 0xCA62C1D6)"

fun sha1_W :: "bytes \<Rightarrow> nat \<Rightarrow> u32" where
  "sha1_W blk t =
     (if t < 16 then block_word blk t
      else word_rotl 1 (sha1_W blk (t - 3) XOR sha1_W blk (t - 8) XOR sha1_W blk (t - 14)
                          XOR sha1_W blk (t - 16)))"

declare sha1_W.simps [simp del]

fun sha1_step :: "bytes \<Rightarrow> nat \<Rightarrow> sha1_vars \<Rightarrow> sha1_vars" where
  "sha1_step blk t (a, b, c, d, e) =
     (word_rotl 5 a + sha1_f t b c d + e + sha1_K t + sha1_W blk t, a, word_rotl 30 b, c, d)"

definition sha1_compress :: "bytes \<Rightarrow> u32 list \<Rightarrow> u32 list" where
  "sha1_compress blk H =
     (case fold (sha1_step blk) [0..<80] (H ! 0, H ! 1, H ! 2, H ! 3, H ! 4) of
        (a, b, c, d, e) \<Rightarrow> [H ! 0 + a, H ! 1 + b, H ! 2 + c, H ! 3 + d, H ! 4 + e])"

definition SHA_1 :: "bytes \<Rightarrow> bytes" where
  "SHA_1 = md_digest sha1_compress sha1_init"

section \<open>The compression function\<close>

lemma Ch_or: "(x AND y) OR (NOT x AND z) = Ch x y z"
  unfolding Ch_def by (rule bit_word_eqI) (auto simp: bit_simps)

lemma Maj_or: "(x AND y) OR (x AND z) OR (y AND z) = Maj x y z"
  unfolding Maj_def by (rule bit_word_eqI) (auto simp: bit_simps)

lemma sha1_schedule:
  "\<forall>j < 80. fold (\<lambda>i w. w[i := sha1_extend w i]) [16..<80]
     (map (block_word blk) [0..<16] @ replicate 64 0) ! j = sha1_W blk j"
proof (rule array_fill)
  fix i and w :: "u32 list"
  assume i: "16 \<le> i" and w: "\<forall>j < i. w ! j = sha1_W blk j"
  from i have "w ! (i - 3) = sha1_W blk (i - 3)" "w ! (i - 8) = sha1_W blk (i - 8)"
    "w ! (i - 14) = sha1_W blk (i - 14)" "w ! (i - 16) = sha1_W blk (i - 16)"
    by (simp_all add: w)
  then show "sha1_extend w i = sha1_W blk i"
    using i by (subst sha1_W.simps) (simp add: sha1_extend_def rotl_word_rotl)
qed (simp_all add: nth_append sha1_W.simps)

lemma sha1_round_step: "sha1_round t (sha1_W blk t) v = sha1_step blk t v"
  by (cases v) (simp add: Let_def rotl_word_rotl sha1_f_def sha1_K_def Ch_or Maj_or Parity_def)

lemma transform_compress:
  assumes "length (sha_data s) = 64"
  shows "transform s = Inr (s\<lparr>sha_h := sha1_compress (sha_data s) (sha_h s)\<rparr>)"
proof -
  let ?blk = "sha_data s" and ?h = "sha_h s"
  define w where
    "w = fold (\<lambda>i w. w[i := sha1_extend w i]) [16..<80] (map (block_word ?blk) [0..<16] @ replicate 64 0)"
  have w: "\<forall>j < 80. w ! j = sha1_W ?blk j" unfolding w_def by (rule sha1_schedule)
  have rounds: "fold (\<lambda>i. sha1_round i (w ! i)) [0..<80] v = fold (sha1_step ?blk) [0..<80] v" for v
  proof (rule fold_cong [OF refl refl])
    fix i :: nat
    assume "i \<in> set [0..<80]"
    then have "i < 80" by (simp only: set_upt atLeastLessThan_iff)
    with w show "sha1_round i (w ! i) = sha1_step ?blk i" by (simp add: sha1_round_step fun_eq_iff)
  qed
  have load: "map_res (load_word ?blk 0) [0..<16] = Inr (map (block_word ?blk) [0..<16])"
    using load_words [of 0 ?blk] assms by (simp del: upt_rec_numeral)
  show ?thesis
    unfolding transform_def load sha1_compress_def bind_res_simps Let_def w_def [symmetric] rounds
    by (cases "fold (sha1_step ?blk) [0..<80] (?h ! 0, ?h ! 1, ?h ! 2, ?h ! 3, ?h ! 4)")
      (simp only: prod.case)
qed

section \<open>The state after a sequence of updates\<close>

definition hashed :: "bytes \<Rightarrow> SHA1 \<Rightarrow> bool" where
  "hashed m s \<longleftrightarrow>
     length (sha_data s) = 64 \<and> sha_datalen s = length m mod 64
     \<and> take (length m mod 64) (sha_data s) = partial_block m
     \<and> sha_bitlen s = of_nat (512 * (length m div 64))
     \<and> sha_h s = fold sha1_compress (blocks m) sha1_init"

lemma hashed_new: "length junk = 64 \<Longrightarrow> hashed [] (newSHA1 junk)"
  by (simp add: hashed_def newSHA1_def partial_block_def)

lemma partial_block_snoc:
  "blocks (m @ [b]) =
     (if length m mod 64 = 63 then blocks m @ [partial_block m @ [b]] else blocks m)"
  "partial_block (m @ [b]) = (if length m mod 64 = 63 then [] else partial_block m @ [b])"
proof -
  have len: "length (partial_block m @ [b]) = Suc (length m mod 64)" by simp
  have lt: "length m mod 64 \<noteq> 63 \<Longrightarrow> Suc (length m mod 64) < 64"
    using mod_less_divisor [of 64 "length m"] by linarith
  have "blocks (partial_block m @ [b]) = (if length m mod 64 = 63 then [partial_block m @ [b]] else [])"
    using blocks_block [of "partial_block m @ [b]" "[]"] len lt by auto
  then show "blocks (m @ [b]) =
     (if length m mod 64 = 63 then blocks m @ [partial_block m @ [b]] else blocks m)"
    unfolding blocks_append(1) [of m "[b]"] by simp
  show "partial_block (m @ [b]) = (if length m mod 64 = 63 then [] else partial_block m @ [b])"
    unfolding blocks_append(2) [of m "[b]"] using len lt
    by (cases "length m mod 64 = 63") (auto simp: partial_block_def [of "partial_block m @ [b]"])
qed

lemma updateByte_hashed:
  assumes "hashed m s"
  shows "\<exists>s'. updateByte b s = Inr s' \<and> hashed (m @ [b]) s'"
proof -
  let ?n = "length m mod 64"
  let ?d = "(sha_data s)[?n := b]"
  note inv = assms [unfolded hashed_def]
  have n: "?n < 64" by simp
  have take: "take (Suc ?n) ?d = partial_block m @ [b]"
    using inv n by (simp add: take_Suc_conv_app_nth)
  show ?thesis
  proof (cases "?n = 63")
    case True
    then have d: "(sha_data s)[63 := b] = partial_block m @ [b]" using take inv by simp
    have "Suc (length m) div 64 = Suc (length m div 64)" "Suc (length m) mod 64 = 0"
      using True by (simp_all add: div_Suc mod_Suc)
    moreover have "updateByte b s = Inr (s\<lparr>sha_data := partial_block m @ [b],
        sha_h := sha1_compress (partial_block m @ [b]) (sha_h s),
        sha_bitlen := sha_bitlen s + 512, sha_datalen := 0\<rparr>)"
      using inv True by (simp add: updateByte_def Let_def d transform_compress)
    ultimately show ?thesis using inv True
      by (simp add: hashed_def partial_block_snoc)
  next
    case False
    then have "Suc (length m) div 64 = length m div 64" "Suc (length m) mod 64 = Suc ?n"
      using n by (simp_all add: div_Suc mod_Suc)
    moreover have "updateByte b s = Inr (s\<lparr>sha_data := ?d, sha_datalen := Suc ?n\<rparr>)"
      using inv False n by (simp add: updateByte_def Let_def)
    ultimately show ?thesis using inv False take by (simp add: hashed_def partial_block_snoc)
  qed
qed

lemma update_hashed:
  assumes "hashed m s"
  shows "\<exists>s'. update msg (length msg) s = Inr s' \<and> hashed (m @ msg) s'"
proof -
  have "\<exists>s'. update msg n s = Inr s' \<and> hashed (m @ take n msg) s'" if "n \<le> length msg" for n
    using that
  proof (induction n)
    case (Suc n)
    then obtain s' where s': "update msg n s = Inr s'" "hashed (m @ take n msg) s'" by auto
    obtain s'' where "updateByte (msg ! n) s' = Inr s''" "hashed ((m @ take n msg) @ [msg ! n]) s''"
      using updateByte_hashed [OF s'(2), of "msg ! n"] by blast
    with s' Suc.prems show ?case
      by (simp add: update_def fold_res_append take_Suc_conv_app_nth Suc_le_eq)
  qed (simp add: update_def assms)
  from this [of "length msg"] show ?thesis by simp
qed

section \<open>Padding in place\<close>

lemma zero_fill_replicate:
  "sha_datalen s \<le> lim \<Longrightarrow> lim \<le> length (sha_data s) \<Longrightarrow>
     zero_fill lim s = Inr (s\<lparr>sha_data := take (sha_datalen s) (sha_data s)
        @ replicate (lim - sha_datalen s) 0 @ drop lim (sha_data s), sha_datalen := lim\<rparr>)"
proof (induction lim s rule: zero_fill.induct)
  case (1 lim s)
  show ?case
  proof (cases "sha_datalen s < lim")
    case True
    let ?d = "sha_data s" and ?n = "sha_datalen s"
    have "take (Suc ?n) (?d[?n := 0]) = take ?n ?d @ [0]"
      using True 1(3) by (simp add: take_Suc_conv_app_nth)
    moreover have "replicate (lim - ?n) 0 = 0 # replicate (lim - Suc ?n) (0 :: u8)"
      using True by (simp flip: replicate_Suc add: Suc_diff_Suc)
    ultimately show ?thesis
      using 1 True by (subst zero_fill.simps) simp
  next
    case False
    then show ?thesis using 1(2) by (subst zero_fill.simps) simp
  qed
qed

lemma be64_masked: "map (\<lambda>i. ucast (drop_bit ((7 - i) * 8) v AND 0xFF)) [0..<8] = be64 v" for v :: u64
  by (simp flip: be64_masked_shifts add: upt_conv_Cons)

lemma final_block:
  assumes "length (sha_data s) = 64" and "sha_datalen s \<le> 56"
  shows "bind_res (zero_fill 56 s) (\<lambda>s.
      bind_res (fold_res (\<lambda>i d. wr_at d (56 + i) (ucast (drop_bit ((7 - i) * 8) bits AND 0xFF)))
                  [0..<8] (sha_data s)) (\<lambda>d.
      bind_res (transform (s\<lparr>sha_data := d\<rparr>)) (\<lambda>s. Inr (concat (map be32 (sha_h s)), s))))
    = (let d = take (sha_datalen s) (sha_data s) @ replicate (56 - sha_datalen s) 0 @ be64 bits;
           s' = s\<lparr>sha_data := d, sha_datalen := 56, sha_h := sha1_compress d (sha_h s)\<rparr>
       in Inr (concat (map be32 (sha_h s')), s'))"
proof -
  let ?p = "take (sha_datalen s) (sha_data s) @ replicate (56 - sha_datalen s) 0"
  have p: "length ?p = 56" using assms by simp
  then have "fold_res (\<lambda>i d. wr_at d (56 + i) (ucast (drop_bit ((7 - i) * 8) bits AND 0xFF)))
      [0..<8] (?p @ drop 56 (sha_data s)) = Inr (?p @ be64 bits)"
    using assms fold_wr_at [of 56 8 "?p @ drop 56 (sha_data s)"]
    by (simp add: be64_masked del: upt_rec_numeral)
  with assms p show ?thesis
    by (simp add: zero_fill_replicate transform_compress Let_def del: upt_rec_numeral)
qed

text \<open>The last one or two blocks of the padded message.\<close>

lemma blocks_md_pad:
  "length m mod 64 < 56 \<Longrightarrow> blocks (md_pad m) = blocks m @
     [partial_block m @ [0x80] @ replicate (55 - length m mod 64) 0 @ be64 (of_nat (8 * length m))]"
  "56 \<le> length m mod 64 \<Longrightarrow> blocks (md_pad m) = blocks m @
     [partial_block m @ [0x80] @ replicate (63 - length m mod 64) 0,
      replicate 56 0 @ be64 (of_nat (8 * length m))]"
proof -
  let ?n = "length m mod 64" and ?len = "be64 (of_nat (8 * length m))"
  have pad: "blocks (md_pad m) =
      blocks m @ blocks (partial_block m @ [0x80] @ replicate ((119 - ?n) mod 64) 0 @ ?len)"
    unfolding md_pad_def by (rule blocks_append)
  have n: "?n < 64" by simp
  { assume lt: "?n < 56"
    have "(119 - ?n) mod 64 = 55 - ?n" using lt by (subst le_mod_geq; simp)
    moreover have "length (partial_block m @ [0x80] @ replicate (55 - ?n) 0 @ ?len) = 64" using lt by simp
    ultimately show "blocks (md_pad m) = blocks m @ [partial_block m @ [0x80] @ replicate (55 - ?n) 0 @ ?len]"
      using blocks_block [of "partial_block m @ [0x80] @ replicate (55 - ?n) 0 @ ?len" "[]"] pad by simp }
  { assume ge: "56 \<le> ?n"
    have "(119 - ?n) mod 64 = (63 - ?n) + 56" using ge n by simp
    then have "replicate ((119 - ?n) mod 64) (0 :: u8) = replicate (63 - ?n) 0 @ replicate 56 0"
      by (simp only: replicate_add)
    moreover have "length (partial_block m @ [0x80] @ replicate (63 - ?n) 0) = 64" using ge n by simp
    moreover have "length (replicate 56 0 @ ?len) = 64" by simp
    ultimately show "blocks (md_pad m) = blocks m @
        [partial_block m @ [0x80] @ replicate (63 - ?n) 0, replicate 56 0 @ ?len]"
      using blocks_block [of "partial_block m @ [0x80] @ replicate (63 - ?n) 0" "replicate 56 0 @ ?len"]
        blocks_block [of "replicate 56 0 @ ?len" "[]"]
      unfolding pad by simp }
qed

lemma total_bits:
  "of_nat (512 * (n div 64)) + of_nat (n mod 64) * 8 = (of_nat (8 * n) :: u64)"
proof -
  have "512 * (n div 64) + (n mod 64) * 8 = 8 * n"
    using mult_div_mod_eq [of 64 n] by linarith
  then show ?thesis by (metis of_nat_add of_nat_mult of_nat_numeral)
qed

lemma final_hashed:
  assumes "hashed m s"
  shows "\<exists>s'. final s = Inr (SHA_1 m, s')"
proof -
  let ?n = "length m mod 64" and ?len = "be64 (of_nat (8 * length m))"
  let ?d = "(sha_data s)[?n := 0x80]"
  note inv = assms [unfolded hashed_def]
  have n: "?n < 64" by simp
  have take: "take (Suc ?n) ?d = partial_block m @ [0x80]"
    using inv n by (simp add: take_Suc_conv_app_nth)
  have bits: "sha_bitlen s + of_nat (sha_datalen s) * 8 = of_nat (8 * length m)"
    using inv by (simp only: total_bits)
  let ?s = "s\<lparr>sha_data := ?d, sha_datalen := Suc ?n\<rparr>"
  show ?thesis
  proof (cases "?n < 56")
    case True
    have "SHA_1 m = concat (map be32 (sha1_compress
        (partial_block m @ [0x80] @ replicate (55 - ?n) 0 @ ?len) (sha_h s)))"
      using inv by (simp only: SHA_1_def md_digest_def blocks_md_pad(1) [OF True]) simp
    with inv True take bits final_block [of ?s "of_nat (8 * length m)"] show ?thesis
      by (simp add: final_def Let_def)
  next
    case False
    let ?b = "partial_block m @ [0x80] @ replicate (63 - ?n) 0"
    let ?s2 = "s\<lparr>sha_data := ?b, sha_h := sha1_compress ?b (sha_h s), sha_datalen := 0\<rparr>"
    have b: "length ?b = 64" using False n by simp
    have "zero_fill 64 ?s = Inr (?s\<lparr>sha_data := ?b, sha_datalen := 64\<rparr>)"
      using inv take n by (subst zero_fill_replicate) (simp_all add: Suc_le_eq)
    moreover have "transform (?s\<lparr>sha_data := ?b, sha_datalen := 64\<rparr>) =
        Inr (?s2\<lparr>sha_datalen := 64\<rparr>)"
      by (subst transform_compress) (use b in simp_all)
    moreover have "SHA_1 m = concat (map be32 (sha1_compress (replicate 56 0 @ ?len) (sha_h ?s2)))"
      using inv False by (simp only: SHA_1_def md_digest_def blocks_md_pad(2) [OF leI [OF False]]) simp
    ultimately show ?thesis
      using inv False bits final_block [of ?s2 "of_nat (8 * length m)"] b
      by (simp add: final_def Let_def)
  qed
qed

lemma length_SHA_1 [simp]: "length (SHA_1 m) = 20"
  using length_md_digest [of sha1_compress 5 sha1_init m]
  by (simp add: SHA_1_def sha1_init_def sha1_compress_def split_beta)

text \<open>C18: Hashing a message in any number of \<open>update\<close> calls of any lengths and then calling \<open>final\<close> gives
  the SHA-1 digest (FIPS 180-4) of the whole message, whatever the uninitialised buffer of the object
  held; no access leaves the buffer.\<close>

theorem sha1_correct:
  assumes "length junk = 64"
  shows "\<exists>s s'. fold_res (\<lambda>part. update part (length part)) parts (newSHA1 junk) = Inr s
           \<and> final s = Inr (SHA_1 (concat parts), s')"
proof -
  have "\<exists>s'. fold_res (\<lambda>part. update part (length part)) parts s = Inr s' \<and> hashed (m @ concat parts) s'"
    if "hashed m s" for m s
    using that
  proof (induction parts arbitrary: m s)
    case (Cons p parts)
    obtain s1 where s1: "update p (length p) s = Inr s1" "hashed (m @ p) s1"
      using update_hashed [OF Cons.prems] by blast
    from Cons.IH [OF s1(2)] s1(1) show ?case by simp
  qed simp
  from this [OF hashed_new [OF assms]] show ?thesis using final_hashed by fastforce
qed

theorem sha1_correct_witness:
  "\<exists>s s'. fold_res (\<lambda>part. update part (length part)) [str ''ab'', str ''c''] (newSHA1 (replicate 64 7)) = Inr s
     \<and> final s = Inr (SHA_1 (str ''abc''), s')"
  using sha1_correct [of "replicate 64 7" "[str ''ab'', str ''c'']"] by simp

end
