(* ===== verification/Base64.thy ===== *)
theory Base64
  imports HWS_Prelude
begin

text \<open>
  \<open>base64Encode\<close> of \<open>common/ws.hpp\<close>, an index loop over groups of three bytes. It is proved to
  stay inside its array and to produce the encoding of RFC 4648, which is specified on groups of
  six bits; a decoder for that encoding inverts it.
\<close>

section \<open>The code\<close>

definition base64_table :: bytes where
  "base64_table = str ''ABCDEFGHIJKLMNOPQRSTUVWXYZabcdefghijklmnopqrstuvwxyz0123456789+/''"

definition table_at :: "u32 \<Rightarrow> u8 res" where
  "table_at v = rd_at base64_table (unat v)"

definition EQUALS :: u8 where
  "EQUALS = 0x3D"

text \<open>The loop from index \<open>i\<close>, with the output so far.\<close>

function base64_from :: "bytes \<Rightarrow> nat \<Rightarrow> nat \<Rightarrow> bytes \<Rightarrow> bytes res" where
  "base64_from data len i out =
     (if i < len then
        bind_res (rd_at data i) (\<lambda>a.
        let n = push_bit 16 (ucast a) :: u32 in
        bind_res (if i + 1 < len then bind_res (rd_at data (i + 1)) (\<lambda>b. Inr (n OR push_bit 8 (ucast b)))
                  else Inr n) (\<lambda>n.
        bind_res (if i + 2 < len then bind_res (rd_at data (i + 2)) (\<lambda>c. Inr (n OR ucast c))
                  else Inr n) (\<lambda>n.
        bind_res (table_at (drop_bit 18 n AND 0x3F)) (\<lambda>c1.
        bind_res (table_at (drop_bit 12 n AND 0x3F)) (\<lambda>c2.
        bind_res (if i + 1 < len then table_at (drop_bit 6 n AND 0x3F) else Inr EQUALS) (\<lambda>c3.
        bind_res (if i + 2 < len then table_at (n AND 0x3F) else Inr EQUALS) (\<lambda>c4.
          base64_from data len (i + 3) (out @ [c1, c2, c3, c4]))))))))
      else Inr out)"
  by pat_completeness auto
termination
  by (relation "measure (\<lambda>(data, len, i, out). len - i)") auto

declare base64_from.simps [simp del]

definition base64Encode :: "bytes \<Rightarrow> nat \<Rightarrow> bytes res" where
  "base64Encode data len = base64_from data len 0 []"

section \<open>RFC 4648\<close>

text \<open>The 24 bits of three bytes as four groups of six.\<close>

definition sextet1 :: "u8 \<Rightarrow> u8" where
  "sextet1 a = drop_bit 2 a"

definition sextet2 :: "u8 \<Rightarrow> u8 \<Rightarrow> u8" where
  "sextet2 a b = push_bit 4 (take_bit 2 a) OR drop_bit 4 b"

definition sextet3 :: "u8 \<Rightarrow> u8 \<Rightarrow> u8" where
  "sextet3 b c = push_bit 2 (take_bit 4 b) OR drop_bit 6 c"

definition sextet4 :: "u8 \<Rightarrow> u8" where
  "sextet4 c = take_bit 6 c"

definition symbol :: "u8 \<Rightarrow> u8" where
  "symbol s = base64_table ! unat s"

fun b64 :: "bytes \<Rightarrow> bytes" where
  "b64 [] = []"
| "b64 [a] = [symbol (sextet1 a), symbol (sextet2 a 0), EQUALS, EQUALS]"
| "b64 [a, b] = [symbol (sextet1 a), symbol (sextet2 a b), symbol (sextet3 b 0), EQUALS]"
| "b64 (a # b # c # bs) =
     [symbol (sextet1 a), symbol (sextet2 a b), symbol (sextet3 b c), symbol (sextet4 c)] @ b64 bs"

text \<open>The decoder: the value of a symbol is its position in the alphabet.\<close>

definition symbol_value :: "u8 \<Rightarrow> u8" where
  "symbol_value ch = of_nat (length (takeWhile (\<lambda>x. x \<noteq> ch) base64_table))"

definition octet1 :: "u8 \<Rightarrow> u8 \<Rightarrow> u8" where
  "octet1 s t = push_bit 2 s OR drop_bit 4 t"

definition octet2 :: "u8 \<Rightarrow> u8 \<Rightarrow> u8" where
  "octet2 s t = push_bit 4 s OR drop_bit 2 t"

definition octet3 :: "u8 \<Rightarrow> u8 \<Rightarrow> u8" where
  "octet3 s t = push_bit 6 s OR t"

fun unb64 :: "bytes \<Rightarrow> bytes" where
  "unb64 (p # q # r # s # cs) =
     (let p' = symbol_value p; q' = symbol_value q; r' = symbol_value r; s' = symbol_value s
      in if r = EQUALS then [octet1 p' q']
         else if s = EQUALS then [octet1 p' q', octet2 q' r']
         else octet1 p' q' # octet2 q' r' # octet3 r' s' # unb64 cs)"
| "unb64 _ = []"

section \<open>The code computes the encoding\<close>

lemma mask6: "(0x3F :: 'a::len word) = mask 6"
  by (simp add: mask_eq_exp_minus_1)

lemma sextet_bits:
  fixes a b c :: u8
  defines "n \<equiv> push_bit 16 (ucast a) OR push_bit 8 (ucast b) OR ucast c :: u32"
  shows "drop_bit 18 n AND 0x3F = ucast (sextet1 a)"
    and "drop_bit 12 n AND 0x3F = ucast (sextet2 a b)"
    and "drop_bit 6 n AND 0x3F = ucast (sextet3 b c)"
    and "n AND 0x3F = ucast (sextet4 c)"
  unfolding n_def mask6 sextet1_def sextet2_def sextet3_def sextet4_def
  by (rule bit_word_eqI; auto simp: bit_simps dest: bit_imp_le_length)+

lemma sextet_less:
  "unat (sextet1 a) < 64" "unat (sextet2 a b) < 64" "unat (sextet3 b c) < 64" "unat (sextet4 c) < 64"
proof -
  have less: "unat s < 64" if "take_bit 6 s = s" for s :: u8
  proof -
    have "unat s = take_bit 6 (unat s)" using that by (metis unsigned_take_bit_eq)
    then show ?thesis using take_bit_nat_less_exp [of 6 "unat s"] by simp
  qed
  show "unat (sextet1 a) < 64" "unat (sextet2 a b) < 64" "unat (sextet3 b c) < 64" "unat (sextet4 c) < 64"
    unfolding sextet1_def sextet2_def sextet3_def sextet4_def
    by (rule less, rule bit_word_eqI; auto simp: bit_simps dest: bit_imp_le_length)+
qed

lemma length_table [simp]: "length base64_table = 64"
  by (simp add: base64_table_def)

lemma unat_ucast_u8: "unat (ucast (b :: u8) :: u32) = unat b"
proof -
  have "unat b < 2 ^ 32" using unsigned_less [of b, where 'a = nat] by simp
  then show ?thesis by (simp add: unsigned_ucast_eq take_bit_nat_eq_self)
qed

lemma table_at_symbol: "unat s < 64 \<Longrightarrow> table_at (ucast s) = Inr (symbol s)"
  by (simp add: table_at_def symbol_def unat_ucast_u8)

lemmas base64_step =
  table_at_symbol [OF sextet_less(1)] table_at_symbol [OF sextet_less(2)]
  table_at_symbol [OF sextet_less(3)] table_at_symbol [OF sextet_less(4)]

lemma base64_from_b64:
  "i \<le> length data \<Longrightarrow> base64_from data (length data) i out = Inr (out @ b64 (drop i data))"
proof (induction "b64 (drop i data)" arbitrary: i out rule: length_induct)
  case (1 i out)
  let ?n = "length data"
  consider "i = ?n" | "i + 1 = ?n" | "i + 2 = ?n" | "i + 3 \<le> ?n" using 1(2) by linarith
  then show ?case
  proof cases
    case 1
    then show ?thesis by (subst base64_from.simps) simp
  next
    case 2
    then have "drop i data = [data ! i]" by (simp add: Cons_nth_drop_Suc [symmetric])
    with 2 sextet_bits [of "data ! i" 0 0] show ?thesis
      by (subst base64_from.simps) (simp add: base64_step base64_from.simps [of data ?n "i + 3"])
  next
    case 3
    then have "drop i data = [data ! i, data ! (i + 1)]" by (simp add: Cons_nth_drop_Suc [symmetric])
    with 3 sextet_bits [of "data ! i" "data ! (i + 1)" 0] show ?thesis
      by (subst base64_from.simps) (simp add: base64_step base64_from.simps [of data ?n "i + 3"])
  next
    case 4
    then have d: "drop i data = data ! i # data ! (i + 1) # data ! (i + 2) # drop (i + 3) data"
      by (simp add: Cons_nth_drop_Suc [symmetric] numeral_3_eq_3)
    then have "length (b64 (drop (i + 3) data)) < length (b64 (drop i data))" by simp
    with 1(1) 4 have "base64_from data ?n (i + 3) out' = Inr (out' @ b64 (drop (i + 3) data))" for out'
      by blast
    with 4 sextet_bits [of "data ! i" "data ! (i + 1)" "data ! (i + 2)"] show ?thesis
      by (subst base64_from.simps) (simp add: base64_step d or.assoc)
  qed
qed

section \<open>Decoding\<close>

lemma symbol_value_symbol: "unat s < 64 \<Longrightarrow> symbol_value (symbol s) = s"
proof -
  assume s: "unat s < 64"
  have "distinct base64_table" by (simp add: base64_table_def)
  then have "takeWhile (\<lambda>x. x \<noteq> base64_table ! i) base64_table = take i base64_table" if "i < 64" for i
    using that by (intro takeWhile_eq_take_P_nth) (auto simp: nth_eq_iff_index_eq)
  with s show ?thesis by (simp add: symbol_value_def symbol_def)
qed

lemma symbol_not_equals: "unat s < 64 \<Longrightarrow> symbol s \<noteq> EQUALS"
proof -
  assume "unat s < 64"
  then have "symbol s \<in> set base64_table" by (simp add: symbol_def)
  moreover have "EQUALS \<notin> set base64_table" by (simp add: base64_table_def EQUALS_def)
  ultimately show ?thesis by metis
qed

lemma octets:
  "octet1 (sextet1 a) (sextet2 a b) = a" "octet2 (sextet2 a b) (sextet3 b c) = b"
  "octet3 (sextet3 b c) (sextet4 c) = c"
proof -
  have "bit (octet1 (sextet1 a) (sextet2 a b)) i = bit a i" if "i < 8" for i
  proof -
    have "2 \<le> i \<Longrightarrow> Suc (Suc (i - 2)) = i" by simp
    with that show ?thesis unfolding octet1_def sextet1_def sextet2_def
      by (cases "i < 2") (auto simp: bit_simps)
  qed
  then show "octet1 (sextet1 a) (sextet2 a b) = a" by (intro bit_word_eqI) simp
  have "bit (octet2 (sextet2 a b) (sextet3 b c)) i = bit b i" if "i < 8" for i
    using that unfolding octet2_def sextet2_def sextet3_def
    by (cases "i < 4") (auto simp: bit_simps)
  then show "octet2 (sextet2 a b) (sextet3 b c) = b" by (intro bit_word_eqI) simp
  have "bit (octet3 (sextet3 b c) (sextet4 c)) i = bit c i" if "i < 8" for i
    using that unfolding octet3_def sextet3_def sextet4_def
    by (cases "i < 6") (auto simp: bit_simps)
  then show "octet3 (sextet3 b c) (sextet4 c) = c" by (intro bit_word_eqI) simp
qed

lemma unb64_b64: "unb64 (b64 bs) = bs"
  by (induction bs rule: b64.induct)
    (simp_all add: Let_def symbol_value_symbol symbol_not_equals sextet_less octets)

lemma b64_length: "length (b64 bs) = 4 * ((length bs + 2) div 3)"
proof (induction bs rule: b64.induct)
  case (4 a b c bs)
  have "(3 + (length bs + 2)) div 3 = (length bs + 2) div 3 + 1" by (rule div_add_self1) simp
  with 4 show ?case by (simp add: ac_simps)
qed simp_all

lemma b64_symbols: "set (b64 bs) \<subseteq> insert EQUALS (set base64_table)"
  by (induction bs rule: b64.induct) (auto simp: symbol_def sextet_less)

text \<open>C33: \<open>base64Encode\<close> reads inside its array only and produces the RFC 4648 encoding: four symbols of
  the alphabet or padding for every three bytes begun, from which decoding gives the bytes back.\<close>

theorem base64Encode_correct:
  "\<exists>text. base64Encode data (length data) = Inr text \<and> text = b64 data \<and> unb64 text = data
     \<and> length text = 4 * ((length data + 2) div 3) \<and> set text \<subseteq> insert EQUALS (set base64_table)"
  using base64_from_b64 [of 0 data "[]"]
  by (simp add: base64Encode_def unb64_b64 b64_length b64_symbols)

end
