(* ===== verification/Ws_Sessions.thy ===== *)
theory Ws_Sessions
  imports Ws_Handshake
begin

text \<open>
  What the handshake guarantees: \<open>WSServer::accept\<close> and \<open>WSClient::connect\<close> return a socket only
  after an exchange the protocol allows, close the socket on every other path, and accept each
  other's messages.
\<close>

section \<open>What each side accepts\<close>

definition upgrade_ok :: "bytes \<Rightarrow> bytes \<Rightarrow> bool" where
  "upgrade_ok path t \<longleftrightarrow> header_text t \<and> prefix (str ''GET '' @ path @ str '' HTTP/1.1'' @ CRLF) t
     \<and> extractHeader t (str ''Upgrade'') = str ''websocket'' \<and> extractHeader t (str ''Sec-WebSocket-Key'') \<noteq> []"

definition switching_ok :: "bytes \<Rightarrow> bytes \<Rightarrow> bool" where
  "switching_ok key t \<longleftrightarrow> header_text t \<and> prefix (str ''HTTP/1.1 101 '') t
     \<and> extractHeader t (str ''Sec-WebSocket-Accept'') = accept_key key"

text \<open>A handshake that failed left no descriptor behind; one that succeeded left exactly the new one.\<close>

definition one_opened :: "int \<Rightarrow> int set \<Rightarrow> int set \<Rightarrow> bool" where
  "one_opened fd before after \<longleftrightarrow>
     (if fd = INVALID_SOCKET then after = before else fd \<notin> before \<and> after = insert fd before)"

lemma length_accept_response: "length (accept_response (accept_key key)) < 2 ^ 31"
  by (simp add: accept_response_def length_accept_key CRLF_def)

lemma length_connect_request:
  "length (connect_request path host port key userId) \<le> length path + length host + length key + length userId + 160"
proof -
  have "nat (uint port) < 10 ^ Suc 4" using unsigned_less [of port, where 'a = nat] by simp
  then have "length (to_string (uint port)) \<le> 5"
    using length_dec_nat [of "nat (uint port)" 4] by (simp add: to_string_def)
  then show ?thesis by (simp add: connect_request_def CRLF_def)
qed

context net_system
begin

lemmas opened_simps = close_opened quiet.recvHttpHeaders_obs quiet.sendAll_obs quiet.randomBytes_obs
  reuse_opened bind_opened listen_opened addrinfo_opened connect_opened

lemma server_accept_outcome:
  assumes junk: "length junk = 64" and run: "server_accept net junk srv u0 s = (r, s')"
  shows "\<exists>c u. r = Inr (c, u) \<and> one_opened c (opened s) (opened s')
    \<and> (c \<noteq> INVALID_SOCKET \<longrightarrow> userId_ok u
        \<and> (\<exists>s0 t. net_accept net (listenSock srv) s = (c, s0) \<and> upgrade_ok (ws_path net) t \<and> input c s0 = t @ input c s'
             \<and> sent c s' = sent c s0 @ accept_response (accept_key (extractHeader t (str ''Sec-WebSocket-Key'')))))"
proof -
  obtain c s0 where c: "net_accept net (listenSock srv) s = (c, s0)" by fastforce
  obtain t s1 where t: "recvHttpHeaders (net_io net c) s0 = (t, s1)" by fastforce
  obtain u s2 where u: "accept_userId net t s1 = (u, s2)" by fastforce
  let ?k = "extractHeader t (str ''Sec-WebSocket-Key'')"
  let ?resp = "accept_response (accept_key ?k)"
  obtain ok s3 where ok: "sendAll (net_io net c) ?resp s2 = (ok, s3)" by fastforce
  note run' = run [unfolded server_accept_def c prod.case t Let_def u wsAcceptKey_accept_key [OF junk] sum.case ok]
  note new = accept_opened [OF c] and hdr = conn.recvHttpHeaders_sound [OF t] and uid = accept_userId_outcome [OF u]
  have o1: "opened s1 = opened s0" "opened s3 = opened s0"
    using quiet.recvHttpHeaders_obs [of c s0] quiet.sendAll_obs [of c ?resp s2] t ok uid(2) by simp_all
  consider (none) "c = INVALID_SOCKET" "r = Inr (INVALID_SOCKET, u0)" "s' = s0"
    | (refused) u1 where "c \<noteq> INVALID_SOCKET" "r = Inr (INVALID_SOCKET, u1)" "opened s' = opened s0 - {c}"
    | (accepted) "c \<noteq> INVALID_SOCKET" "r = Inr (c, u)" "s' = s3" "ok" "t \<noteq> []" "upgrade_ok (ws_path net) t"
    using run' hdr(2) by (auto simp: upgrade_ok_def close_opened o1 split: if_splits)
  then show ?thesis
  proof cases
    case accepted
    have "input c s3 = input c s2" "sent c s3 = sent c s2 @ ?resp"
      using conn.sendAll_True [OF _ length_accept_response] ok \<open>ok\<close> by simp_all
    then show ?thesis using accepted c new o1 hdr uid
      by (intro exI [of _ c] exI [of _ u] conjI impI exI [of _ s0] exI [of _ t]) (simp_all add: one_opened_def)
  qed (use new in \<open>auto simp: one_opened_def\<close>)
qed

lemma connect_fail_outcome: "opened (snd (connect_fail net c s)) = opened s - {client_sock c}"
  by (simp add: connect_fail_def close_opened)

lemma resolve_opened: "resolve net host port s = (a, s') \<Longrightarrow> opened s' = opened s"
  using addrinfo_opened [of host "str (to_string (uint port))" s] by (auto simp: resolve_def split: option.splits)

lemma connect_upgrade_outcome:
  assumes junk: "length junk = 64" and small: "length (ws_path net) + length host + length userId < 2 ^ 30"
    and run: "connect_upgrade net junk host port userId c s = (r, s')"
  shows "r = Inr (False, c\<lparr>client_sock := INVALID_SOCKET\<rparr>) \<and> opened s' = opened s - {client_sock c}
    \<or> r = Inr (True, c) \<and> opened s' = opened s
      \<and> (\<exists>rs t. length rs = 16 \<and> switching_ok (b64 rs) t \<and> input (client_sock c) s = t @ input (client_sock c) s'
           \<and> sent (client_sock c) s' = sent (client_sock c) s @ connect_request (ws_path net) host port (b64 rs) userId)"
proof -
  let ?fd = "client_sock c"
  obtain rs s1 where rs: "randomBytes (net_io net ?fd) 16 s = (rs, s1)" by fastforce
  let ?req = "connect_request (ws_path net) host port (b64 rs) userId"
  obtain ok s2 where ok: "sendAll (net_io net ?fd) ?req s1 = (ok, s2)" by fastforce
  obtain t s3 where t: "recvHttpHeaders (net_io net ?fd) s2 = (t, s3)" by fastforce
  note run' = run [unfolded connect_upgrade_def generateWSKey_b64 [OF rs] prod.case sum.case ok t
      wsAcceptKey_accept_key [OF junk]]
  have len: "length rs = 16" by (rule length_randomBytes [OF rs])
  have o: "opened s2 = opened s" "opened s3 = opened s"
    using quiet.randomBytes_obs [of ?fd 16 s] quiet.sendAll_obs [of ?fd ?req s1] quiet.recvHttpHeaders_obs [of ?fd s2]
    by (simp_all add: rs ok t)
  note hdr = conn.recvHttpHeaders_sound [OF t]
  consider "r = Inr (False, c\<lparr>client_sock := INVALID_SOCKET\<rparr>)" "opened s' = opened s - {?fd}"
    | (connected) "r = Inr (True, c)" "s' = s3" "ok" "t \<noteq> []" "switching_ok (b64 rs) t"
    using run' hdr(2) by (auto simp: switching_ok_def connect_fail_def close_opened o split: if_splits)
  then show ?thesis
  proof cases
    case connected
    have "length ?req < 2 ^ 31" using length_connect_request [of "ws_path net" host port "b64 rs" userId] small len
      by (simp add: b64_length)
    then have "input ?fd s2 = input ?fd s1" "sent ?fd s2 = sent ?fd s1 @ ?req"
      using conn.sendAll_True [of ?fd ?req s1 s2] \<open>sendAll _ _ _ = _\<close> \<open>ok\<close> by simp_all
    moreover note conn.randomBytes_silent [OF rs]
    ultimately show ?thesis using connected hdr o len
      by (intro disjI2 conjI exI [of _ rs] exI [of _ t]) simp_all
  qed simp
qed

lemma client_connect_outcome:
  assumes junk: "length junk = 64" and small: "length (ws_path net) + length host + length userId < 2 ^ 30"
    and run: "client_connect net junk host port userId c s = (r, s')"
  shows "\<exists>ok fd. r = Inr (ok, c\<lparr>client_sock := fd\<rparr>) \<and> one_opened fd (opened s) (opened s') \<and> (ok \<longleftrightarrow> fd \<noteq> INVALID_SOCKET)
    \<and> (ok \<longrightarrow> (\<exists>s0 rs t. length rs = 16 \<and> switching_ok (b64 rs) t \<and> input fd s0 = t @ input fd s'
           \<and> sent fd s' = sent fd s0 @ connect_request (ws_path net) host port (b64 rs) userId))"
proof -
  obtain fd s1 where fd: "net_socket net s = (fd, s1)" by fastforce
  let ?c = "c\<lparr>client_sock := fd\<rparr>"
  obtain a s2 where a: "resolve net host port s1 = (a, s2)" by fastforce
  note new = socket_opened [OF fd] and o2 = resolve_opened [OF a]
  have failed: ?thesis if "fd \<noteq> INVALID_SOCKET" "r = Inr (False, c\<lparr>client_sock := INVALID_SOCKET\<rparr>)" "opened s' = opened s1 - {fd}"
    using that new by (auto simp: one_opened_def)
  show ?thesis
  proof (cases "fd = INVALID_SOCKET \<or> a = None")
    case True
    then show ?thesis using run fd a o2 new failed
      by (auto simp: client_connect_def one_opened_def connect_fail_def close_opened split: if_splits)
  next
    case False
    then obtain addr where addr: "a = Some addr" by auto
    obtain x s3 where x: "net_connect net fd addr s2 = (x, s3)" by fastforce
    then have o3: "opened s3 = opened s1" using connect_opened [of fd addr s2] o2 by simp
    note run' = run [unfolded client_connect_def fd prod.case a addr option.case x Let_def]
    show ?thesis
    proof (cases "x = SOCKET_ERROR")
      case True
      then have "r = Inr (False, c\<lparr>client_sock := INVALID_SOCKET\<rparr>)" "s' = net_close net fd s3"
        using run' [symmetric] False by (simp_all add: connect_fail_def)
      then show ?thesis using False o3 by (intro failed) (simp_all add: close_opened)
    next
      case [simp]: False
      then have "connect_upgrade net junk host port userId ?c s3 = (r, s')"
        using run' \<open>\<not> (fd = INVALID_SOCKET \<or> a = None)\<close> by simp
      from connect_upgrade_outcome [OF junk small this] show ?thesis
        using failed o3 new \<open>\<not> (fd = INVALID_SOCKET \<or> a = None)\<close> by (auto simp: one_opened_def)
    qed
  qed
qed

lemma server_listen_outcome:
  assumes "server_listen net port srv s = (ok, srv', s')"
  shows "one_opened (listenSock srv') (opened s) (opened s') \<and> (ok \<longleftrightarrow> listenSock srv' \<noteq> INVALID_SOCKET)"
proof -
  obtain fd s1 where fd: "net_socket net s = (fd, s1)" by fastforce
  obtain x s2 where x: "net_bind net fd port (net_reuse net fd s1) = (x, s2)" by fastforce
  obtain y s3 where y: "net_listen net fd 5 s2 = (y, s3)" by fastforce
  note run = assms [unfolded server_listen_def fd x prod.case Let_def y]
  have "opened s2 = opened s1" "opened s3 = opened s1"
    using bind_opened [of fd port "net_reuse net fd s1"] listen_opened [of fd 5 s2] by (simp_all add: x y reuse_opened)
  with run [symmetric] socket_opened [OF fd] show ?thesis
    by (simp add: close_opened one_opened_def split: if_splits)
qed

end

section \<open>The two messages as header texts\<close>

lemma find_str_first: "find_str pat t = Some i \<Longrightarrow> j < i \<Longrightarrow> \<not> prefix pat (drop j t)"
proof (induction t arbitrary: i j)
  case (Cons c t)
  then show ?case by (cases j) (auto split: if_splits)
qed (simp split: if_splits)

lemma header_textI:
  assumes "find_str CRLF2 t = Some (length t - 4)" and "drop (length t - 4) t = CRLF2" and "length t \<le> 8193"
  shows "header_text t"
proof -
  have four: "4 \<le> length t" using arg_cong [OF assms(2), of length] by (simp add: CRLF2_def)
  have "\<not> ends_headers (take k t)" if "k < length t" for k
  proof
    assume e: "ends_headers (take k t)"
    then have k: "4 \<le> k" "drop (k - 4) (take k t) = CRLF2" using that by (simp_all add: ends_headers_def)
    have "drop (k - 4) t = drop (k - 4) (take k t) @ drop k t" using that k(1)
      by (metis append_take_drop_id drop_append diff_is_0_eq diff_le_self drop_0 length_take min.absorb4)
    then have "prefix CRLF2 (drop (k - 4) t)" unfolding k(2) by simp
    moreover have "k - 4 < length t - 4" using that k(1) by simp
    ultimately show False using find_str_first [OF assms(1)] by blast
  qed
  then show ?thesis using assms four by (simp add: header_text_def ends_headers_def)
qed

lemma http_text_header_text:
  assumes "13 \<notin> set start" and "\<forall>h \<in> set hs. header_ok h" and "length (http_text start hs) \<le> 8193"
  shows "header_text (http_text start hs)"
proof (rule header_textI)
  let ?lines = "\<lambda>hs. concat (map (\<lambda>h. CRLF @ header_line h) hs)"
  have "find_str CRLF2 (?lines hs @ CRLF @ CRLF) = Some (length (?lines hs))" using assms(2)
  proof (induction hs)
    case Nil
    then show ?case by (simp add: CRLF_def CRLF2_def)
  next
    case (Cons h hs)
    let ?rest = "?lines hs @ CRLF @ CRLF" and ?line = "10 # header_line h"
    have l: "?lines (h # hs) @ CRLF @ CRLF = 13 # ?line @ ?rest" by (simp add: CRLF_def)
    have "13 \<notin> set ?line" using Cons.prems by (simp add: header_line_def header_ok_def)
    then have "find_str CRLF2 (?line @ ?rest) = map_option (\<lambda>i. length ?line + i) (find_str CRLF2 ?rest)"
      by (intro find_str_skip) (simp_all add: CRLF2_def)
    moreover have "\<not> prefix CRLF2 (13 # ?line @ ?rest)"
      using Cons.prems by (cases "fst h") (auto simp: CRLF2_def header_line_def header_ok_def)
    ultimately show ?case unfolding l using Cons by (simp add: CRLF_def)
  qed
  then show "find_str CRLF2 (http_text start hs) = Some (length (http_text start hs) - 4)"
    using find_str_skip [of CRLF2 start] assms(1) by (simp add: http_text_def CRLF2_def CRLF_def)
  show "drop (length (http_text start hs) - 4) (http_text start hs) = CRLF2"
    by (simp add: http_text_def CRLF_def CRLF2_def)
qed (rule assms(3))

definition request_headers :: "bytes \<Rightarrow> u16 \<Rightarrow> bytes \<Rightarrow> bytes \<Rightarrow> header list" where
  "request_headers host port key userId =
     [(str ''Host'', 32 # host @ 58 # str (to_string (uint port))), (str ''Upgrade'', 32 # str ''websocket''),
      (str ''Connection'', 32 # str ''Upgrade''), (str ''Sec-WebSocket-Key'', 32 # key),
      (str ''Sec-WebSocket-Version'', 32 # str ''13''), (str ''userId'', 32 # userId)]"

definition response_headers :: "bytes \<Rightarrow> header list" where
  "response_headers accept =
     [(str ''Upgrade'', 32 # str ''websocket''), (str ''Connection'', 32 # str ''Upgrade''),
      (str ''Sec-WebSocket-Accept'', 32 # accept)]"

lemma connect_request_http:
  "connect_request path host port key userId = http_text (str ''GET '' @ path @ str '' HTTP/1.1'') (request_headers host port key userId)"
  by (simp add: connect_request_def http_text_def header_line_def request_headers_def)

lemma accept_response_http:
  "accept_response accept = http_text (str ''HTTP/1.1 101 Switching Protocols'') (response_headers accept)"
  by (simp add: accept_response_def http_text_def header_line_def response_headers_def)

lemma request_ok:
  assumes "13 \<notin> set path" "13 \<notin> set host" and "userId_ok userId" "\<not> blank (hd userId)"
    and "length (connect_request path host port (b64 rs) userId) \<le> 8193" and "length rs = 16"
  defines "t \<equiv> connect_request path host port (b64 rs) userId"
  shows "upgrade_ok path t" "extractHeader t (str ''Sec-WebSocket-Key'') = b64 rs" "extractHeader t (str ''userId'') = userId"
proof -
  let ?hs = "request_headers host port (b64 rs) userId" and ?start = "str ''GET '' @ path @ str '' HTTP/1.1''"
  have "13 \<notin> set userId" using assms(3) by (auto simp: userId_ok_def iscntrl_def)
  moreover have "13 \<notin> set (str (to_string (uint port)))"
    using to_string_plain [of 13 "uint port"] by (auto simp: iscntrl_def)
  ultimately have hs: "\<forall>h \<in> set ?hs. header_ok h"
    using assms(2) b64_plain(1) by (simp add: request_headers_def header_ok_def)
  have start: "13 \<notin> set ?start" using assms(1) by simp
  note val = extractHeader_value [OF start hs, folded connect_request_http, folded t_def]
  show "extractHeader t (str ''Sec-WebSocket-Key'') = b64 rs"
    by (subst val) (simp_all add: request_headers_def b64_plain tolower_def blank_def)
  moreover have "b64 rs \<noteq> []" using b64_length [of rs] assms(6) by auto
  moreover have "extractHeader t (str ''Upgrade'') = str ''websocket''"
    by (subst val) (simp_all add: request_headers_def tolower_def blank_def)
  moreover have "header_text t"
    using http_text_header_text [OF start hs] assms(5) by (simp only: t_def connect_request_http)
  ultimately show "upgrade_ok path t" by (simp add: upgrade_ok_def t_def connect_request_def)
  have "dropWhile blank userId = userId" using assms(4) by (cases userId) simp_all
  then show "extractHeader t (str ''userId'') = userId"
    by (subst val) (simp_all add: request_headers_def tolower_def blank_def)
qed

lemma response_ok: "switching_ok key (accept_response (accept_key key))"
proof -
  have hs: "\<forall>h \<in> set (response_headers (accept_key key)). header_ok h"
    using b64_plain(1) by (simp add: response_headers_def header_ok_def accept_key_def)
  have start: "13 \<notin> set (str ''HTTP/1.1 101 Switching Protocols'')" by simp
  have "length (accept_response (accept_key key)) \<le> 8193"
    by (simp add: accept_response_def length_accept_key CRLF_def)
  then have "header_text (accept_response (accept_key key))"
    using http_text_header_text [OF start hs] by (simp only: accept_response_http [symmetric])
  moreover have "extractHeader (accept_response (accept_key key)) (str ''Sec-WebSocket-Accept'') = accept_key key"
    unfolding accept_response_http
    by (subst extractHeader_value [OF start hs])
      (simp_all add: response_headers_def tolower_def blank_def b64_plain accept_key_def)
  ultimately show ?thesis by (simp add: switching_ok_def accept_response_def)
qed

section \<open>Handshakes that succeed\<close>

context reliable_net
begin

lemma server_accept_live:
  assumes junk: "length junk = 64" and c: "net_accept net (listenSock srv) s = (c, s0)" "c \<noteq> INVALID_SOCKET"
    and t: "input c s0 = t @ ts" "upgrade_ok (ws_path net) t" and v: "extractHeader t (str ''userId'') = v" "userId_ok v"
  obtains s' where "server_accept net junk srv u0 s = (Inr (c, v), s')" "input c s' = ts"
    "sent c s' = sent c s0 @ accept_response (accept_key (extractHeader t (str ''Sec-WebSocket-Key'')))"
proof -
  let ?resp = "accept_response (accept_key (extractHeader t (str ''Sec-WebSocket-Key'')))"
  have ht: "header_text t" using t(2) by (simp add: upgrade_ok_def)
  then have "t \<noteq> []" by (rule header_text_nonempty)
  obtain s1 where s1: "recvHttpHeaders (net_io net c) s0 = (t, s1)" "input c s1 = ts" "sent c s1 = sent c s0"
    by (rule live.recvHttpHeaders_live [OF ht t(1)])
  obtain u s2 where u: "accept_userId net t s1 = (u, s2)" by fastforce
  note uid = accept_userId_outcome [OF u]
  obtain s3 where s3: "sendAll (net_io net c) ?resp s2 = (True, s3)" "input c s3 = input c s2" "sent c s3 = sent c s2 @ ?resp"
    by (rule live.sendAll_live [OF length_accept_response])
  have "server_accept net junk srv u0 s = (Inr (c, v), s3)"
    unfolding server_accept_def c(1) prod.case s1(1) Let_def u wsAcceptKey_accept_key [OF junk] sum.case s3(1)
    using c(2) \<open>t \<noteq> []\<close> t(2) uid(5) [OF v] by (simp add: upgrade_ok_def)
  then show thesis by (rule that) (simp_all add: s1 s3 uid)
qed

lemma connect_upgrade_live:
  assumes junk: "length junk = 64" and small: "length (connect_request (ws_path net) host port (b64 rs) userId) < 2 ^ 31"
    and rs: "randomBytes (net_io net (client_sock c)) 16 s = (rs, s1)"
    and t: "input (client_sock c) s = t @ ts" "switching_ok (b64 rs) t"
  obtains s' where "connect_upgrade net junk host port userId c s = (Inr (True, c), s')" "input (client_sock c) s' = ts"
    "sent (client_sock c) s' = sent (client_sock c) s @ connect_request (ws_path net) host port (b64 rs) userId"
proof -
  let ?fd = "client_sock c" and ?req = "connect_request (ws_path net) host port (b64 rs) userId"
  obtain s2 where s2: "sendAll (net_io net ?fd) ?req s1 = (True, s2)" "input ?fd s2 = input ?fd s1" "sent ?fd s2 = sent ?fd s1 @ ?req"
    by (rule live.sendAll_live [OF small])
  have ht: "header_text t" using t(2) by (simp add: switching_ok_def)
  then have "t \<noteq> []" by (rule header_text_nonempty)
  have "input ?fd s2 = t @ ts" using s2(2) conn.randomBytes_silent [OF rs] t(1) by simp
  then obtain s3 where s3: "recvHttpHeaders (net_io net ?fd) s2 = (t, s3)" "input ?fd s3 = ts" "sent ?fd s3 = sent ?fd s2"
    by (rule live.recvHttpHeaders_live [OF ht])
  have "connect_upgrade net junk host port userId c s = (Inr (True, c), s3)"
    unfolding connect_upgrade_def generateWSKey_b64 [OF rs] prod.case sum.case s2(1) s3(1) wsAcceptKey_accept_key [OF junk]
    using t(2) \<open>t \<noteq> []\<close> by (simp add: switching_ok_def)
  then show thesis by (rule that) (use s2 s3 conn.randomBytes_silent [OF rs] in simp_all)
qed

end

section \<open>Two hosts\<close>

text \<open>A client and a server whose connections carry each other's handshake and a first frame.\<close>

definition demo_rand :: bytes where
  "demo_rand = [1, 2, 3, 4, 5, 6, 7, 8, 9, 10, 11, 12, 13, 14, 15, 16]"

definition demo_request :: bytes where
  "demo_request = connect_request (str ''/ws'') (str ''127.0.0.1'') 9898 (b64 demo_rand) (str ''cpp-client-1'')"

definition demo_host :: "bytes \<Rightarrow> seg_net" where
  "demo_host bs = \<lparr>sn_conn = (\<lambda>_. \<lparr>seg_in = [], seg_out = [], seg_accept = [], seg_random = []\<rparr>), sn_open = [],
     sn_pending = [\<lparr>seg_in = [take 7 bs, drop 7 bs, [0x82, 0]], seg_out = [], seg_accept = [2, 5], seg_random = demo_rand\<rparr>],
     sn_clock = [1000]\<rparr>"

abbreviation demo_net :: "seg_net net" where
  "demo_net \<equiv> seg_system (\<lambda>_. None)"

abbreviation demo_junk :: bytes where
  "demo_junk \<equiv> replicate 64 0xAA"

section \<open>Properties\<close>

text \<open>C34: The key functions compute what RFC 6455 asks: the accept key is the Base64 form of the SHA-1 digest
  of the client's key and the protocol's GUID, whatever the hash object's buffer held.\<close>

theorem wsAcceptKey_correct:
  assumes "length junk = 64"
  shows "wsAcceptKey junk key = Inr (b64 (SHA_1 (key @ WS_GUID)))"
  using wsAcceptKey_accept_key [OF assms] by (simp add: accept_key_def)

theorem wsAcceptKey_correct_witness:
  "wsAcceptKey (replicate 64 0xAA) (str ''dGhlIHNhbXBsZSBub25jZQ=='') = Inr (b64 (SHA_1 (str ''dGhlIHNhbXBsZSBub25jZQ=='' @ WS_GUID)))"
  by (rule wsAcceptKey_correct) simp

text \<open>C35: extractHeader returns, for every text of a start line and header fields without stray carriage
  returns, the value of the first field whose name equals the key up to case, without leading
  blanks, and the empty string if there is none.\<close>

theorem extractHeader_correct:
  assumes "13 \<notin> set start" and "\<forall>h \<in> set hs. header_ok h" and "13 \<notin> set key" "58 \<notin> set key"
  shows "extractHeader (http_text start hs) key = header_value key hs"
  using assms by (rule extractHeader_value)

theorem extractHeader_correct_witness:
  "extractHeader (http_text (str ''GET /ws HTTP/1.1'') [(str ''Host'', str '' a:1''), (str ''UPGRADE'', str ''  WebSocket'')])
     (str ''upgrade'') = str ''WebSocket''"
proof -
  have "header_value (str ''upgrade'') [(str ''Host'', str '' a:1''), (str ''UPGRADE'', str ''  WebSocket'')] = str ''WebSocket''"
    by code_simp
  then show ?thesis
    by (subst extractHeader_correct) (simp_all add: header_ok_def)
qed

text \<open>C11: WSServer::accept returns a socket only after it has read a complete request for the expected path
  with an upgrade to websocket and a key, and has sent the answer with the accept key for it; the name of
  the session is then not empty, at most 128 bytes long and free of control characters. Exactly
  the returned socket is opened; on every other path the accepted socket is closed again.\<close>

theorem accept_safe:
  assumes "net_system net input sent opened" and "length junk = 64" and "server_accept net junk srv u0 s = (r, s')"
  shows "\<exists>c u. r = Inr (c, u) \<and> one_opened c (opened s) (opened s')
    \<and> (c \<noteq> INVALID_SOCKET \<longrightarrow> userId_ok u
        \<and> (\<exists>s0 t. net_accept net (listenSock srv) s = (c, s0) \<and> upgrade_ok (ws_path net) t \<and> input c s0 = t @ input c s'
             \<and> sent c s' = sent c s0 @ accept_response (accept_key (extractHeader t (str ''Sec-WebSocket-Key'')))))"
  using net_system.server_accept_outcome [OF assms] .

theorem accept_safe_witness:
  "\<exists>c u s'. server_accept demo_net demo_junk newWSServer [] (demo_host demo_request) = (Inr (c, u), s')
     \<and> one_opened c {} (set (sn_open s')) \<and> (c \<noteq> INVALID_SOCKET \<longrightarrow> userId_ok u)"
proof -
  obtain r s' where "server_accept demo_net demo_junk newWSServer [] (demo_host demo_request) = (r, s')" by fastforce
  from this accept_safe [OF sn.net_system_axioms _ this] show ?thesis by (auto simp: demo_host_def)
qed

text \<open>C20: WSClient::connect returns true only after it has sent the upgrade request with a key of sixteen
  random bytes and read a complete 101 answer that carries the accept key for it. Exactly the
  connected socket is opened then; on every failure the socket is closed and the client holds none.\<close>

theorem connect_safe:
  assumes "net_system net input sent opened" and "length junk = 64"
    and "length (ws_path net) + length host + length userId < 2 ^ 30"
    and "client_connect net junk host port userId c s = (r, s')"
  shows "\<exists>ok fd. r = Inr (ok, c\<lparr>client_sock := fd\<rparr>) \<and> one_opened fd (opened s) (opened s') \<and> (ok \<longleftrightarrow> fd \<noteq> INVALID_SOCKET)
    \<and> (ok \<longrightarrow> (\<exists>s0 rs t. length rs = 16 \<and> switching_ok (b64 rs) t \<and> input fd s0 = t @ input fd s'
           \<and> sent fd s' = sent fd s0 @ connect_request (ws_path net) host port (b64 rs) userId))"
  using net_system.client_connect_outcome [OF assms] .

theorem connect_safe_witness:
  "\<exists>ok fd s'. client_connect demo_net demo_junk (str ''127.0.0.1'') 9898 (str ''cpp-client-1'') newWSClient (demo_host [])
       = (Inr (ok, newWSClient\<lparr>client_sock := fd\<rparr>), s')
     \<and> one_opened fd {} (set (sn_open s')) \<and> (ok \<longleftrightarrow> fd \<noteq> INVALID_SOCKET)"
proof -
  obtain r s' where r: "client_connect demo_net demo_junk (str ''127.0.0.1'') 9898 (str ''cpp-client-1'') newWSClient (demo_host [])
      = (r, s')" by fastforce
  have "length (ws_path demo_net) = 3" by (simp add: ws_path_def seg_system_def)
  with connect_safe [OF sn.net_system_axioms _ _ r] r show ?thesis by (auto simp: demo_host_def)
qed

text \<open>C5: The two sides agree: over reliable connections the server accepts the request the client sends, takes over
  its user name, and answers with a response that the client accepts; both leave what follows the
  handshake unread.\<close>

theorem handshake_agreement:
  assumes "reliable_net net1 input1 sent1 opened1" and "reliable_net net2 input2 sent2 opened2"
    and "length junk1 = 64" "length junk2 = 64" and "ws_path net1 = path" "ws_path net2 = path"
    and "13 \<notin> set path" "13 \<notin> set host" and "userId_ok userId" "\<not> blank (hd userId)"
    and "net_socket net1 s0 = (fd, s1)" "fd \<noteq> INVALID_SOCKET" and "resolve net1 host port s1 = (Some addr, s2)"
    and "net_connect net1 fd addr s2 = (x, s3)" "x \<noteq> SOCKET_ERROR"
    and "randomBytes (net_io net1 fd) 16 s3 = (rs, s4)"
    and "length (connect_request path host port (b64 rs) userId) \<le> 8193"
    and "input1 fd s3 = accept_response (accept_key (b64 rs)) @ rest1"
    and "net_accept net2 (listenSock srv) t0 = (cs, t1)" "cs \<noteq> INVALID_SOCKET"
    and "input2 cs t1 = connect_request path host port (b64 rs) userId @ rest2"
  shows "\<exists>s' t'. client_connect net1 junk1 host port userId c s0 = (Inr (True, c\<lparr>client_sock := fd\<rparr>), s')
    \<and> sent1 fd s' = sent1 fd s3 @ connect_request path host port (b64 rs) userId \<and> input1 fd s' = rest1
    \<and> server_accept net2 junk2 srv u0 t0 = (Inr (cs, userId), t')
    \<and> sent2 cs t' = sent2 cs t1 @ accept_response (accept_key (b64 rs)) \<and> input2 cs t' = rest2"
proof -
  note req = request_ok [OF assms(7-10,17) length_randomBytes [OF assms(16)]]
  obtain t' where t': "server_accept net2 junk2 srv u0 t0 = (Inr (cs, userId), t')" "input2 cs t' = rest2"
    "sent2 cs t' = sent2 cs t1 @ accept_response (accept_key (b64 rs))"
    by (rule reliable_net.server_accept_live [OF assms(2,4,19,20,21) _ req(3) assms(9), unfolded assms(6) req(2), OF req(1)])
  have small: "length (connect_request (ws_path net1) host port (b64 rs) userId) < 2 ^ 31"
    using assms(5,17) by simp
  obtain s' where s': "connect_upgrade net1 junk1 host port userId (c\<lparr>client_sock := fd\<rparr>) s3 = (Inr (True, c\<lparr>client_sock := fd\<rparr>), s')"
    "input1 fd s' = rest1" "sent1 fd s' = sent1 fd s3 @ connect_request path host port (b64 rs) userId"
    using reliable_net.connect_upgrade_live [OF assms(1,3) small, of "c\<lparr>client_sock := fd\<rparr>" s3 s4 _ rest1]
      assms(5,16,18) response_ok by auto
  have "client_connect net1 junk1 host port userId c s0 = (Inr (True, c\<lparr>client_sock := fd\<rparr>), s')"
    unfolding client_connect_def assms(11) prod.case Let_def assms(13) option.case assms(14)
    using assms(12,15) s'(1) by simp
  with s' t' show ?thesis by blast
qed

theorem handshake_agreement_witness:
  "\<exists>s' t'. client_connect demo_net demo_junk (str ''127.0.0.1'') 9898 (str ''cpp-client-1'') newWSClient
        (demo_host (accept_response (accept_key (b64 demo_rand)))) = (Inr (True, \<lparr>client_sock = 3\<rparr>), s')
    \<and> seg_out (sn_conn s' 3) = demo_request \<and> concat (seg_in (sn_conn s' 3)) = [0x82, 0]
    \<and> server_accept demo_net demo_junk newWSServer [] (demo_host demo_request) = (Inr (3, str ''cpp-client-1''), t')
    \<and> seg_out (sn_conn t' 3) = accept_response (accept_key (b64 demo_rand)) \<and> concat (seg_in (sn_conn t' 3)) = [0x82, 0]"
proof -
  have path: "ws_path demo_net = str ''/ws''" by (simp add: ws_path_def seg_system_def)
  have uid: "userId_ok (str ''cpp-client-1'')" "\<not> blank (hd (str ''cpp-client-1''))"
    by (simp_all add: userId_ok_def iscntrl_def blank_def)
  let ?c = "demo_host (accept_response (accept_key (b64 demo_rand)))"
  have sock: "net_socket demo_net ?c = (3, ?c\<lparr>sn_open := [3]\<rparr>)"
    by (simp add: seg_system_def sn_fresh_def demo_host_def)
  have addr: "resolve demo_net (str ''127.0.0.1'') 9898 s = (Some (0x7F000001, 9898), s)" for s
    by (simp add: resolve_def seg_system_def)
  have conn: "net_connect demo_net 3 a (?c\<lparr>sn_open := [3]\<rparr>) = (0, sn_attach 3 (hd (sn_pending ?c)) (?c\<lparr>sn_open := [3]\<rparr>))" for a
    by (simp add: seg_system_def demo_host_def)
  have rand: "\<exists>s4. randomBytes (net_io demo_net 3) 16 (sn_attach 3 (hd (sn_pending ?c)) (?c\<lparr>sn_open := [3]\<rparr>)) = (demo_rand, s4)"
    by (simp add: seg_system_def sn_io_def seg_os_def seg_rand_def sn_attach_def demo_host_def demo_rand_def numeral_eq_Suc)
  have acc: "net_accept demo_net l (demo_host demo_request)
      = (3, sn_attach 3 (hd (sn_pending (demo_host demo_request))) ((demo_host demo_request)\<lparr>sn_open := [3]\<rparr>))" for l
    by (simp add: seg_system_def sn_fresh_def demo_host_def)
  have len: "length (connect_request (str ''/ws'') (str ''127.0.0.1'') 9898 (b64 demo_rand) (str ''cpp-client-1'')) \<le> 8193"
    using length_connect_request [of "str ''/ws''" "str ''127.0.0.1''" 9898 "b64 demo_rand" "str ''cpp-client-1''"]
    by (simp add: b64_length demo_rand_def)
  from rand obtain s4 where s4:
    "randomBytes (net_io demo_net 3) 16 (sn_attach 3 (hd (sn_pending ?c)) (?c\<lparr>sn_open := [3]\<rparr>)) = (demo_rand, s4)" ..
  show ?thesis
    using handshake_agreement [OF sn.reliable_net_axioms sn.reliable_net_axioms _ _ path path _ _ uid sock _ addr conn _ s4 len _ acc,
        where ?junk1.0 = demo_junk and ?junk2.0 = demo_junk and ?rest1.0 = "[0x82, 0]" and ?rest2.0 = "[0x82, 0]"
          and c = newWSClient and srv = newWSServer and ?u0.0 = "[]"]
    by (simp add: INVALID_SOCKET_def SOCKET_ERROR_def sn_attach_def demo_host_def demo_request_def newWSClient_def)
qed

end
