(* ===== verification/Ordered_Map.thy ===== *)
theory Ordered_Map
  imports HWS_Prelude "HOL-Library.List_Lexorder"
begin

text \<open>
  \<open>std::map<std::string, std::string>\<close>, the type of \<open>EchoResult::kv\<close>: an association list
  whose keys increase strictly in the order of \<open>std::string::operator<\<close> (lexicographic on
  unsigned bytes), which is the order in which the code iterates over the map. \<open>kv_put\<close> is the
  assignment \<open>m[k] = v\<close>. The clients (\<open>readKV\<close>, the server's echo handler) rely on
  the laws of the locale \<open>string_map\<close> only.
\<close>

type_synonym kvmap = "(bytes \<times> bytes) list"

fun kv_put :: "bytes \<Rightarrow> bytes \<Rightarrow> kvmap \<Rightarrow> kvmap" where
  "kv_put k v [] = [(k, v)]"
| "kv_put k v (e # m) =
     (if fst e < k then e # kv_put k v m
      else if fst e = k then (k, v) # m
      else (k, v) # e # m)"

definition kv_wf :: "kvmap \<Rightarrow> bool" where
  "kv_wf m \<longleftrightarrow> sorted_wrt (<) (map fst m)"

section \<open>The interface\<close>

locale string_map =
  fixes empty :: "'m"
    and put :: "'k \<Rightarrow> 'v \<Rightarrow> 'm \<Rightarrow> 'm"
    and get :: "'m \<Rightarrow> 'k \<Rightarrow> 'v option"
    and wf :: "'m \<Rightarrow> bool"
  assumes get_empty: "get empty k = None"
    and get_put: "wf m \<Longrightarrow> get (put k v m) j = (if j = k then Some v else get m j)"
    and wf_empty: "wf empty"
    and wf_put: "wf m \<Longrightarrow> wf (put k v m)"
begin

lemma wf_put_all: "wf m \<Longrightarrow> wf (fold (\<lambda>(k, v). put k v) es m)"
  by (induction es arbitrary: m) (auto intro: wf_put)

text \<open>After a run of assignments a key has the value assigned to it last.\<close>

lemma get_put_all:
  "wf m \<Longrightarrow> get (fold (\<lambda>(k, v). put k v) es m) j =
     (case map_of (rev es) j of None \<Rightarrow> get m j | Some v \<Rightarrow> Some v)"
proof (induction es arbitrary: m)
  case Nil
  then show ?case by simp
next
  case (Cons e es)
  obtain k v where "e = (k, v)" by (cases e)
  with Cons show ?case
    by (auto simp: get_put wf_put map_add_def split: option.splits)
qed

lemma get_built:
  "get (fold (\<lambda>(k, v). put k v) es empty) j = map_of (rev es) j"
  by (simp add: get_put_all wf_empty get_empty split: option.splits)

end

section \<open>The sorted association list provides it\<close>

lemma kv_wf_Nil [simp]: "kv_wf []"
  by (simp add: kv_wf_def)

lemma kv_wf_Cons [simp]: "kv_wf (e # m) \<longleftrightarrow> (\<forall>k \<in> fst ` set m. fst e < k) \<and> kv_wf m"
  by (auto simp: kv_wf_def)

lemma keys_kv_put: "fst ` set (kv_put k v m) = insert k (fst ` set m)"
  by (induction m) auto

lemma kv_wf_put: "kv_wf m \<Longrightarrow> kv_wf (kv_put k v m)"
proof (induction m)
  case Nil
  then show ?case by simp
next
  case (Cons e m)
  show ?case
  proof (cases "fst e < k")
    case True
    with Cons show ?thesis by (auto simp: keys_kv_put)
  next
    case False
    with Cons show ?thesis by (auto simp: not_less dest: order.strict_trans1)
  qed
qed

lemma map_of_kv_put: "map_of (kv_put k v m) j = (if j = k then Some v else map_of m j)"
  by (induction m) auto

interpretation kv: string_map "[]" kv_put map_of kv_wf
  by unfold_locales (simp_all add: map_of_kv_put kv_wf_put)

text \<open>Assigning a key above all others appends, so re-inserting a sorted map rebuilds it.\<close>

lemma kv_put_append:
  "\<forall>j \<in> fst ` set m. j < k \<Longrightarrow> kv_put k v m = m @ [(k, v)]"
  by (induction m) auto

lemma kv_wf_append:
  "kv_wf (m @ n) \<longleftrightarrow> kv_wf m \<and> kv_wf n \<and> (\<forall>j \<in> fst ` set m. \<forall>k \<in> fst ` set n. j < k)"
  by (auto simp: kv_wf_def sorted_wrt_append)

lemma kv_rebuild_from:
  "kv_wf (m @ es) \<Longrightarrow> fold (\<lambda>(k, v). kv_put k v) es m = m @ es"
proof (induction es arbitrary: m)
  case Nil
  then show ?case by simp
next
  case (Cons e es)
  obtain k v where e: "e = (k, v)" by (cases e)
  from Cons.prems have "kv_put k v m = m @ [e]"
    unfolding e by (intro kv_put_append) (auto simp: kv_wf_append)
  with Cons show ?case by (simp add: e)
qed

lemma kv_rebuild: "kv_wf m \<Longrightarrow> fold (\<lambda>(k, v). kv_put k v) m [] = m"
  using kv_rebuild_from [of "[]" m] by simp

end
