(* ===== verification/Byte_Writer.thy ===== *)
theory Byte_Writer
  imports Ordered_Map
begin

text \<open>
  Class \<open>ByteWriter\<close> of \<open>common/codec.hpp\<close>: an append-only buffer with one operation per
  primitive of the wire format. Every operation appends the encoding of its argument
  (collection \<open>writer_simps\<close>); the encodings themselves (\<open>be16\<close>, \<open>be32\<close>, \<open>be64\<close>,
  \<open>enc_string\<close>, \<open>enc_kv\<close>) are what the reader theory inverts.
\<close>

named_theorems writer_simps "the bytes each write operation appends"

record ByteWriter =
  wbuf :: bytes

definition newWriter :: ByteWriter where
  "newWriter = \<lparr>wbuf = []\<rparr>"

definition push_back :: "u8 \<Rightarrow> ByteWriter \<Rightarrow> ByteWriter" where
  "push_back b w = w\<lparr>wbuf := wbuf w @ [b]\<rparr>"

definition writeU8 :: "u8 \<Rightarrow> ByteWriter \<Rightarrow> ByteWriter" where
  "writeU8 v w = push_back v w"

definition writeU16 :: "u16 \<Rightarrow> ByteWriter \<Rightarrow> ByteWriter" where
  "writeU16 v w = push_back (ucast (v AND 0xFF)) (push_back (ucast (drop_bit 8 v AND 0xFF)) w)"

definition writeU32 :: "u32 \<Rightarrow> ByteWriter \<Rightarrow> ByteWriter" where
  "writeU32 v w =
     (let w = push_back (ucast (drop_bit 24 v AND 0xFF)) w;
          w = push_back (ucast (drop_bit 16 v AND 0xFF)) w;
          w = push_back (ucast (drop_bit 8 v AND 0xFF)) w
      in push_back (ucast (v AND 0xFF)) w)"

definition writeI32 :: "i32 \<Rightarrow> ByteWriter \<Rightarrow> ByteWriter" where
  "writeI32 v w = writeU32 v w"

text \<open>\<open>v >> 32\<close> on the signed value is an arithmetic shift.\<close>

definition writeI64 :: "i64 \<Rightarrow> ByteWriter \<Rightarrow> ByteWriter" where
  "writeI64 v w =
     (let w = writeU32 (ucast (signed_drop_bit 32 v)) w
      in writeU32 (ucast (v AND 0xFFFFFFFF)) w)"

text \<open>\<open>static_cast<uint32_t>(s.size())\<close> truncates the size to 32 bits.\<close>

definition writeString :: "bytes \<Rightarrow> ByteWriter \<Rightarrow> ByteWriter" where
  "writeString s w =
     (let w = writeU32 (of_nat (length s)) w
      in w\<lparr>wbuf := wbuf w @ s\<rparr>)"

definition writeKV :: "kvmap \<Rightarrow> ByteWriter \<Rightarrow> ByteWriter" where
  "writeKV m w =
     fold (\<lambda>(k, v) w. writeString v (writeString k w)) m (writeU32 (of_nat (length m)) w)"

section \<open>What is appended\<close>

definition enc_string :: "bytes \<Rightarrow> bytes" where
  "enc_string s = be32 (of_nat (length s)) @ s"

definition enc_entry :: "bytes \<times> bytes \<Rightarrow> bytes" where
  "enc_entry e = enc_string (fst e) @ enc_string (snd e)"

definition enc_kv :: "kvmap \<Rightarrow> bytes" where
  "enc_kv m = be32 (of_nat (length m)) @ concat (map enc_entry m)"

lemma wbuf_newWriter [writer_simps]: "wbuf newWriter = []"
  by (simp add: newWriter_def)

lemma wbuf_writeU8 [writer_simps]: "wbuf (writeU8 v w) = wbuf w @ [v]"
  by (simp add: writeU8_def push_back_def)

lemma wbuf_writeU16 [writer_simps]: "wbuf (writeU16 v w) = wbuf w @ be16 v"
  by (simp add: writeU16_def push_back_def be16_def)

lemma wbuf_writeU32 [writer_simps]: "wbuf (writeU32 v w) = wbuf w @ be32 v"
  by (simp add: writeU32_def push_back_def be32_def Let_def)

lemma wbuf_writeI32 [writer_simps]: "wbuf (writeI32 v w) = wbuf w @ be32 v"
  by (simp add: writeI32_def wbuf_writeU32)

lemma wbuf_writeI64 [writer_simps]: "wbuf (writeI64 v w) = wbuf w @ be64 v"
  by (simp add: writeI64_def be64_def wbuf_writeU32 be_simps Let_def)

lemma wbuf_writeString [writer_simps]: "wbuf (writeString s w) = wbuf w @ enc_string s"
  by (simp add: writeString_def enc_string_def wbuf_writeU32 Let_def)

lemma wbuf_writeEntries:
  "wbuf (fold (\<lambda>(k, v) w. writeString v (writeString k w)) m w) = wbuf w @ concat (map enc_entry m)"
  by (induction m arbitrary: w) (auto simp: writer_simps enc_entry_def)

lemma wbuf_writeKV [writer_simps]: "wbuf (writeKV m w) = wbuf w @ enc_kv m"
  by (simp add: writeKV_def enc_kv_def wbuf_writeEntries wbuf_writeU32)

lemma length_enc_string [simp]: "length (enc_string s) = 4 + length s"
  by (simp add: enc_string_def)

lemma length_enc_entry: "8 \<le> length (enc_entry e)"
  by (simp add: enc_entry_def)

end
