(* ===== verification/Utf8.thy ===== *)
theory Utf8
  imports HWS_Prelude
begin

text \<open>
  \<open>isValidUtf8\<close> of \<open>common/codec.hpp\<close>: the index-based validator that \<open>ByteReader::readString\<close>
  runs on every string it reads. It is proved to read only inside its range and to accept
  exactly the encodings of sequences of Unicode scalar values (RFC 3629).
\<close>

section \<open>The code\<close>

text \<open>The three leading-byte tests: number of continuation bytes, initial code point, least code
  point that needs this length.\<close>

definition utf8_lead :: "u8 \<Rightarrow> (nat \<times> u32 \<times> u32) option" where
  "utf8_lead b0 =
     (if b0 AND 0xE0 = 0xC0 then Some (1, ucast (b0 AND 0x1F), 0x80)
      else if b0 AND 0xF0 = 0xE0 then Some (2, ucast (b0 AND 0x0F), 0x800)
      else if b0 AND 0xF8 = 0xF0 then Some (3, ucast (b0 AND 0x07), 0x10000)
      else None)"

text \<open>The inner \<open>for\<close> loop; \<open>None\<close> is its \<open>return false\<close>.\<close>

function utf8_cont :: "bytes \<Rightarrow> nat \<Rightarrow> nat \<Rightarrow> nat \<Rightarrow> u32 \<Rightarrow> u32 option res" where
  "utf8_cont data i extra k codepoint =
     (if k \<le> extra then
        bind_res (rd_at data (i + k)) (\<lambda>bk.
          if bk AND 0xC0 \<noteq> 0x80 then Inr None
          else utf8_cont data i extra (k + 1) (push_bit 6 codepoint OR ucast (bk AND 0x3F)))
      else Inr (Some codepoint))"
  by pat_completeness auto
termination
  by (relation "measure (\<lambda>(data, i, extra, k, cp). extra + 1 - k)") auto

function isValidUtf8_from :: "bytes \<Rightarrow> nat \<Rightarrow> nat \<Rightarrow> bool res" where
  "isValidUtf8_from data len i =
     (if i < len then
        bind_res (rd_at data i) (\<lambda>b0.
          if b0 \<le> 0x7F then isValidUtf8_from data len (i + 1)
          else case utf8_lead b0 of
            None \<Rightarrow> Inr False
          | Some (extra, codepoint, minCodepoint) \<Rightarrow>
              if len \<le> i + extra then Inr False
              else bind_res (utf8_cont data i extra 1 codepoint) (\<lambda>r.
                case r of
                  None \<Rightarrow> Inr False
                | Some cp \<Rightarrow>
                    if cp < minCodepoint \<or> cp > 0x10FFFF \<or> (cp \<ge> 0xD800 \<and> cp \<le> 0xDFFF)
                    then Inr False
                    else isValidUtf8_from data len (i + (extra + 1))))
      else Inr True)"
  by pat_completeness auto
termination
  by (relation "measure (\<lambda>(data, len, i). len - i)") auto

declare utf8_cont.simps [simp del] isValidUtf8_from.simps [simp del]

definition isValidUtf8 :: "bytes \<Rightarrow> nat \<Rightarrow> bool res" where
  "isValidUtf8 data len = isValidUtf8_from data len 0"

section \<open>The specification: RFC 3629\<close>

definition scalar_value :: "nat \<Rightarrow> bool" where
  "scalar_value c \<longleftrightarrow> c \<le> 0x10FFFF \<and> \<not> (0xD800 \<le> c \<and> c \<le> 0xDFFF)"

definition utf8_enc :: "nat \<Rightarrow> bytes" where
  "utf8_enc c =
     (if c < 0x80 then [of_nat c]
      else if c < 0x800 then [of_nat (0xC0 + c div 64), of_nat (0x80 + c mod 64)]
      else if c < 0x10000 then
        [of_nat (0xE0 + c div 4096), of_nat (0x80 + c div 64 mod 64), of_nat (0x80 + c mod 64)]
      else
        [of_nat (0xF0 + c div 262144), of_nat (0x80 + c div 4096 mod 64),
         of_nat (0x80 + c div 64 mod 64), of_nat (0x80 + c mod 64)])"

definition utf8_text :: "bytes \<Rightarrow> bool" where
  "utf8_text bs \<longleftrightarrow> (\<exists>cs. list_all scalar_value cs \<and> bs = concat (map utf8_enc cs))"

section \<open>Bit tests as arithmetic\<close>

lemma unat_and_mask: "unat ((w :: 'a::len word) AND mask k) = unat w mod 2 ^ k"
  by (simp only: take_bit_eq_mask [symmetric] unsigned_take_bit_eq take_bit_nat_def)

lemma and_not_mask_eq:
  "((b :: u8) AND NOT (mask k) = push_bit k c) \<longleftrightarrow> drop_bit k b = take_bit (8 - k) c"
proof -
  have eq: "b AND NOT (mask k) = push_bit k (drop_bit k b)"
    by (rule bit_word_eqI) (auto simp: bit_simps)
  have d: "drop_bit k (push_bit k x) = take_bit (8 - k) x" for x :: u8
    by (rule bit_word_eqI) (auto simp: bit_simps)
  have "push_bit k (take_bit (8 - k) x) = push_bit k x" for x :: u8
    by (rule bit_word_eqI) (auto simp: bit_simps)
  moreover have "take_bit (8 - k) (drop_bit k b) = drop_bit k b"
    by (rule bit_word_eqI) (auto simp: bit_simps dest: bit_imp_le_length)
  ultimately show ?thesis unfolding eq using d by metis
qed

lemma drop_bit_u8_eq:
  assumes "m < 256"
  shows "drop_bit k (b :: u8) = of_nat m \<longleftrightarrow> unat b div 2 ^ k = m"
proof -
  have "drop_bit k b = of_nat m \<longleftrightarrow> unat (drop_bit k b) = unat (of_nat m :: u8)"
    by (simp add: word_unat_eq_iff)
  also have "\<dots> \<longleftrightarrow> unat b div 2 ^ k = m"
    using assms by (simp add: unat_drop_bit_eq drop_bit_eq_div [of k "unat b"] unat_of_nat)
  finally show ?thesis .
qed

lemma high_masks:
  "(0xE0 :: u8) = NOT (mask 5)" "(0xF0 :: u8) = NOT (mask 4)"
  "(0xF8 :: u8) = NOT (mask 3)" "(0xC0 :: u8) = NOT (mask 6)"
  by (simp_all add: mask_numeral)

lemma utf8_byte_tests:
  "(b :: u8) AND 0xE0 = 0xC0 \<longleftrightarrow> unat b div 32 = 6"
  "b AND 0xF0 = 0xE0 \<longleftrightarrow> unat b div 16 = 14"
  "b AND 0xF8 = 0xF0 \<longleftrightarrow> unat b div 8 = 30"
  "b AND 0xC0 = 0x80 \<longleftrightarrow> unat b div 64 = 2"
  using and_not_mask_eq [of b 5 6, folded high_masks] drop_bit_u8_eq [of 6 5 b]
    and_not_mask_eq [of b 4 14, folded high_masks] drop_bit_u8_eq [of 14 4 b]
    and_not_mask_eq [of b 3 30, folded high_masks] drop_bit_u8_eq [of 30 3 b]
    and_not_mask_eq [of b 6 2, folded high_masks] drop_bit_u8_eq [of 2 6 b]
  by simp_all

lemma utf8_byte_values:
  "unat ((b :: u8) AND 0x1F) = unat b mod 32" "unat (b AND 0x0F) = unat b mod 16"
  "unat (b AND 0x07) = unat b mod 8" "unat (b AND 0x3F) = unat b mod 64"
  using unat_and_mask [of b 5] unat_and_mask [of b 4] unat_and_mask [of b 3] unat_and_mask [of b 6]
  by (simp_all add: mask_numeral)

lemma unat_ucast_u8_u32 [simp]: "unat (ucast (b :: u8) :: u32) = unat b"
proof -
  have "unat b < 2 ^ 32" using unsigned_less [of b, where 'a = nat] by simp
  then show ?thesis by (simp add: unsigned_ucast_eq take_bit_nat_eq_self)
qed

lemma unat_shift_or:
  assumes "unat (c :: u32) < 2 ^ 26" and "unat y < 64"
  shows "unat (push_bit 6 c OR y) = 64 * unat c + unat y"
proof -
  have y: "take_bit 6 y = y"
    using assms(2) by (simp add: word_unat_eq_iff unsigned_take_bit_eq take_bit_nat_eq_self)
  have "\<not> bit (push_bit 6 c) n \<or> \<not> bit y n" for n
    using y by (metis bit_push_bit_iff bit_take_bit_iff not_le)
  then have "push_bit 6 c OR y = push_bit 6 c + y"
    by (rule disjunctive_add [symmetric])
  moreover have "unat (push_bit 6 c) = 64 * unat c"
    using assms(1) by (simp add: push_bit_eq_mult unat_word_ariths)
  ultimately show ?thesis using assms by (simp add: unat_word_ariths)
qed

section \<open>The validator on lists and numbers\<close>

fun conts :: "bytes \<Rightarrow> nat \<Rightarrow> nat option" where
  "conts [] c = Some c"
| "conts (b # bs) c = (if unat b div 64 = 2 then conts bs (64 * c + unat b mod 64) else None)"

definition lead_nat :: "nat \<Rightarrow> (nat \<times> nat \<times> nat) option" where
  "lead_nat n =
     (if n div 32 = 6 then Some (1, n mod 32, 0x80)
      else if n div 16 = 14 then Some (2, n mod 16, 0x800)
      else if n div 8 = 30 then Some (3, n mod 8, 0x10000)
      else None)"

function utf8_ok :: "bytes \<Rightarrow> bool" where
  "utf8_ok [] = True"
| "utf8_ok (b # bs) =
     (if unat b < 128 then utf8_ok bs
      else case lead_nat (unat b) of
        None \<Rightarrow> False
      | Some (extra, c, mn) \<Rightarrow>
          extra \<le> length bs \<and>
          (case conts (take extra bs) c of
             None \<Rightarrow> False
           | Some c' \<Rightarrow> mn \<le> c' \<and> scalar_value c' \<and> utf8_ok (drop extra bs)))"
  by pat_completeness auto
termination
  by (relation "measure length") auto

lemma conts_bound: "conts bs c = Some c' \<Longrightarrow> c' < (c + 1) * 64 ^ length bs"
proof (induction bs c rule: conts.induct)
  case (1 c)
  then show ?case by simp
next
  case (2 b bs c)
  then have "c' < (64 * c + unat b mod 64 + 1) * 64 ^ length bs"
    by (simp split: if_splits)
  also have "\<dots> \<le> (64 * c + 64) * 64 ^ length bs"
    by (rule mult_right_mono) simp_all
  finally show ?case by (simp add: algebra_simps)
qed

lemma utf8_cont_conts:
  assumes "i + extra < length data" and "k \<le> extra + 1"
    and "(unat cp + 1) * 64 ^ (extra + 1 - k) \<le> 2 ^ 24"
  shows "utf8_cont data i extra k cp =
           Inr (map_option of_nat (conts (take (extra + 1 - k) (drop (i + k) data)) (unat cp)))"
  using assms
proof (induction data i extra k cp rule: utf8_cont.induct)
  case (1 data i extra k cp)
  show ?case
  proof (cases "k \<le> extra")
    case False
    with 1 have "extra + 1 - k = 0" by simp
    with False show ?thesis by (simp add: utf8_cont.simps [of data i extra k cp])
  next
    case True
    let ?b = "data ! (i + k)" and ?m = "extra + 1 - (k + 1)"
    let ?cp = "push_bit 6 cp OR ucast (?b AND 0x3F)"
    have len: "i + k < length data" using True "1.prems" by simp
    have m: "extra + 1 - k = Suc ?m" using True by simp
    have split: "take (extra + 1 - k) (drop (i + k) data)
        = ?b # take ?m (drop (i + (k + 1)) data)"
      using len m by (simp add: Cons_nth_drop_Suc [symmetric])
    have bound: "(64 * unat cp + 64) * 64 ^ ?m \<le> 2 ^ 24"
      using "1.prems"(3) unfolding m power_Suc by (simp add: algebra_simps)
    then have "64 * unat cp + 64 \<le> 2 ^ 24"
      by (rule order_trans [rotated]) simp
    then have cp': "unat ?cp = 64 * unat cp + unat ?b mod 64"
      by (subst unat_shift_or) (simp_all add: utf8_byte_values)
    have "(unat ?cp + 1) * 64 ^ ?m \<le> (64 * unat cp + 64) * 64 ^ ?m"
      unfolding cp' by (rule mult_right_mono) simp_all
    with bound have "(unat ?cp + 1) * 64 ^ ?m \<le> 2 ^ 24" by linarith
    then have "?b AND 0xC0 = 0x80 \<Longrightarrow> utf8_cont data i extra (k + 1) ?cp =
        Inr (map_option of_nat (conts (take ?m (drop (i + (k + 1)) data)) (unat ?cp)))"
      using "1.IH" [of ?b] True len "1.prems" by simp
    then show ?thesis
      unfolding split using True len
      by (subst utf8_cont.simps) (simp add: cp' utf8_byte_tests)
  qed
qed

lemma utf8_lead_nat:
  "utf8_lead b = map_option (\<lambda>(extra, c, mn). (extra, of_nat c, of_nat mn)) (lead_nat (unat b))"
proof -
  have *: "ucast x = (of_nat (unat x) :: u32)" for x :: u8
    by (simp add: word_unat_eq_iff unat_of_nat less_trans [OF unsigned_less])
  show ?thesis
    by (simp add: utf8_lead_def lead_nat_def utf8_byte_tests * utf8_byte_values)
qed

lemma lead_nat_bounds:
  "lead_nat n = Some (extra, c, mn) \<Longrightarrow>
     1 \<le> extra \<and> (c + 1) * 64 ^ extra \<le> 2 ^ 21 \<and> c < 2 ^ 21 \<and> mn \<le> 0x10000"
  by (auto simp: lead_nat_def split: if_splits)

lemma unat_of_nat_small: "n < 2 ^ 32 \<Longrightarrow> unat (of_nat n :: u32) = n"
  by (simp add: unat_of_nat)

lemma codepoint_checks:
  assumes "c < 2 ^ 21" and "mn \<le> 0x10000"
  shows "((of_nat c :: u32) < of_nat mn \<or> (of_nat c :: u32) > 0x10FFFF
            \<or> ((of_nat c :: u32) \<ge> 0xD800 \<and> (of_nat c :: u32) \<le> 0xDFFF))
         \<longleftrightarrow> \<not> (mn \<le> c \<and> scalar_value c)"
  using assms
  by (auto simp: word_less_nat_alt word_le_nat_alt unat_of_nat_small scalar_value_def)

text \<open>One multi-byte sequence: the branch of the loop after a leading byte.\<close>

lemma isValidUtf8_from_lead:
  assumes len: "len \<le> length data" and i: "i < len" and high: "\<not> unat (data ! i) < 128"
    and lead: "lead_nat (unat (data ! i)) = Some (extra, c, mn)"
  shows "isValidUtf8_from data len i =
    (if len \<le> i + extra then Inr False
     else case conts (take extra (drop (i + 1) data)) c of
       None \<Rightarrow> Inr False
     | Some c' \<Rightarrow> if mn \<le> c' \<and> scalar_value c' then isValidUtf8_from data len (i + (extra + 1))
                  else Inr False)"
proof (cases "len \<le> i + extra")
  case True
  with assms show ?thesis
    by (subst isValidUtf8_from.simps) (auto simp: word_le_nat_alt utf8_lead_nat)
next
  case False
  note b = lead_nat_bounds [OF lead]
  let ?cs = "take extra (drop (i + 1) data)"
  have cont: "utf8_cont data i extra 1 (of_nat c) = Inr (map_option of_nat (conts ?cs c))"
    using utf8_cont_conts [of i extra data 1 "of_nat c"] False b len
    by (simp add: unat_of_nat_small)
  have "length ?cs = extra" using False len by simp
  then have "conts ?cs c = Some c' \<Longrightarrow> c' < 2 ^ 21" for c'
    using conts_bound [of ?cs c c'] b by simp
  then have checks: "conts ?cs c = Some c' \<Longrightarrow>
      ((of_nat c' :: u32) < of_nat mn \<or> (of_nat c' :: u32) > 0x10FFFF
        \<or> ((of_nat c' :: u32) \<ge> 0xD800 \<and> (of_nat c' :: u32) \<le> 0xDFFF))
      \<longleftrightarrow> \<not> (mn \<le> c' \<and> scalar_value c')" for c'
    using codepoint_checks [of c' mn] b by blast
  show ?thesis
    by (subst isValidUtf8_from.simps)
      (use False i high len lead cont checks in
        \<open>auto simp: word_le_nat_alt utf8_lead_nat split: option.splits\<close>)
qed

lemma isValidUtf8_from_ok:
  assumes "len \<le> length data" and "i \<le> len"
  shows "isValidUtf8_from data len i = Inr (utf8_ok (drop i (take len data)))"
  using assms
proof (induction "len - i" arbitrary: i rule: less_induct)
  case less
  show ?case
  proof (cases "i < len")
    case False
    with less.prems show ?thesis by (subst isValidUtf8_from.simps) simp
  next
    case True
    let ?b = "data ! i"
    have rest: "drop i (take len data) = ?b # drop (i + 1) (take len data)"
      using True less.prems by (simp add: Cons_nth_drop_Suc [symmetric])
    have IH: "j \<le> len \<Longrightarrow> i < j \<Longrightarrow>
        isValidUtf8_from data len j = Inr (utf8_ok (drop j (take len data)))" for j
      using less True by simp
    consider (ascii) "unat ?b < 128" | (bad) "\<not> unat ?b < 128" "lead_nat (unat ?b) = None"
      | (lead) extra c mn where "\<not> unat ?b < 128" "lead_nat (unat ?b) = Some (extra, c, mn)"
      by (cases "lead_nat (unat ?b)") auto
    then show ?thesis
    proof cases
      case ascii
      with IH [of "i + 1"] True less.prems show ?thesis
        by (subst isValidUtf8_from.simps) (simp add: rest word_le_nat_alt)
    next
      case bad
      with True less.prems show ?thesis
        by (subst isValidUtf8_from.simps) (simp add: rest word_le_nat_alt utf8_lead_nat)
    next
      case lead
      have "\<not> len \<le> i + extra \<Longrightarrow>
          take extra (drop (i + 1) (take len data)) = take extra (drop (i + 1) data)"
        by (simp add: take_drop min_def)
      with lead True less.prems IH [of "i + (extra + 1)"] show ?thesis
        by (auto simp: isValidUtf8_from_lead [OF less.prems(1) True lead] rest
            add.commute [of i extra] split: option.splits)
    qed
  qed
qed

lemma isValidUtf8_ok: "len \<le> length data \<Longrightarrow> isValidUtf8 data len = Inr (utf8_ok (take len data))"
  by (simp add: isValidUtf8_def isValidUtf8_from_ok)

section \<open>Equivalence with the specification\<close>

lemma unat_of_nat_u8: "n < 256 \<Longrightarrow> unat (of_nat n :: u8) = n"
  by (simp add: unat_of_nat)

lemma u8_eq_of_nat: "unat (b :: u8) = n \<Longrightarrow> b = of_nat n"
  by auto

lemma at_block: "q < k \<Longrightarrow> (k * j + q) div k = j \<and> (k * j + q) mod k = (q :: nat)"
  by simp

lemma block_of: "n div k = j \<Longrightarrow> n = k * j + n mod (k :: nat)"
  using mult_div_mod_eq [of k n] by simp

lemma lead_nat_at:
  "q < 32 \<Longrightarrow> lead_nat (0xC0 + q) = Some (1, q, 0x80)"
  "q < 16 \<Longrightarrow> lead_nat (0xE0 + q) = Some (2, q, 0x800)"
  "q < 8 \<Longrightarrow> lead_nat (0xF0 + q) = Some (3, q, 0x10000)"
proof -
  have "q < 32 \<Longrightarrow> (0xC0 + q) div 32 = 6 \<and> (0xC0 + q) mod 32 = q"
    using at_block [of q 32 6] by simp
  then show "q < 32 \<Longrightarrow> lead_nat (0xC0 + q) = Some (1, q, 0x80)"
    by (simp add: lead_nat_def)
  have "q < 16 \<Longrightarrow> (0xE0 + q) div 32 = 7 \<and> (0xE0 + q) div 16 = 14 \<and> (0xE0 + q) mod 16 = q"
    using at_block [of q 16 14] at_block [of q 32 7] by simp
  then show "q < 16 \<Longrightarrow> lead_nat (0xE0 + q) = Some (2, q, 0x800)"
    by (simp add: lead_nat_def)
  have "q < 8 \<Longrightarrow> (0xF0 + q) div 32 = 7 \<and> (0xF0 + q) div 16 = 15 \<and> (0xF0 + q) div 8 = 30
      \<and> (0xF0 + q) mod 8 = q"
    using at_block [of q 8 30] at_block [of "q" 16 15] at_block [of "16 + q" 32 7] by simp
  then show "q < 8 \<Longrightarrow> lead_nat (0xF0 + q) = Some (3, q, 0x10000)"
    by (simp add: lead_nat_def)
qed

lemma lead_nat_SomeD:
  assumes "lead_nat n = Some (extra, c, mn)"
  shows "(extra = 1 \<and> n = 0xC0 + c \<and> c < 32 \<and> mn = 0x80)
       \<or> (extra = 2 \<and> n = 0xE0 + c \<and> c < 16 \<and> mn = 0x800)
       \<or> (extra = 3 \<and> n = 0xF0 + c \<and> c < 8 \<and> mn = 0x10000)"
proof -
  have "n div 32 = 6 \<Longrightarrow> n = 0xC0 + n mod 32" "n div 16 = 14 \<Longrightarrow> n = 0xE0 + n mod 16"
    "n div 8 = 30 \<Longrightarrow> n = 0xF0 + n mod 8"
    using block_of [of n 32 6] block_of [of n 16 14] block_of [of n 8 30] by simp_all
  with assms show ?thesis by (auto simp: lead_nat_def split: if_splits)
qed

lemma cont_nat: "r < 64 \<Longrightarrow> (0x80 + r) div 64 = 2 \<and> (0x80 + r) mod 64 = (r :: nat)"
  using at_block [of r 64 2] by simp

lemma unat_marked:
  "q < 32 \<Longrightarrow> unat (0xC0 + of_nat q :: u8) = 0xC0 + q"
  "q < 16 \<Longrightarrow> unat (0xE0 + of_nat q :: u8) = 0xE0 + q"
  "q < 8 \<Longrightarrow> unat (0xF0 + of_nat q :: u8) = 0xF0 + q"
  "q < 64 \<Longrightarrow> unat (0x80 + of_nat q :: u8) = 0x80 + q"
  using unat_of_nat_u8 [of "0xC0 + q"] unat_of_nat_u8 [of "0xE0 + q"]
    unat_of_nat_u8 [of "0xF0 + q"] unat_of_nat_u8 [of "0x80 + q"]
  by simp_all

lemma base64_div:
  "n div 4096 = n div 64 div (64 :: nat)" "n div 262144 = n div 64 div 64 div (64 :: nat)"
  by (simp_all add: div_mult2_eq [symmetric])

lemma utf8_ok_enc:
  assumes "scalar_value c"
  shows "utf8_ok (utf8_enc c @ bs) = utf8_ok bs"
proof -
  have c: "c \<le> 0x10FFFF" using assms by (simp add: scalar_value_def)
  have 31: "4096 * (c div 4096) + 64 * (c div 64 mod 64) + c mod 64 = c"
    using mult_div_mod_eq [of 64 "c div 64"] mult_div_mod_eq [of 64 c] unfolding base64_div
    by linarith
  have 41: "262144 * (c div 262144) + 4096 * (c div 4096 mod 64) + 64 * (c div 64 mod 64) + c mod 64 = c"
    using mult_div_mod_eq [of 64 "c div 64 div 64"] 31 unfolding base64_div by linarith
  consider "c < 0x80" | "0x80 \<le> c" "c < 0x800" | "0x800 \<le> c" "c < 0x10000" | "0x10000 \<le> c"
    by linarith
  then show ?thesis
  proof cases
    case 1
    then show ?thesis by (simp add: utf8_enc_def unat_of_nat_u8)
  next
    case 2
    then have "c div 64 < 32" by simp
    with 2 assms show ?thesis
      by (simp add: utf8_enc_def unat_marked lead_nat_at cont_nat)
  next
    case 3
    then have "c div 4096 < 16" by simp
    with 3 assms show ?thesis
      by (simp add: utf8_enc_def unat_marked lead_nat_at cont_nat 31 numeral_2_eq_2)
  next
    case 4
    then have "c div 262144 < 8" using c by simp
    with 4 assms show ?thesis
      by (simp add: utf8_enc_def unat_marked lead_nat_at cont_nat 41 numeral_3_eq_3)
  qed
qed

lemma conts_digits:
  assumes "conts xs c = Some c'"
  obtains rs where "xs = map (\<lambda>r. 0x80 + of_nat r) rs" "\<forall>r \<in> set rs. r < 64"
    "c' = foldl (\<lambda>a r. 64 * a + r) c rs"
  using assms
proof (induction xs c arbitrary: thesis rule: conts.induct)
  case (1 c)
  then show ?case by simp
next
  case (2 x xs c)
  let ?r = "unat x mod 64"
  from 2(3) have x: "unat x div 64 = 2" and cs: "conts xs (64 * c + ?r) = Some c'"
    by (auto split: if_splits)
  have "unat x = 0x80 + ?r" using x block_of [of "unat x" 64 2] by simp
  then have "x = 0x80 + of_nat ?r" using unat_marked(4) [of ?r] by (simp add: word_unat_eq_iff)
  moreover obtain rs where "xs = map (\<lambda>r. 0x80 + of_nat r) rs" "\<forall>r \<in> set rs. r < 64"
      "c' = foldl (\<lambda>a r. 64 * a + r) (64 * c + ?r) rs"
    using "2.IH" [OF x _ cs] by blast
  ultimately show ?case by (intro "2.prems"(1) [of "?r # rs"]) auto
qed

lemma utf8_enc_digits:
  "c < 32 \<Longrightarrow> r < 64 \<Longrightarrow> 0x80 \<le> 64 * c + r \<Longrightarrow>
     utf8_enc (64 * c + r) = [of_nat (0xC0 + c), of_nat (0x80 + r)]"
  "c < 16 \<Longrightarrow> r < 64 \<Longrightarrow> s < 64 \<Longrightarrow> 0x800 \<le> 64 * (64 * c + r) + s \<Longrightarrow>
     utf8_enc (64 * (64 * c + r) + s) = [of_nat (0xE0 + c), of_nat (0x80 + r), of_nat (0x80 + s)]"
  "c < 8 \<Longrightarrow> r < 64 \<Longrightarrow> s < 64 \<Longrightarrow> t < 64 \<Longrightarrow> 0x10000 \<le> 64 * (64 * (64 * c + r) + s) + t \<Longrightarrow>
     utf8_enc (64 * (64 * (64 * c + r) + s) + t) =
       [of_nat (0xF0 + c), of_nat (0x80 + r), of_nat (0x80 + s), of_nat (0x80 + t)]"
proof -
  have snoc: "b < 64 \<Longrightarrow> (64 * a + b) div 64 = a" "b < 64 \<Longrightarrow> (64 * a + b) mod 64 = b" for a b :: nat
    by simp_all
  show "c < 32 \<Longrightarrow> r < 64 \<Longrightarrow> 0x80 \<le> 64 * c + r \<Longrightarrow>
      utf8_enc (64 * c + r) = [of_nat (0xC0 + c), of_nat (0x80 + r)]"
    by (simp add: utf8_enc_def snoc)
  show "c < 16 \<Longrightarrow> r < 64 \<Longrightarrow> s < 64 \<Longrightarrow> 0x800 \<le> 64 * (64 * c + r) + s \<Longrightarrow>
      utf8_enc (64 * (64 * c + r) + s) = [of_nat (0xE0 + c), of_nat (0x80 + r), of_nat (0x80 + s)]"
    by (simp only: utf8_enc_def base64_div snoc) simp
  show "c < 8 \<Longrightarrow> r < 64 \<Longrightarrow> s < 64 \<Longrightarrow> t < 64 \<Longrightarrow> 0x10000 \<le> 64 * (64 * (64 * c + r) + s) + t \<Longrightarrow>
      utf8_enc (64 * (64 * (64 * c + r) + s) + t) =
       [of_nat (0xF0 + c), of_nat (0x80 + r), of_nat (0x80 + s), of_nat (0x80 + t)]"
    by (simp only: utf8_enc_def base64_div snoc) simp
qed

lemma utf8_enc_of_sequence:
  assumes "lead_nat (unat b) = Some (extra, c, mn)" and "extra \<le> length bs"
    and "conts (take extra bs) c = Some c'" and "mn \<le> c'"
  shows "b # take extra bs = utf8_enc c'"
proof -
  obtain rs where rs: "take extra bs = map (\<lambda>r. 0x80 + of_nat r) rs" "\<forall>r \<in> set rs. r < 64"
    "c' = foldl (\<lambda>a r. 64 * a + r) c rs"
    using conts_digits [OF assms(3)] by blast
  then have len: "length rs = extra"
    using assms(2) by (metis length_map length_take min.absorb2)
  consider (1) "extra = Suc 0" "unat b = 0xC0 + c" "c < 32" "mn = 0x80"
    | (2) "extra = Suc (Suc 0)" "unat b = 0xE0 + c" "c < 16" "mn = 0x800"
    | (3) "extra = Suc (Suc (Suc 0))" "unat b = 0xF0 + c" "c < 8" "mn = 0x10000"
    using lead_nat_SomeD [OF assms(1)] by fastforce
  then show ?thesis
  proof cases
    case 1
    with len obtain r where "rs = [r]" by (auto simp: length_Suc_conv)
    with 1 rs assms(4) show ?thesis
      using u8_eq_of_nat [OF 1(2)] by (simp add: utf8_enc_digits)
  next
    case 2
    with len obtain r s where "rs = [r, s]" by (auto simp: length_Suc_conv)
    with 2 rs assms(4) show ?thesis
      using u8_eq_of_nat [OF 2(2)] utf8_enc_digits(2) [of c r s] by simp
  next
    case 3
    with len obtain r s t where "rs = [r, s, t]" by (auto simp: length_Suc_conv)
    with 3 rs assms(4) show ?thesis
      using u8_eq_of_nat [OF 3(2)] utf8_enc_digits(3) [of c r s t] by simp
  qed
qed

lemma utf8_ok_text: "utf8_ok bs \<longleftrightarrow> utf8_text bs"
proof
  assume "utf8_ok bs"
  then show "utf8_text bs"
  proof (induction bs rule: utf8_ok.induct)
    case 1
    show ?case unfolding utf8_text_def by (rule exI [of _ "[]"]) simp
  next
    case (2 b bs)
    obtain c n where c: "scalar_value c" "b # take n bs = utf8_enc c" "utf8_text (drop n bs)"
    proof (cases "unat b < 128")
      case True
      with 2 have "scalar_value (unat b)" "b # take 0 bs = utf8_enc (unat b)" "utf8_text (drop 0 bs)"
        by (simp_all add: scalar_value_def utf8_enc_def)
      then show thesis by (rule that)
    next
      case False
      with "2.prems" obtain extra c mn c' where l: "lead_nat (unat b) = Some (extra, c, mn)"
        "extra \<le> length bs" "conts (take extra bs) c = Some c'" "mn \<le> c'" "scalar_value c'"
        "utf8_ok (drop extra bs)"
        by (auto split: option.splits)
      with "2.IH"(2) [OF False l(1) refl refl l(3)] have "utf8_text (drop extra bs)" by simp
      with l utf8_enc_of_sequence [OF l(1-4)] show thesis by (intro that) auto
    qed
    then obtain cs where "list_all scalar_value cs" "drop n bs = concat (map utf8_enc cs)"
      by (auto simp: utf8_text_def)
    with c have "list_all scalar_value (c # cs) \<and> b # bs = concat (map utf8_enc (c # cs))"
      by (simp flip: c(2)) (metis append_take_drop_id)
    then show ?case unfolding utf8_text_def by blast
  qed
next
  assume "utf8_text bs"
  then obtain cs where "list_all scalar_value cs" "bs = concat (map utf8_enc cs)"
    by (auto simp: utf8_text_def)
  then show "utf8_ok bs"
    by (induction cs arbitrary: bs) (auto simp: utf8_ok_enc)
qed

section \<open>Correctness\<close>

text \<open>C22: On any range inside its array the validator reads no byte outside that range, and answers
  true exactly when the bytes of the range are the UTF-8 encoding of a sequence of Unicode scalar
  values (no overlong form, no surrogate, nothing above 10FFFF).\<close>

theorem isValidUtf8_correct:
  "len \<le> length data \<Longrightarrow> isValidUtf8 data len = Inr (utf8_text (take len data))"
  by (simp add: isValidUtf8_ok utf8_ok_text)

theorem isValidUtf8_correct_witness:
  "isValidUtf8 [0x48, 0xC3, 0xA9, 0xFF] 3 = Inr True \<and> isValidUtf8 [0xC0, 0x80] 2 = Inr False"
proof -
  have "utf8_text [0x48, 0xC3, 0xA9]" and "\<not> utf8_text [0xC0, 0x80]"
    by (simp_all flip: utf8_ok_text add: lead_nat_def scalar_value_def)
  then show ?thesis
    using isValidUtf8_correct [of 3 "[0x48, 0xC3, 0xA9, 0xFF]"] isValidUtf8_correct [of 2 "[0xC0, 0x80]"]
    by (simp add: numeral_3_eq_3 numeral_2_eq_2)
qed

section \<open>Texts the programs send\<close>

lemma utf8_text_ascii: "\<forall>b \<in> set bs. unat b < 128 \<Longrightarrow> utf8_text bs"
proof -
  have "\<forall>b \<in> set bs. unat b < 128 \<Longrightarrow> utf8_ok bs" by (induction bs) auto
  then show "\<forall>b \<in> set bs. unat b < 128 \<Longrightarrow> utf8_text bs" by (simp add: utf8_ok_text)
qed

lemma utf8_text_append: "utf8_text xs \<Longrightarrow> utf8_text ys \<Longrightarrow> utf8_text (xs @ ys)"
  unfolding utf8_text_def by (metis concat_append list_all_append map_append)

lemma utf8_text_Nil [simp]: "utf8_text []"
  by (simp add: utf8_text_ascii)

end
