(* ===== verification/Byte_Reader.thy ===== *)
theory Byte_Reader
  imports Byte_Writer Utf8
begin

text \<open>
  Class \<open>ByteReader\<close> of \<open>common/codec.hpp\<close>: a position in a byte array, with one checked read
  operation per primitive of the wire format. Every operation takes the reader and returns either
  the exception it throws or its value and the advanced reader.

  Three groups of facts are proved of every operation: it stays inside the array whatever the
  bytes are (\<open>safe\<close>); it reads back what the corresponding write operation appended and stops
  right behind it (\<open>reads\<close>); what it consumed is an encoding of what it returned (\<open>sound\<close>).
  The locale \<open>wire_format\<close> is the contract of a reader with all three and gives the loops over
  elements; \<open>sized_format\<close> adds a least size and gives the counted sequences with their
  plausibility check; \<open>canonical_codec\<close> is the special case of a single encoding per value.
  They are interpreted on every primitive of the format.
\<close>

section \<open>The code\<close>

record ByteReader =
  rdata :: bytes
  rlen :: nat
  rpos :: nat

type_synonym 'a rd = "ByteReader \<Rightarrow> ('a \<times> ByteReader) res"

definition bind_rd :: "'a rd \<Rightarrow> ('a \<Rightarrow> 'b rd) \<Rightarrow> 'b rd" where
  "bind_rd m f = (\<lambda>r. bind_res (m r) (\<lambda>(x, r'). f x r'))"

definition return_rd :: "'a \<Rightarrow> 'a rd" where
  "return_rd x = (\<lambda>r. Inr (x, r))"

definition throw_rd :: "string \<Rightarrow> 'a rd" where
  "throw_rd msg = (\<lambda>r. Inl (RuntimeError msg))"

definition newReader :: "bytes \<Rightarrow> nat \<Rightarrow> ByteReader" where
  "newReader data len = \<lparr>rdata = data, rlen = len, rpos = 0\<rparr>"

text \<open>\<open>len_ - pos_\<close> on \<open>size_t\<close>.\<close>

definition remaining :: "ByteReader \<Rightarrow> nat" where
  "remaining r = (if rpos r \<le> rlen r then rlen r - rpos r else 2 ^ 64 + rlen r - rpos r)"

definition check :: "nat \<Rightarrow> unit rd" where
  "check n r =
     (if rlen r < size_add (rpos r) n then Inl (RuntimeError ''unexpected end of data'')
      else Inr ((), r))"

definition peek :: "nat \<Rightarrow> u8 rd" where
  "peek k r = bind_res (rd_at (rdata r) (rpos r + k)) (\<lambda>b. Inr (b, r))"

definition advance :: "nat \<Rightarrow> unit rd" where
  "advance n r = Inr ((), r\<lparr>rpos := size_add (rpos r) n\<rparr>)"

definition readU8 :: "u8 rd" where
  "readU8 =
     bind_rd (check 1) (\<lambda>_.
     bind_rd (peek 0) (\<lambda>b.
     bind_rd (advance 1) (\<lambda>_. return_rd b)))"

definition readU16 :: "u16 rd" where
  "readU16 =
     bind_rd (check 2) (\<lambda>_.
     bind_rd (peek 0) (\<lambda>a.
     bind_rd (peek 1) (\<lambda>b.
     bind_rd (advance 2) (\<lambda>_. return_rd (push_bit 8 (ucast a) OR ucast b)))))"

definition readU32 :: "u32 rd" where
  "readU32 =
     bind_rd (check 4) (\<lambda>_.
     bind_rd (peek 0) (\<lambda>a.
     bind_rd (peek 1) (\<lambda>b.
     bind_rd (peek 2) (\<lambda>c.
     bind_rd (peek 3) (\<lambda>d.
     bind_rd (advance 4) (\<lambda>_.
       return_rd (push_bit 24 (ucast a) OR push_bit 16 (ucast b) OR push_bit 8 (ucast c)
                  OR ucast d)))))))"

definition readI32 :: "i32 rd" where
  "readI32 = readU32"

definition readI64 :: "i64 rd" where
  "readI64 =
     bind_rd readU32 (\<lambda>hi.
     bind_rd readU32 (\<lambda>lo.
       return_rd (push_bit 32 (ucast hi) OR ucast lo)))"

text \<open>\<open>readString\<close> after its length field: the bounds check, the UTF-8 check and the copy.\<close>

definition readStringBody :: "u32 \<Rightarrow> bytes rd" where
  "readStringBody ln r =
     (if rlen r < size_add (rpos r) (unat ln) then Inl (RuntimeError ''string length exceeds data'')
      else bind_res (isValidUtf8 (drop (rpos r) (rdata r)) (unat ln)) (\<lambda>ok.
        if \<not> ok then Inl (RuntimeError ''string payload is not valid UTF-8'')
        else bind_res (rd_range (rdata r) (rpos r) (unat ln)) (\<lambda>s.
          Inr (s, r\<lparr>rpos := size_add (rpos r) (unat ln)\<rparr>))))"

definition readString :: "bytes rd" where
  "readString = bind_rd readU32 readStringBody"

text \<open>\<open>for (i = 0; i < n; i++) acc = body(acc)\<close>\<close>

fun for_rd :: "nat \<Rightarrow> ('a \<Rightarrow> 'a rd) \<Rightarrow> 'a \<Rightarrow> 'a rd" where
  "for_rd 0 body acc = return_rd acc"
| "for_rd (Suc n) body acc = bind_rd (body acc) (for_rd n body)"

definition readKV :: "kvmap rd" where
  "readKV =
     bind_rd readU32 (\<lambda>count r.
       if remaining r div 8 < unat count
       then Inl (RuntimeError ''kv count exceeds remaining payload'')
       else for_rd (unat count) (\<lambda>m.
              bind_rd readString (\<lambda>key.
              bind_rd readString (\<lambda>val. return_rd (kv_put key val m)))) [] r)"

section \<open>Readers and the bytes ahead\<close>

named_theorems rd_safe "operations that stay inside the array"
named_theorems rd_inverts "operations that invert a write operation"

text \<open>The invariant of the class: the position is inside the array, whose size is that of an object
  in memory.\<close>

definition reader_ok :: "ByteReader \<Rightarrow> bool" where
  "reader_ok r \<longleftrightarrow> rlen r = length (rdata r) \<and> rpos r \<le> rlen r \<and> rlen r < 2 ^ 63"

definition rest :: "ByteReader \<Rightarrow> bytes" where
  "rest r = drop (rpos r) (rdata r)"

definition skip :: "nat \<Rightarrow> ByteReader \<Rightarrow> ByteReader" where
  "skip n r = r\<lparr>rpos := rpos r + n\<rparr>"

lemma reader_ok_new: "length data < 2 ^ 63 \<Longrightarrow> reader_ok (newReader data (length data))"
  by (simp add: reader_ok_def newReader_def)

lemma rest_new [simp]: "rest (newReader data len) = data"
  by (simp add: rest_def newReader_def)

lemma length_rest: "reader_ok r \<Longrightarrow> length (rest r) = rlen r - rpos r"
  by (simp add: reader_ok_def rest_def)

lemma remaining_rest: "reader_ok r \<Longrightarrow> remaining r = length (rest r)"
  by (simp add: remaining_def length_rest) (simp add: reader_ok_def)

lemma skip_ok: "reader_ok r \<Longrightarrow> n \<le> length (rest r) \<Longrightarrow> reader_ok (skip n r)"
  by (auto simp: reader_ok_def skip_def rest_def)

lemma rest_skip [simp]: "rest (skip n r) = drop n (rest r)"
  by (simp add: rest_def skip_def add.commute)

lemma skip_simps [simp]: "rdata (skip n r) = rdata r" "rpos (skip n r) = rpos r + n"
  by (simp_all add: skip_def)

lemma check_rest:
  assumes "reader_ok r" and "n < 2 ^ 63"
  shows "check n r = (if length (rest r) < n then Inl (RuntimeError ''unexpected end of data'')
                      else Inr ((), r))"
proof -
  have "rpos r + n < 2 ^ 64" using assms by (simp add: reader_ok_def)
  with assms show ?thesis
    by (auto simp: check_def length_rest reader_ok_def)
qed

lemma peek_rest:
  "reader_ok r \<Longrightarrow> k < length (rest r) \<Longrightarrow> peek k r = Inr (rest r ! k, r)"
  by (simp add: peek_def rest_def reader_ok_def less_diff_conv add.commute)

lemma advance_rest:
  "reader_ok r \<Longrightarrow> n \<le> length (rest r) \<Longrightarrow> advance n r = Inr ((), skip n r)"
proof -
  assume *: "reader_ok r" "n \<le> length (rest r)"
  then have "rpos r + n < 2 ^ 64" by (auto simp: reader_ok_def rest_def)
  with * show ?thesis by (simp add: advance_def skip_def)
qed

lemmas rd_steps = bind_rd_def return_rd_def check_rest peek_rest advance_rest

lemma readU8_rest:
  "reader_ok r \<Longrightarrow> readU8 r =
     (if length (rest r) < 1 then Inl (RuntimeError ''unexpected end of data'')
      else Inr (rest r ! 0, skip 1 r))"
proof (cases "length (rest r) < 1")
  case False
  moreover from this have "rest r \<noteq> []" "Suc 0 \<le> length (rest r)" by (auto simp: Suc_le_eq)
  moreover assume "reader_ok r"
  ultimately show ?thesis by (simp add: readU8_def rd_steps)
qed (simp add: readU8_def rd_steps)

lemma readU16_rest:
  "reader_ok r \<Longrightarrow> readU16 r =
     (if length (rest r) < 2 then Inl (RuntimeError ''unexpected end of data'')
      else Inr (of_be16 (rest r ! 0) (rest r ! 1), skip 2 r))"
proof (cases "length (rest r) < 2")
  case False
  moreover from this have "rest r \<noteq> []" "Suc 0 \<le> length (rest r)" by (auto simp: Suc_le_eq)
  moreover assume "reader_ok r"
  ultimately show ?thesis by (simp add: readU16_def rd_steps of_be16_def)
qed (simp add: readU16_def rd_steps)

lemma readU32_rest:
  "reader_ok r \<Longrightarrow> readU32 r =
     (if length (rest r) < 4 then Inl (RuntimeError ''unexpected end of data'')
      else Inr (of_be32 (rest r ! 0) (rest r ! 1) (rest r ! 2) (rest r ! 3), skip 4 r))"
proof (cases "length (rest r) < 4")
  case False
  moreover from this have "rest r \<noteq> []" "Suc 0 \<le> length (rest r)" by (auto simp: Suc_le_eq)
  moreover assume "reader_ok r"
  ultimately show ?thesis by (simp add: readU32_def rd_steps of_be32_def)
qed (simp add: readU32_def rd_steps)

section \<open>Safety\<close>

text \<open>Never outside the array; the array itself is not changed and the position never moves back.\<close>

definition safe :: "'a rd \<Rightarrow> bool" where
  "safe m \<longleftrightarrow> (\<forall>r. reader_ok r \<longrightarrow>
     (case m r of
        Inl e \<Rightarrow> e \<noteq> OutOfBounds
      | Inr (x, r') \<Rightarrow> reader_ok r' \<and> rdata r' = rdata r \<and> rpos r \<le> rpos r'))"

lemma safeI:
  assumes "\<And>r. reader_ok r \<Longrightarrow> m r \<noteq> Inl OutOfBounds"
    and "\<And>r x r'. reader_ok r \<Longrightarrow> m r = Inr (x, r') \<Longrightarrow>
           reader_ok r' \<and> rdata r' = rdata r \<and> rpos r \<le> rpos r'"
  shows "safe m"
  unfolding safe_def
proof (intro allI impI)
  fix r
  assume r: "reader_ok r"
  show "case m r of Inl e \<Rightarrow> e \<noteq> OutOfBounds
      | Inr (x, r') \<Rightarrow> reader_ok r' \<and> rdata r' = rdata r \<and> rpos r \<le> rpos r'"
  proof (cases "m r")
    case (Inl e)
    with assms(1) [OF r] show ?thesis by simp
  next
    case (Inr p)
    with assms(2) [OF r, of "fst p" "snd p"] show ?thesis by (simp add: case_prod_beta)
  qed
qed

lemma safe_error: "safe m \<Longrightarrow> reader_ok r \<Longrightarrow> m r \<noteq> Inl OutOfBounds"
  unfolding safe_def by (auto split: sum.splits)

lemma safe_step:
  assumes "safe m" and "reader_ok r" and "m r = Inr (x, r')"
  shows "reader_ok r' \<and> rdata r' = rdata r \<and> rpos r \<le> rpos r'"
proof -
  from assms(1,2) have "case m r of Inl e \<Rightarrow> e \<noteq> OutOfBounds
      | Inr (x, r') \<Rightarrow> reader_ok r' \<and> rdata r' = rdata r \<and> rpos r \<le> rpos r'"
    unfolding safe_def by blast
  with assms(3) show ?thesis by simp
qed

lemma safe_return [rd_safe]: "safe (return_rd x)"
  by (rule safeI) (auto simp: return_rd_def)

lemma safe_bind [rd_safe]: "safe m \<Longrightarrow> (\<And>x. safe (f x)) \<Longrightarrow> safe (bind_rd m f)"
proof (rule safeI)
  fix r
  assume m: "safe m" and f: "\<And>x. safe (f x)" and r: "reader_ok r"
  show "bind_rd m f r \<noteq> Inl OutOfBounds"
  proof
    assume "bind_rd m f r = Inl OutOfBounds"
    then obtain x r1 where 1: "m r = Inr (x, r1)" and 2: "f x r1 = Inl OutOfBounds"
      using safe_error [OF m r] by (auto simp: bind_rd_def bind_res_eq_Inl)
    from safe_error [OF f, of r1 x] safe_step [OF m r 1] 2 show False by simp
  qed
  fix y r'
  assume "bind_rd m f r = Inr (y, r')"
  then obtain x r1 where 1: "m r = Inr (x, r1)" and 2: "f x r1 = Inr (y, r')"
    by (auto simp: bind_rd_def bind_res_eq_Inr)
  from safe_step [OF m r 1] safe_step [OF f _ 2]
  show "reader_ok r' \<and> rdata r' = rdata r \<and> rpos r \<le> rpos r'" by auto
qed

lemma safe_for [rd_safe]: "(\<And>acc. safe (body acc)) \<Longrightarrow> safe (for_rd n body acc)"
  by (induction n arbitrary: acc) (simp_all add: safe_return safe_bind)

lemma safe_readU8 [rd_safe]: "safe readU8"
  by (simp add: safe_def readU8_rest skip_ok Suc_le_eq)

lemma safe_readU16 [rd_safe]: "safe readU16"
  by (simp add: safe_def readU16_rest skip_ok Suc_le_eq)

lemma safe_readU32 [rd_safe]: "safe readU32"
  by (simp add: safe_def readU32_rest skip_ok Suc_le_eq)

lemma safe_readI32 [rd_safe]: "safe readI32"
  by (simp add: readI32_def rd_safe)

lemma safe_readI64 [rd_safe]: "safe readI64"
  unfolding readI64_def by (intro rd_safe)

lemma readStringBody_rest:
  assumes ok: "reader_ok r"
  shows "readStringBody ln r =
    (if length (rest r) < unat ln then Inl (RuntimeError ''string length exceeds data'')
     else if \<not> utf8_text (take (unat ln) (rest r))
     then Inl (RuntimeError ''string payload is not valid UTF-8'')
     else Inr (take (unat ln) (rest r), skip (unat ln) r))"
proof -
  have "unat ln < 2 ^ 32" using unsigned_less [of ln, where 'a = nat] by simp
  then have add: "size_add (rpos r) (unat ln) = rpos r + unat ln"
    using ok by (simp add: reader_ok_def)
  have more: "rlen r < rpos r + unat ln \<longleftrightarrow> length (rest r) < unat ln"
    using ok by (auto simp: reader_ok_def rest_def)
  have "unat ln \<le> length (rest r) \<Longrightarrow>
      rd_range (rdata r) (rpos r) (unat ln) = Inr (take (unat ln) (rest r))"
    using ok by (subst rd_range_inside) (auto simp: reader_ok_def rest_def add.commute)
  moreover have "unat ln \<le> length (rest r) \<Longrightarrow>
      isValidUtf8 (drop (rpos r) (rdata r)) (unat ln) = Inr (utf8_text (take (unat ln) (rest r)))"
    by (subst isValidUtf8_ok) (simp_all add: rest_def utf8_ok_text)
  ultimately show ?thesis
    by (simp add: readStringBody_def add more skip_def not_less)
qed

lemma safe_readString [rd_safe]: "safe readString"
proof -
  have "safe (readStringBody ln)" for ln
    by (rule safeI) (auto simp: readStringBody_rest not_less skip_ok split: if_splits)
  then show ?thesis unfolding readString_def by (intro rd_safe)
qed

lemma safe_guard [rd_safe]:
  "safe m \<Longrightarrow> safe (\<lambda>r. if P r then Inl (RuntimeError e) else m r)"
  by (intro safeI) (auto dest: safe_error safe_step split: if_splits)

lemma safe_readKV [rd_safe]: "safe readKV"
  unfolding readKV_def by (intro rd_safe)

section \<open>Reading back what was written\<close>

definition reads :: "'a rd \<Rightarrow> bytes \<Rightarrow> 'a \<Rightarrow> bool" where
  "reads m bs x \<longleftrightarrow> (\<forall>r ts. reader_ok r \<longrightarrow> rest r = bs @ ts \<longrightarrow>
     (\<exists>r'. m r = Inr (x, r') \<and> reader_ok r' \<and> rest r' = ts))"

lemma readsE:
  assumes "reads m bs x" and "reader_ok r" and "rest r = bs @ ts"
  obtains r' where "m r = Inr (x, r')" "reader_ok r'" "rest r' = ts"
  using assms unfolding reads_def by blast

lemma reads_return [rd_inverts]: "reads (return_rd x) [] x"
  by (simp add: reads_def return_rd_def)

lemma reads_bind:
  assumes "reads m bs x" and "reads (f x) cs y"
  shows "reads (bind_rd m f) (bs @ cs) y"
  unfolding reads_def
proof (intro allI impI)
  fix r ts
  assume r: "reader_ok r" "rest r = (bs @ cs) @ ts"
  then obtain r1 where 1: "m r = Inr (x, r1)" "reader_ok r1" "rest r1 = cs @ ts"
    using readsE [OF assms(1), of r "cs @ ts"] by auto
  then obtain r2 where "f x r1 = Inr (y, r2)" "reader_ok r2" "rest r2 = ts"
    using readsE [OF assms(2)] by blast
  with 1 show "\<exists>r'. bind_rd m f r = Inr (y, r') \<and> reader_ok r' \<and> rest r' = ts"
    by (simp add: bind_rd_def)
qed

lemma reads_skip:
  assumes "length bs = n"
    and "\<And>r ts. reader_ok r \<Longrightarrow> rest r = bs @ ts \<Longrightarrow> m r = Inr (x, skip n r)"
  shows "reads m bs x"
  unfolding reads_def
  by (metis append_eq_conv_conj assms length_append le_add1 rest_skip skip_ok)

lemma reads_U8 [rd_inverts]: "reads readU8 [b] b"
  by (rule reads_skip [where n = 1]) (simp_all add: readU8_rest)

lemma reads_U16 [rd_inverts]: "reads readU16 (be16 v) v"
  by (rule reads_skip [where n = 2]) (simp_all add: readU16_rest be16_def be_simps)

lemma reads_U32 [rd_inverts]: "reads readU32 (be32 v) v"
  by (rule reads_skip [where n = 4]) (simp_all add: readU32_rest be32_def be_simps)

lemma reads_I32 [rd_inverts]: "reads readI32 (be32 v) v"
  by (simp add: readI32_def reads_U32)

lemma reads_I64 [rd_inverts]: "reads readI64 (be64 v) v"
proof -
  have "reads readI64 (be32 (ucast (drop_bit 32 v)) @ be32 (ucast v) @ [])
      (push_bit 32 (ucast (ucast (drop_bit 32 v) :: u32)) OR ucast (ucast v :: u32))"
    unfolding readI64_def by (rule reads_bind, rule reads_U32)+ (rule reads_return)
  then show ?thesis by (simp add: be64_def be_simps)
qed

text \<open>The strings the format can carry.\<close>

definition string_ok :: "bytes \<Rightarrow> bool" where
  "string_ok s \<longleftrightarrow> length s < 2 ^ 32 \<and> utf8_text s"

lemma reads_String [rd_inverts]: "string_ok s \<Longrightarrow> reads readString (enc_string s) s"
  unfolding readString_def enc_string_def
proof (rule reads_bind, rule reads_U32)
  assume "string_ok s"
  then have n: "unat (of_nat (length s) :: u32) = length s" and "utf8_text s"
    by (simp_all add: string_ok_def unat_of_nat)
  then show "reads (readStringBody (of_nat (length s))) s s"
    by (intro reads_skip [where n = "length s"]) (simp_all add: readStringBody_rest)
qed

section \<open>What is accepted\<close>

text \<open>\<open>sound m S\<close>: every value the reader returns stands in relation \<open>S\<close> to the bytes it consumed.\<close>

definition sound :: "'a rd \<Rightarrow> ('a \<Rightarrow> bytes \<Rightarrow> bool) \<Rightarrow> bool" where
  "sound m S \<longleftrightarrow> (\<forall>r x r'. reader_ok r \<longrightarrow> m r = Inr (x, r') \<longrightarrow>
     reader_ok r' \<and> (\<exists>bs. S x bs \<and> rest r = bs @ rest r'))"

lemma soundE:
  assumes "sound m S" and "reader_ok r" and "m r = Inr (x, r')"
  obtains bs where "S x bs" "rest r = bs @ rest r'" "reader_ok r'"
  using assms unfolding sound_def by blast

lemma sound_return: "S x [] \<Longrightarrow> sound (return_rd x) S"
  by (simp add: sound_def return_rd_def)

lemma sound_bind:
  assumes "sound m S" and "\<And>x bs. S x bs \<Longrightarrow> sound (f x) (\<lambda>y cs. T y (bs @ cs))"
  shows "sound (bind_rd m f) T"
  unfolding sound_def
proof (intro allI impI)
  fix r y r'
  assume r: "reader_ok r" "bind_rd m f r = Inr (y, r')"
  then obtain x r1 where 1: "m r = Inr (x, r1)" and 2: "f x r1 = Inr (y, r')"
    by (auto simp: bind_rd_def bind_res_eq_Inr)
  obtain bs where bs: "S x bs" "rest r = bs @ rest r1" "reader_ok r1"
    using soundE [OF assms(1) r(1) 1] .
  obtain cs where "T y (bs @ cs)" "rest r1 = cs @ rest r'" "reader_ok r'"
    using soundE [OF assms(2) [OF bs(1)] bs(3) 2] .
  with bs show "reader_ok r' \<and> (\<exists>bs. T y bs \<and> rest r = bs @ rest r')" by auto
qed

lemma sound_weaken: "sound m S \<Longrightarrow> (\<And>x bs. S x bs \<Longrightarrow> T x bs) \<Longrightarrow> sound m T"
  unfolding sound_def by blast

section \<open>The contract of a reader\<close>

text \<open>A reader of a wire format \<open>S\<close>: it returns \<open>x\<close> from exactly the byte sequences \<open>S x\<close>.\<close>

locale wire_format =
  fixes dec :: "'a rd"
    and S :: "'a \<Rightarrow> bytes \<Rightarrow> bool"
  assumes dec_safe: "safe dec"
    and dec_reads: "S x bs \<Longrightarrow> reads dec bs x"
    and dec_sound: "sound dec S"
begin

lemma dec_iff:
  assumes "reader_ok r"
  shows "(\<exists>r'. dec r = Inr (x, r') \<and> rest r' = ts) \<longleftrightarrow> (\<exists>bs. S x bs \<and> rest r = bs @ ts)"
  using assms dec_sound dec_reads unfolding reads_def sound_def by metis

text \<open>A loop that decodes one element per round reads exactly the sequences of encodings.\<close>

lemma for_reads:
  "list_all2 S xs bss \<Longrightarrow>
     reads (for_rd (length xs) (\<lambda>acc. bind_rd dec (\<lambda>x. return_rd (f x acc))) acc)
       (concat bss) (fold f xs acc)"
proof (induction xs arbitrary: acc bss)
  case Nil
  then show ?case by (simp add: reads_return)
next
  case (Cons x xs)
  then obtain bs bss' where b: "bss = bs # bss'" "S x bs" "list_all2 S xs bss'"
    by (auto simp: list_all2_Cons1)
  then have "reads (bind_rd dec (\<lambda>x. return_rd (f x acc))) (bs @ []) (f x acc)"
    by (intro reads_bind [where x = x] reads_return dec_reads)
  with Cons.IH [OF b(3)] show ?case by (simp add: b reads_bind)
qed

lemma for_safe: "safe (for_rd n (\<lambda>acc. bind_rd dec (\<lambda>x. return_rd (f x acc))) acc)"
  by (intro rd_safe dec_safe)

lemma for_sound:
  "sound (for_rd n (\<lambda>acc. bind_rd dec (\<lambda>x. return_rd (f x acc))) acc)
     (\<lambda>y bs. \<exists>xs bss. length xs = n \<and> list_all2 S xs bss \<and> y = fold f xs acc \<and> bs = concat bss)"
proof (induction n arbitrary: acc)
  case 0
  then show ?case by (auto intro!: sound_return)
next
  case (Suc n)
  have round: "sound (bind_rd dec (\<lambda>x. return_rd (f x acc))) (\<lambda>z bs. \<exists>x. z = f x acc \<and> S x bs)"
    by (rule sound_bind [OF dec_sound]) (auto intro!: sound_return)
  show ?case unfolding for_rd.simps
  proof (rule sound_bind [OF round])
    fix z bs
    assume "\<exists>x. z = f x acc \<and> S x bs"
    then obtain x where x: "z = f x acc" "S x bs" by blast
    show "sound (for_rd n (\<lambda>acc. bind_rd dec (\<lambda>x. return_rd (f x acc))) z)
       (\<lambda>y cs. \<exists>xs bss. length xs = Suc n \<and> list_all2 S xs bss \<and> y = fold f xs acc \<and> bs @ cs = concat bss)"
    proof (rule sound_weaken [OF Suc.IH])
      fix y cs
      assume "\<exists>xs bss. length xs = n \<and> list_all2 S xs bss \<and> y = fold f xs z \<and> cs = concat bss"
      then obtain xs bss where "length xs = n" "list_all2 S xs bss" "y = fold f xs z" "cs = concat bss"
        by blast
      with x show "\<exists>xs bss. length xs = Suc n \<and> list_all2 S xs bss \<and> y = fold f xs acc \<and> bs @ cs = concat bss"
        by (intro exI [of _ "x # xs"] exI [of _ "bs # bss"]) simp
    qed
  qed
qed

end

text \<open>
  A count, the plausibility check of \<open>readKV\<close> and \<open>decodeMessage\<close> that every element takes at
  least \<open>k\<close> bytes, and the elements: the check rejects nothing that the format allows.
\<close>

definition counted :: "nat \<Rightarrow> string \<Rightarrow> 'a rd \<Rightarrow> ('a \<Rightarrow> 'b \<Rightarrow> 'b) \<Rightarrow> 'b \<Rightarrow> 'b rd" where
  "counted k e dec f acc =
     bind_rd readU32 (\<lambda>count r.
       if remaining r div k < unat count then Inl (RuntimeError e)
       else for_rd (unat count) (\<lambda>acc. bind_rd dec (\<lambda>x. return_rd (f x acc))) acc r)"

definition counted_bytes ::
    "('a \<Rightarrow> bytes \<Rightarrow> bool) \<Rightarrow> ('a \<Rightarrow> 'b \<Rightarrow> 'b) \<Rightarrow> 'b \<Rightarrow> 'b \<Rightarrow> bytes \<Rightarrow> bool" where
  "counted_bytes S f acc y bs \<longleftrightarrow>
     (\<exists>xs bss. length xs < 2 ^ 32 \<and> list_all2 S xs bss \<and> y = fold f xs acc
        \<and> bs = be32 (of_nat (length xs)) @ concat bss)"

lemma reads_guard:
  assumes "reads m bs x" and "\<And>r ts. reader_ok r \<Longrightarrow> rest r = bs @ ts \<Longrightarrow> \<not> P r"
  shows "reads (\<lambda>r. if P r then Inl e else m r) bs x"
  using assms unfolding reads_def by auto

lemma sound_guard: "sound m S \<Longrightarrow> sound (\<lambda>r. if P r then Inl e else m r) S"
  unfolding sound_def by simp

locale sized_format = wire_format +
  fixes k :: nat
  assumes size_pos: "0 < k"
    and min_size: "S x bs \<Longrightarrow> k \<le> length bs"
begin

lemma concat_size: "list_all2 S xs bss \<Longrightarrow> k * length xs \<le> length (concat bss)"
proof (induction xs bss rule: list_all2_induct)
  case (Cons x xs b bss)
  then show ?case using min_size [of x b] by simp
qed simp

lemma counted_reads:
  assumes "counted_bytes S f acc y bs"
  shows "reads (counted k e dec f acc) bs y"
proof -
  from assms obtain xs bss where xs: "length xs < 2 ^ 32" "list_all2 S xs bss" "y = fold f xs acc"
    and bs: "bs = be32 (of_nat (length xs)) @ concat bss"
    unfolding counted_bytes_def by blast
  have n: "unat (of_nat (length xs) :: u32) = length xs" using xs(1) by (simp add: unat_of_nat)
  have "\<not> remaining r div k < length xs" if "reader_ok r" "rest r = concat bss @ ts" for r ts
  proof -
    have "k * length xs \<le> remaining r" using that concat_size [OF xs(2)] by (simp add: remaining_rest)
    then show ?thesis using size_pos by (simp add: not_less less_eq_div_iff_mult_less_eq mult.commute)
  qed
  then have "reads (\<lambda>r. if remaining r div k < unat (of_nat (length xs) :: u32) then Inl (RuntimeError e)
      else for_rd (unat (of_nat (length xs) :: u32)) (\<lambda>acc. bind_rd dec (\<lambda>x. return_rd (f x acc))) acc r)
    (concat bss) y"
    unfolding n using for_reads [OF xs(2), of f acc] xs(3) by (intro reads_guard) simp_all
  then show ?thesis unfolding counted_def bs by (rule reads_bind [OF reads_U32])
qed

lemma counted_safe: "safe (counted k e dec f acc)"
  unfolding counted_def by (intro rd_safe dec_safe)

end

text \<open>Most readers accept nothing but the one encoding of the value.\<close>

locale canonical_codec =
  fixes enc :: "'a \<Rightarrow> bytes"
    and dec :: "'a rd"
    and wf :: "'a \<Rightarrow> bool"
  assumes enc_safe: "safe dec"
    and dec_enc: "wf x \<Longrightarrow> reads dec (enc x) x"
    and dec_canonical: "reader_ok r \<Longrightarrow> dec r = Inr (x, r') \<Longrightarrow> wf x \<and> rest r = enc x @ rest r'"

sublocale canonical_codec \<subseteq> wire_format dec "\<lambda>x bs. wf x \<and> bs = enc x"
proof unfold_locales
  show "safe dec" by (rule enc_safe)
  show "reads dec bs x" if "wf x \<and> bs = enc x" for x bs
    using that dec_enc by simp
  show "sound dec (\<lambda>x bs. wf x \<and> bs = enc x)"
    unfolding sound_def
    using dec_canonical safe_step [OF enc_safe] by blast
qed

lemma list4: "4 \<le> length xs \<Longrightarrow> xs = [xs ! 0, xs ! 1, xs ! 2, xs ! 3] @ drop 4 xs"
  by (auto simp: numeral_eq_Suc Suc_le_length_iff)

interpretation u8c: canonical_codec "\<lambda>b. [b]" readU8 "\<lambda>_. True"
proof unfold_locales
  show "safe readU8" by (rule rd_safe)
  show "reads readU8 [b] b" for b by (rule rd_inverts)
  show "reader_ok r \<Longrightarrow> readU8 r = Inr (x, r') \<Longrightarrow> True \<and> rest r = [x] @ rest r'" for r x r'
    by (cases "rest r") (auto simp: readU8_rest split: if_splits)
qed

interpretation u32c: canonical_codec be32 readU32 "\<lambda>_. True"
proof unfold_locales
  show "safe readU32" by (rule rd_safe)
  show "reads readU32 (be32 v) v" for v by (rule rd_inverts)
  show "reader_ok r \<Longrightarrow> readU32 r = Inr (x, r') \<Longrightarrow> True \<and> rest r = be32 x @ rest r'" for r x r'
    using list4 [of "rest r"] by (auto simp: readU32_rest be_simps split: if_splits)
qed

lemma list2: "2 \<le> length xs \<Longrightarrow> xs = [xs ! 0, xs ! 1] @ drop 2 xs"
  by (auto simp: numeral_eq_Suc Suc_le_length_iff)

interpretation u16c: canonical_codec be16 readU16 "\<lambda>_. True"
proof unfold_locales
  show "safe readU16" by (rule rd_safe)
  show "reads readU16 (be16 v) v" for v by (rule rd_inverts)
  show "reader_ok r \<Longrightarrow> readU16 r = Inr (x, r') \<Longrightarrow> True \<and> rest r = be16 x @ rest r'" for r x r'
    using list2 [of "rest r"] by (auto simp: readU16_rest be_simps split: if_splits)
qed

interpretation i32c: canonical_codec be32 readI32 "\<lambda>_. True"
  unfolding readI32_def by (rule u32c.canonical_codec_axioms)

interpretation i64c: canonical_codec be64 readI64 "\<lambda>_. True"
proof unfold_locales
  show "safe readI64" by (rule rd_safe)
  show "reads readI64 (be64 v) v" for v by (rule rd_inverts)
  fix r x r'
  assume r: "reader_ok r" and eq: "readI64 r = Inr (x, r')"
  then obtain hi lo r1 where 1: "readU32 r = Inr (hi, r1)" and 2: "readU32 r1 = Inr (lo, r')"
    and x: "x = push_bit 32 (ucast hi) OR ucast lo"
    by (auto simp: readI64_def bind_rd_def return_rd_def bind_res_eq_Inr)
  have "reader_ok r1" using safe_step [OF safe_readU32 r 1] by simp
  with r 1 2 show "True \<and> rest r = be64 x @ rest r'"
    using u32c.dec_canonical [OF r 1] u32c.dec_canonical [OF _ 2] by (simp add: x be64_join)
qed

interpretation strc: canonical_codec enc_string readString string_ok
proof unfold_locales
  show "safe readString" by (rule rd_safe)
  show "reads readString (enc_string s) s" if "string_ok s" for s
    using that by (rule rd_inverts)
  fix r s r'
  assume r: "reader_ok r" and eq: "readString r = Inr (s, r')"
  then obtain ln r1 where 1: "readU32 r = Inr (ln, r1)" and 2: "readStringBody ln r1 = Inr (s, r')"
    by (auto simp: readString_def bind_rd_def bind_res_eq_Inr)
  have "reader_ok r1" using safe_step [OF safe_readU32 r 1] by simp
  with 2 have s: "s = take (unat ln) (rest r1)" "unat ln \<le> length (rest r1)" "utf8_text s"
    and r': "rest r' = drop (unat ln) (rest r1)"
    by (auto simp: readStringBody_rest not_less split: if_splits)
  have "unat ln < 2 ^ 32" using unsigned_less [of ln, where 'a = nat] by simp
  with s u32c.dec_canonical [OF r 1] show "string_ok s \<and> rest r = enc_string s @ rest r'"
    by (simp add: string_ok_def enc_string_def r')
qed

section \<open>Counted sequences and maps\<close>

context sized_format
begin

lemma counted_sound: "sound (counted k e dec f acc) (counted_bytes S f acc)"
  unfolding counted_def
proof (rule sound_bind [OF u32c.dec_sound])
  fix n :: u32 and bs
  assume "True \<and> bs = be32 n"
  moreover have "unat n < 2 ^ 32" using unsigned_less [of n, where 'a = nat] by simp
  moreover have "of_nat (unat n) = n" by simp
  ultimately show "sound (\<lambda>r. if remaining r div k < unat n then Inl (RuntimeError e)
      else for_rd (unat n) (\<lambda>acc. bind_rd dec (\<lambda>x. return_rd (f x acc))) acc r)
    (\<lambda>y cs. counted_bytes S f acc y (bs @ cs))"
    by (intro sound_guard sound_weaken [OF for_sound]) (force simp: counted_bytes_def)
qed

end

definition readEntry :: "(bytes \<times> bytes) rd" where
  "readEntry = bind_rd readString (\<lambda>key. bind_rd readString (\<lambda>val. return_rd (key, val)))"

definition entry_ok :: "bytes \<times> bytes \<Rightarrow> bool" where
  "entry_ok e \<longleftrightarrow> string_ok (fst e) \<and> string_ok (snd e)"

lemma reads_Entry: "entry_ok e \<Longrightarrow> reads readEntry (enc_entry e) e"
proof -
  assume "entry_ok e"
  then have "reads readEntry (enc_string (fst e) @ enc_string (snd e) @ []) (fst e, snd e)"
    unfolding readEntry_def entry_ok_def
    by (intro reads_bind [where x = "fst e"] reads_bind [where x = "snd e"] reads_return reads_String)
      simp_all
  then show ?thesis by (simp add: enc_entry_def)
qed

lemma sound_Entry: "sound readEntry (\<lambda>e bs. entry_ok e \<and> bs = enc_entry e)"
  unfolding readEntry_def
  by (rule sound_bind [OF strc.dec_sound], rule sound_bind [OF strc.dec_sound], rule sound_return)
    (simp add: entry_ok_def enc_entry_def)

interpretation entryc: sized_format readEntry "\<lambda>e bs. entry_ok e \<and> bs = enc_entry e" 8
proof unfold_locales
  show "safe readEntry" unfolding readEntry_def by (intro rd_safe)
qed (auto simp: reads_Entry sound_Entry length_enc_entry)

lemma bind_rd_assoc: "bind_rd (bind_rd m f) g = bind_rd m (\<lambda>x. bind_rd (f x) g)"
  by (auto simp: bind_rd_def bind_res_def fun_eq_iff split: sum.splits)

lemma bind_rd_return: "bind_rd (return_rd x) f = f x"
  by (simp add: bind_rd_def return_rd_def)

lemma readKV_counted:
  "readKV = counted 8 ''kv count exceeds remaining payload'' readEntry (\<lambda>(k, v). kv_put k v) []"
  unfolding readKV_def counted_def readEntry_def bind_rd_assoc bind_rd_return prod.case ..

text \<open>The byte sequences of a map: any list of entries, of which the last one of a key counts.\<close>

abbreviation kv_bytes :: "kvmap \<Rightarrow> bytes \<Rightarrow> bool" where
  "kv_bytes \<equiv> counted_bytes (\<lambda>e bs. entry_ok e \<and> bs = enc_entry e) (\<lambda>(k, v). kv_put k v) []"

interpretation kvc: wire_format readKV kv_bytes
  unfolding readKV_counted
  by unfold_locales (rule entryc.counted_safe, erule entryc.counted_reads, rule entryc.counted_sound)

text \<open>The maps the format can carry, and the one encoding that \<open>writeKV\<close> gives them.\<close>

definition kv_ok :: "kvmap \<Rightarrow> bool" where
  "kv_ok m \<longleftrightarrow> kv_wf m \<and> length m < 2 ^ 32 \<and> list_all entry_ok m"

lemma list_all2_map_self: "list_all2 (\<lambda>x b. P x \<and> b = f x) xs (map f xs) \<longleftrightarrow> list_all P xs"
  by (induction xs) auto

lemma kv_bytes_enc: "kv_ok m \<Longrightarrow> kv_bytes m (enc_kv m)"
  unfolding counted_bytes_def kv_ok_def enc_kv_def
  by (intro exI [of _ m] exI [of _ "map enc_entry m"]) (simp add: list_all2_map_self kv_rebuild)

lemma kv_put_entries: "list_all p m \<Longrightarrow> p (k, v) \<Longrightarrow> list_all p (kv_put k v m)"
  by (induction m) auto

lemma length_kv_put: "length (kv_put k v m) \<le> Suc (length m)"
  by (induction m) auto

lemma fold_put_ok:
  "list_all p es \<Longrightarrow> kv_wf m \<Longrightarrow> list_all p m \<Longrightarrow>
     kv_wf (fold (\<lambda>(k, v). kv_put k v) es m) \<and> list_all p (fold (\<lambda>(k, v). kv_put k v) es m)
     \<and> length (fold (\<lambda>(k, v). kv_put k v) es m) \<le> length m + length es"
proof (induction es arbitrary: m)
  case (Cons e es)
  obtain k v where e: "e = (k, v)" by (cases e)
  have "kv_wf (kv_put k v m)" "list_all p (kv_put k v m)"
    using Cons.prems by (auto simp: e intro: kv_wf_put kv_put_entries)
  then show ?case using Cons length_kv_put [of k v m] by (fastforce simp: e)
qed simp

lemma kv_bytes_ok:
  assumes "kv_bytes m bs"
  shows "kv_ok m"
proof -
  obtain es bss where es: "length es < 2 ^ 32" "m = fold (\<lambda>(k, v). kv_put k v) es []"
    and "list_all2 (\<lambda>e bs. entry_ok e \<and> bs = enc_entry e) es bss"
    using assms unfolding counted_bytes_def by blast
  then have "list_all entry_ok es" by (auto simp: list_all2_conv_all_nth list_all_length)
  from fold_put_ok [OF this, of "[]"] es show ?thesis by (auto simp: kv_ok_def)
qed

end
