(* ===== verification/Frame_Codec.thy ===== *)
theory Frame_Codec
  imports Byte_Reader
begin

text \<open>
  The protocol constants and the frame codec of \<open>common/codec.hpp\<close>: \<open>encodeFrame\<close> puts the
  8-byte header of \<open>PROTOCOL.md\<close> section 2 before a payload, \<open>decodeFrame\<close> checks and strips it.
  \<open>decodeFrame\<close> is characterised completely: it succeeds exactly on the byte sequences of that
  layout, for any value of the flags byte, and every other input is rejected with the exception
  of the first check that fails.
\<close>

section \<open>Constants\<close>

definition PORT :: u16 where [hws_consts]: "PORT = 9898"
definition MAGIC :: u8 where [hws_consts]: "MAGIC = 0x48"
definition VERSION :: u8 where [hws_consts]: "VERSION = 0x01"
definition HEADER_LEN :: nat where [hws_consts]: "HEADER_LEN = 8"
definition SERVER_LANG :: bytes where "SERVER_LANG = str ''CPP''"
definition CLIENT_LANG :: bytes where "CLIENT_LANG = str ''CPP''"

definition MSG_HELLO :: u8 where [hws_consts]: "MSG_HELLO = 0x01"
definition MSG_BONJOUR :: u8 where [hws_consts]: "MSG_BONJOUR = 0x02"
definition MSG_ECHO_REQUEST :: u8 where [hws_consts]: "MSG_ECHO_REQUEST = 0x03"
definition MSG_ECHO_RESPONSE :: u8 where [hws_consts]: "MSG_ECHO_RESPONSE = 0x04"
definition MSG_KISS_REQUEST :: u8 where [hws_consts]: "MSG_KISS_REQUEST = 0x05"
definition MSG_KISS_RESPONSE :: u8 where [hws_consts]: "MSG_KISS_RESPONSE = 0x06"
definition MSG_PING :: u8 where [hws_consts]: "MSG_PING = 0x07"
definition MSG_PONG :: u8 where [hws_consts]: "MSG_PONG = 0x08"
definition MSG_TIME_NOTIFICATION :: u8 where [hws_consts]: "MSG_TIME_NOTIFICATION = 0x09"
definition MSG_RANDOM_NUMBER :: u8 where [hws_consts]: "MSG_RANDOM_NUMBER = 0x0A"
definition MSG_HASH_RESPONSE :: u8 where [hws_consts]: "MSG_HASH_RESPONSE = 0x0B"
definition MSG_DISCONNECT :: u8 where [hws_consts]: "MSG_DISCONNECT = 0x0C"
definition MSG_ERROR :: u8 where [hws_consts]: "MSG_ERROR = 0x7F"

definition ERR_DECODE :: i32 where [hws_consts]: "ERR_DECODE = 0x01"
definition ERR_UNKNOWN_MSG_TYPE :: i32 where [hws_consts]: "ERR_UNKNOWN_MSG_TYPE = 0x02"
definition ERR_TRUNCATED_PAYLOAD :: i32 where [hws_consts]: "ERR_TRUNCATED_PAYLOAD = 0x03"
definition ERR_BAD_MAGIC :: i32 where [hws_consts]: "ERR_BAD_MAGIC = 0x04"
definition ERR_BAD_VERSION :: i32 where [hws_consts]: "ERR_BAD_VERSION = 0x05"
definition ERR_SESSION_NOT_FOUND :: i32 where [hws_consts]: "ERR_SESSION_NOT_FOUND = 0x06"
definition ERR_INTERNAL :: i32 where [hws_consts]: "ERR_INTERNAL = 0x07"

definition PING_INTERVAL_MS :: nat where [hws_consts]: "PING_INTERVAL_MS = 1000"
definition SESSION_TIMEOUT_MS :: nat where [hws_consts]: "SESSION_TIMEOUT_MS = 60000"
definition TIME_INTERVAL_MS :: nat where [hws_consts]: "TIME_INTERVAL_MS = 5000"
definition RANDOM_INTERVAL_MS :: nat where [hws_consts]: "RANDOM_INTERVAL_MS = 5000"
definition KISS_INTERVAL_MS :: nat where [hws_consts]: "KISS_INTERVAL_MS = 5000"

section \<open>The code\<close>

record Frame =
  msgType :: u8
  payload :: bytes

text \<open>The buffer is allocated zeroed, the header written by index, the payload copied behind it.\<close>

definition encodeFrame :: "u8 \<Rightarrow> bytes \<Rightarrow> bytes" where
  "encodeFrame t p =
     (let buf = replicate (HEADER_LEN + length p) 0;
          buf = buf[0 := MAGIC, 1 := VERSION, 2 := t, 3 := 0];
          len = of_nat (length p) :: u32;
          buf = buf[4 := ucast (drop_bit 24 len AND 0xFF), 5 := ucast (drop_bit 16 len AND 0xFF),
                    6 := ucast (drop_bit 8 len AND 0xFF), 7 := ucast (len AND 0xFF)]
      in take HEADER_LEN buf @ p @ drop (HEADER_LEN + length p) buf)"

definition decodeFrame :: "bytes \<Rightarrow> nat \<Rightarrow> Frame res" where
  "decodeFrame data len =
     (if len < HEADER_LEN then Inl (RuntimeError (''frame too short: '' @ to_string (int len)))
      else bind_res (rd_at data 0) (\<lambda>b0.
        if b0 \<noteq> MAGIC then Inl (RuntimeError ''bad magic'')
        else bind_res (rd_at data 1) (\<lambda>b1.
          if b1 \<noteq> VERSION then Inl (RuntimeError ''bad version'')
          else bind_res (rd_at data 2) (\<lambda>t.
            bind_res (rd_at data 4) (\<lambda>a.
            bind_res (rd_at data 5) (\<lambda>b.
            bind_res (rd_at data 6) (\<lambda>c.
            bind_res (rd_at data 7) (\<lambda>d.
              let payloadLen = push_bit 24 (ucast a) OR push_bit 16 (ucast b)
                                 OR push_bit 8 (ucast c) OR ucast d :: u32
              in if unat payloadLen \<noteq> len - HEADER_LEN
                 then Inl (RuntimeError ''payload length mismatch'')
                 else bind_res (rd_range data HEADER_LEN (unat payloadLen)) (\<lambda>p.
                   Inr \<lparr>msgType = t, payload = p\<rparr>))))))))) "

section \<open>Layout\<close>

lemma encodeFrame_layout:
  "encodeFrame t p = [MAGIC, VERSION, t, 0] @ be32 (of_nat (length p)) @ p"
  by (simp add: encodeFrame_def Let_def HEADER_LEN_def be32_def numeral_eq_Suc)

lemma length_encodeFrame [simp]: "length (encodeFrame t p) = HEADER_LEN + length p"
  by (simp add: encodeFrame_layout HEADER_LEN_def)

lemma decodeFrame_checks:
  "decodeFrame data (length data) =
     (if length data < 8 then Inl (RuntimeError (''frame too short: '' @ to_string (int (length data))))
      else if data ! 0 \<noteq> MAGIC then Inl (RuntimeError ''bad magic'')
      else if data ! 1 \<noteq> VERSION then Inl (RuntimeError ''bad version'')
      else if unat (of_be32 (data ! 4) (data ! 5) (data ! 6) (data ! 7)) \<noteq> length data - 8
      then Inl (RuntimeError ''payload length mismatch'')
      else Inr \<lparr>msgType = data ! 2, payload = drop 8 data\<rparr>)"
proof (cases "length data < 8")
  case False
  then have "0 < length data" "1 < length data" "2 < length data" "4 < length data"
    "5 < length data" "6 < length data" "7 < length data" by linarith+
  with False show ?thesis
    by (simp add: decodeFrame_def HEADER_LEN_def Let_def of_be32_def [symmetric] del: length_greater_0_conv)
qed (simp add: decodeFrame_def HEADER_LEN_def)

lemma list8: "8 \<le> length xs \<Longrightarrow>
    xs = [xs ! 0, xs ! 1, xs ! 2, xs ! 3] @ [xs ! 4, xs ! 5, xs ! 6, xs ! 7] @ drop 8 xs"
  by (auto simp: numeral_eq_Suc Suc_le_length_iff)

lemma decodeFrame_layout:
  "decodeFrame data (length data) = Inr f \<longleftrightarrow>
     length (payload f) < 2 ^ 32 \<and>
     (\<exists>flags. data = [MAGIC, VERSION, msgType f, flags] @ be32 (of_nat (length (payload f))) @ payload f)"
  (is "?l \<longleftrightarrow> ?r")
proof
  assume ?l
  then have c: "\<not> length data < 8" "data ! 0 = MAGIC" "data ! 1 = VERSION"
    and n: "unat (of_be32 (data ! 4) (data ! 5) (data ! 6) (data ! 7)) = length data - 8"
    and f: "f = \<lparr>msgType = data ! 2, payload = drop 8 data\<rparr>"
    by (auto simp: decodeFrame_checks split: if_splits)
  let ?w = "of_be32 (data ! 4) (data ! 5) (data ! 6) (data ! 7)"
  have "be32 (of_nat (length (drop 8 data))) = [data ! 4, data ! 5, data ! 6, data ! 7]"
    unfolding length_drop n [symmetric] by (simp add: be_simps)
  moreover have "length (drop 8 data) < 2 ^ 32"
    using n unsigned_less [of ?w, where 'a = nat] by simp
  ultimately show ?r
    using c list8 [of data] by (auto simp: f)
next
  assume ?r
  then obtain flags where len: "length (payload f) < 2 ^ 32"
    and data: "data = [MAGIC, VERSION, msgType f, flags] @ be32 (of_nat (length (payload f))) @ payload f"
    by blast
  from len have "unat (of_nat (length (payload f)) :: u32) = length (payload f)"
    by (simp add: unat_of_nat)
  then show ?l
    unfolding decodeFrame_checks by (simp add: data be32_def be_simps)
qed

lemma decode_encodeFrame:
  "length p < 2 ^ 32 \<Longrightarrow>
     decodeFrame (encodeFrame t p) (length (encodeFrame t p)) = Inr \<lparr>msgType = t, payload = p\<rparr>"
  unfolding decodeFrame_layout encodeFrame_layout by simp

end
