(* ===== verification/Programs.thy ===== *)
theory Programs
  imports Ws_Sessions Frame_Codec
begin

text \<open>
  The two \<open>main\<close> functions over the system's calls: the port from the environment, the listening socket
  and the accept loop of the server, and the connection attempts of the client. The sessions they
  start are the transition systems of the server's and the client's session theories; here a session is only started.
\<close>

section \<open>The code\<close>

text \<open>\<open>atoi\<close>: blanks, a sign, digits. A number outside \<open>int\<close> is undefined behaviour (\<open>None\<close>).\<close>

definition isspace :: "u8 \<Rightarrow> bool" where
  "isspace c \<longleftrightarrow> c = 32 \<or> 9 \<le> c \<and> c \<le> 13"

fun atoi_digits :: "int \<Rightarrow> bytes \<Rightarrow> int" where
  "atoi_digits v [] = v"
| "atoi_digits v (c # cs) = (if 48 \<le> c \<and> c \<le> 57 then atoi_digits (10 * v + (uint c - 48)) cs else v)"

definition atoi :: "bytes \<Rightarrow> int option" where
  "atoi t =
     (let t = dropWhile isspace t;
          v = (case t of [] \<Rightarrow> 0
               | c # cs \<Rightarrow> if c = 45 then - atoi_digits 0 cs else if c = 43 then atoi_digits 0 cs else atoi_digits 0 t)
      in if - (2 ^ 31) \<le> v \<and> v < 2 ^ 31 then Some v else None)"

definition env_port :: "bytes option \<Rightarrow> u16 option" where
  "env_port portEnv =
     (case portEnv of
        None \<Rightarrow> Some PORT
      | Some t \<Rightarrow> map_option (\<lambda>v. if v > 0 then of_int v else PORT) (atoi t))"

text \<open>How far a program has come: undefined behaviour, an exception that nothing catches, its exit code, the
  sessions that the server has started, or the connection that the client talks over before it exits with 0.\<close>

datatype progress = Undefined | Uncaught cpp_error | Exit int | Serving "(int \<times> bytes) list" | Talking WSClient

text \<open>The first \<open>n\<close> rounds of \<open>while (true)\<close>: the sessions they start, by socket and user.\<close>

fun accept_loop :: "'s net \<Rightarrow> bytes \<Rightarrow> WSServer \<Rightarrow> nat \<Rightarrow> 's \<Rightarrow> (int \<times> bytes) list res \<times> 's" where
  "accept_loop net junk srv 0 s = (Inr [], s)"
| "accept_loop net junk srv (Suc n) s =
     (case server_accept net junk srv [] s of
        (Inl e, s) \<Rightarrow> (Inl e, s)
      | (Inr (clientSock, userId), s) \<Rightarrow>
          if clientSock = INVALID_SOCKET then accept_loop net junk srv n s
          else (case accept_loop net junk srv n s of
                  (Inl e, s) \<Rightarrow> (Inl e, s)
                | (Inr sessions, s) \<Rightarrow> (Inr ((clientSock, userId) # sessions), s)))"

definition server_main :: "'s net \<Rightarrow> bytes \<Rightarrow> nat \<Rightarrow> 's \<Rightarrow> progress \<times> 's" where
  "server_main net junk n s =
     (case env_port (net_getenv net (str ''WS_PORT'')) of
        None \<Rightarrow> (Undefined, s)
      | Some p \<Rightarrow>
          (case server_listen net p newWSServer s of (ok, server, s) \<Rightarrow>
             if \<not> ok then (Exit 1, s)
             else (case accept_loop net junk server n s of
                     (Inl e, s) \<Rightarrow> (Uncaught e, s)
                   | (Inr sessions, s) \<Rightarrow> (Serving sessions, s))))"

text \<open>\<open>tryConnect\<close> up to its first return: the user name with the time, and the handshake.\<close>

definition tryConnect :: "'s net \<Rightarrow> bytes \<Rightarrow> bytes \<Rightarrow> u16 \<Rightarrow> 's \<Rightarrow> (bool \<times> WSClient) res \<times> 's" where
  "tryConnect net junk host port s =
     (case net_now net s of (now, s) \<Rightarrow>
      client_connect net junk host port (str (''cpp-client-'' @ to_string (sint now))) newWSClient s)"

text \<open>The attempts that are left.\<close>

fun attempts :: "'s net \<Rightarrow> bytes \<Rightarrow> bytes \<Rightarrow> u16 \<Rightarrow> nat \<Rightarrow> 's \<Rightarrow> WSClient option res \<times> 's" where
  "attempts net junk host port 0 s = (Inr None, s)"
| "attempts net junk host port (Suc n) s =
     (case tryConnect net junk host port s of
        (Inl e, s) \<Rightarrow> (Inl e, s)
      | (Inr (ok, ws), s) \<Rightarrow> if ok then (Inr (Some ws), s) else attempts net junk host port n s)"

definition client_main :: "'s net \<Rightarrow> bytes \<Rightarrow> 's \<Rightarrow> progress \<times> 's" where
  "client_main net junk s =
     (let host = (case net_getenv net (str ''WS_SERVER'') of Some h \<Rightarrow> h | None \<Rightarrow> str ''127.0.0.1'')
      in case env_port (net_getenv net (str ''WS_PORT'')) of
           None \<Rightarrow> (Undefined, s)
         | Some p \<Rightarrow>
             (case attempts net junk host p 3 s of
                (Inl e, s) \<Rightarrow> (Uncaught e, s)
              | (Inr (Some ws), s) \<Rightarrow> (Talking ws, s)
              | (Inr None, s) \<Rightarrow> (Exit 1, s)))"

section \<open>The port\<close>

lemma atoi_digit:
  assumes "d < 10"
  shows "atoi_digits v (str [digit_char d] @ cs) = atoi_digits (10 * v + int d) cs"
proof -
  let ?c = "of_char (digit_char d) :: u8"
  have c: "unat ?c = 48 + d" using assms by (simp add: unat_of_char_u8 digit_char_def)
  then have "48 \<le> ?c \<and> ?c \<le> 57" "uint ?c = 48 + int d" using assms by (simp_all add: word_le_nat_alt uint_nat)
  then show ?thesis by (simp add: str_def)
qed

lemma atoi_dec: "atoi_digits v (str (dec_nat n) @ cs) = atoi_digits (10 ^ length (dec_nat n) * v + int n) cs"
proof (induction n arbitrary: v cs rule: dec_nat.induct)
  case (1 n)
  show ?case
  proof (cases "n < 10")
    case True
    then show ?thesis using atoi_digit [OF True] by (simp add: dec_nat.simps [of n])
  next
    case False
    have n: "10 * int (n div 10) + int (n mod 10) = int n" by (simp add: zdiv_int zmod_int)
    have "atoi_digits v (str (dec_nat n) @ cs) = atoi_digits v (str (dec_nat (n div 10)) @ str [digit_char (n mod 10)] @ cs)"
      using False by (simp add: dec_nat.simps [of n])
    also have "\<dots> = atoi_digits (10 * (10 ^ length (dec_nat (n div 10)) * v + int (n div 10)) + int (n mod 10)) cs"
      by (simp only: 1 [OF False] atoi_digit [of "n mod 10"] mod_less_divisor [of 10])
    also have "\<dots> = atoi_digits (10 ^ length (dec_nat n) * v + int n) cs"
      using False by (simp only: dec_nat.simps [of n] distrib_left add.assoc n if_False length_append list.size power_Suc mult.assoc add_0_right plus_1_eq_Suc add_Suc_right)
    finally show ?thesis .
  qed
qed

lemma dec_nat_start: "\<exists>c cs. str (dec_nat n) = c # cs \<and> c \<noteq> 43 \<and> c \<noteq> 45 \<and> \<not> isspace c"
proof -
  obtain x xs where x: "dec_nat n = x # xs" by (cases "dec_nat n") (auto simp: dec_nat.simps [of n] split: if_splits)
  then obtain d where "d < 10" "x = digit_char d" using dec_nat_digits [of x n] by auto
  then have "unat (of_char x :: u8) = 48 + d" by (simp add: unat_of_char_u8 digit_char_def)
  then have "of_char x \<noteq> (43 :: u8)" "of_char x \<noteq> (45 :: u8)" "\<not> isspace (of_char x)"
    by (auto simp: isspace_def word_le_nat_alt)
  then show ?thesis by (simp add: x str_def)
qed

lemma atoi_to_string: "n < 2 ^ 31 \<Longrightarrow> atoi (str (to_string (int n))) = Some (int n)"
proof -
  assume n: "n < 2 ^ 31"
  obtain c cs where c: "str (dec_nat n) = c # cs" "c \<noteq> 43" "c \<noteq> 45" "\<not> isspace c" using dec_nat_start by blast
  have "atoi_digits 0 (c # cs) = int n" using atoi_dec [of 0 n "[]"] c(1) by simp
  then have "atoi (c # cs) = Some (int n)" using c(2-4) n by (simp add: atoi_def Let_def del: atoi_digits.simps)
  then show ?thesis by (simp add: to_string_def c(1))
qed

section \<open>The sockets of the programs\<close>

context net_system
begin

lemma accept_loop_outcome:
  assumes "length junk = 64" and "accept_loop net junk srv n s = (r, s')"
  shows "\<exists>ss. r = Inr ss \<and> distinct (map fst ss) \<and> fst ` set ss \<inter> opened s = {} \<and> opened s' = fst ` set ss \<union> opened s
    \<and> list_all (\<lambda>(fd, u). fd \<noteq> INVALID_SOCKET \<and> userId_ok u) ss"
  using assms(2)
proof (induction n arbitrary: s r s')
  case (Suc n)
  obtain a s1 where a: "server_accept net junk srv [] s = (a, s1)" by fastforce
  obtain c u where c: "a = Inr (c, u)" "one_opened c (opened s) (opened s1)" "c \<noteq> INVALID_SOCKET \<longrightarrow> userId_ok u"
    using server_accept_outcome [OF assms(1) a] by auto
  obtain l s2 where l: "accept_loop net junk srv n s1 = (l, s2)" by fastforce
  then obtain ss where ss: "l = Inr ss" "distinct (map fst ss)" "fst ` set ss \<inter> opened s1 = {}" "opened s2 = fst ` set ss \<union> opened s1"
    "list_all (\<lambda>(fd, u). fd \<noteq> INVALID_SOCKET \<and> userId_ok u) ss"
    using Suc.IH by blast
  show ?case
  proof (cases "c = INVALID_SOCKET")
    case True
    then have "r = Inr ss" "s' = s2" "opened s1 = opened s" using Suc.prems a c l ss(1) by (simp_all add: one_opened_def)
    then show ?thesis using ss(2-5) by simp
  next
    case False
    then have "r = Inr ((c, u) # ss)" "s' = s2" using Suc.prems a c(1) l ss(1) by auto
    then show ?thesis using False c(2,3) ss(2-5) by (auto simp: one_opened_def)
  qed
qed simp

lemma attempts_outcome:
  assumes "length junk = 64" and "length (ws_path net) + length host < 2 ^ 29" and "attempts net junk host port n s = (r, s')"
  shows "\<exists>c. r = Inr c \<and> (case c of None \<Rightarrow> opened s' = opened s
     | Some ws \<Rightarrow> client_sock ws \<noteq> INVALID_SOCKET \<and> one_opened (client_sock ws) (opened s) (opened s'))"
  using assms(3)
proof (induction n arbitrary: s)
  case (Suc n)
  obtain t s0 where t: "net_now net s = (t, s0)" by fastforce
  let ?u = "str (''cpp-client-'' @ to_string (sint t))"
  obtain a s1 where a: "client_connect net junk host port ?u newWSClient s0 = (a, s1)" by fastforce
  have "length ?u \<le> 31" using length_to_string_i64 [of t] by simp
  then have small: "length (ws_path net) + length host + length ?u < 2 ^ 30" using assms(2) by simp
  obtain ok fd where ok: "a = Inr (ok, newWSClient\<lparr>client_sock := fd\<rparr>)" "one_opened fd (opened s0) (opened s1)" "ok \<longleftrightarrow> fd \<noteq> INVALID_SOCKET"
    using client_connect_outcome [OF assms(1) small a] by blast
  have o: "opened s0 = opened s" using now_silent [OF t] by simp
  show ?case
  proof (cases ok)
    case True
    then show ?thesis using Suc.prems t a ok o by (auto simp: tryConnect_def one_opened_def)
  next
    case False
    then have at: "attempts net junk host port n s1 = (r, s')" and eq: "opened s1 = opened s"
      using Suc.prems t a ok o by (auto simp: tryConnect_def one_opened_def)
    show ?thesis using Suc.IH [OF at] unfolding eq .
  qed
qed auto

end

section \<open>Properties\<close>

text \<open>C38: \<open>WS_PORT\<close> with the decimal text of a positive number of type \<open>int\<close> selects the port that the number is
  modulo 65536: every port is reached by its number, and a larger number is cut off without a diagnosis.\<close>

theorem env_port_decimal:
  assumes "0 < n" and "n < 2 ^ 31"
  shows "env_port (Some (str (to_string (int n)))) = Some (of_nat (n mod 65536))"
  using atoi_to_string [OF assms(2)] assms(1) by (simp add: env_port_def word_of_nat_eq_iff take_bit_eq_mod)

theorem env_port_decimal_witness: "env_port (Some (str (to_string (int 75434)))) = Some PORT"
  using env_port_decimal [of 75434] by (simp add: PORT_def)

text \<open>C36: the server's main function leaks no descriptor: it exits with 1 and nothing open when it cannot listen, and after
  any number of rounds of its loop it holds the listening socket and the sockets of the sessions it has started, all
  different and with acceptable user names (if no session has ended yet). No exception leaves the loop.\<close>

theorem server_main_safe:
  assumes "net_system net input sent opened" and "length junk = 64" and "server_main net junk n s = (r, s')"
  shows "(r = Undefined \<or> r = Exit 1) \<and> opened s' = opened s
    \<or> (\<exists>l ss. r = Serving ss \<and> distinct (l # map fst ss) \<and> set (l # map fst ss) \<inter> opened s = {}
         \<and> opened s' = set (l # map fst ss) \<union> opened s \<and> list_all (\<lambda>(fd, u). fd \<noteq> INVALID_SOCKET \<and> userId_ok u) ss)"
proof (cases "env_port (net_getenv net (str ''WS_PORT''))")
  case None
  then show ?thesis using assms(3) by (simp add: server_main_def)
next
  case (Some p)
  obtain ok srv s1 where l: "server_listen net p newWSServer s = (ok, srv, s1)" by (metis prod_cases3)
  note one = net_system.server_listen_outcome [OF assms(1) l]
  obtain a s2 where a: "accept_loop net junk srv n s1 = (a, s2)" by fastforce
  obtain ss where ss: "a = Inr ss" "distinct (map fst ss)" "fst ` set ss \<inter> opened s1 = {}" "opened s2 = fst ` set ss \<union> opened s1"
    "list_all (\<lambda>(fd, u). fd \<noteq> INVALID_SOCKET \<and> userId_ok u) ss"
    using net_system.accept_loop_outcome [OF assms(1,2) a] by blast
  show ?thesis
  proof (cases ok)
    case True
    then have r: "r = Serving ss" "s' = s2" using assms(3) Some l a ss(1) by (simp_all add: server_main_def)
    then show ?thesis using True one ss(2-5) by (intro disjI2 exI [of _ "listenSock srv"] exI [of _ ss]) (auto simp: one_opened_def)
  next
    case False
    then show ?thesis using assms(3) Some l one by (simp add: server_main_def one_opened_def)
  qed
qed

theorem server_main_safe_witness:
  "\<exists>r s'. server_main demo_net demo_junk 2 (demo_host demo_request) = (r, s')
    \<and> ((r = Undefined \<or> r = Exit 1) \<and> sn_open s' = []
      \<or> (\<exists>l ss. r = Serving ss \<and> distinct (l # map fst ss) \<and> set (sn_open s') = set (l # map fst ss)))"
proof -
  obtain r s' where r: "server_main demo_net demo_junk 2 (demo_host demo_request) = (r, s')" by fastforce
  from server_main_safe [OF sn.net_system_axioms _ r] r show ?thesis by (auto simp: demo_host_def)
qed

text \<open>C37: the client's main function exits with 1 and no open socket after three failed attempts, or talks over
  exactly one socket, the one of the attempt that succeeded. No exception leaves it.\<close>

theorem client_main_safe:
  assumes "net_system net input sent opened" and "length junk = 64" and "length (ws_path net) < 2 ^ 28"
    and "\<forall>h. net_getenv net (str ''WS_SERVER'') = Some h \<longrightarrow> length h < 2 ^ 28"
    and "client_main net junk s = (r, s')"
  shows "(r = Undefined \<or> r = Exit 1) \<and> opened s' = opened s
    \<or> (\<exists>ws. r = Talking ws \<and> client_sock ws \<noteq> INVALID_SOCKET \<and> one_opened (client_sock ws) (opened s) (opened s'))"
proof (cases "env_port (net_getenv net (str ''WS_PORT''))")
  case None
  then show ?thesis using assms(5) by (simp add: client_main_def Let_def)
next
  case (Some p)
  let ?host = "case net_getenv net (str ''WS_SERVER'') of Some h \<Rightarrow> h | None \<Rightarrow> str ''127.0.0.1''"
  obtain a s1 where a: "attempts net junk ?host p 3 s = (a, s1)" by fastforce
  have "length ?host < 2 ^ 28" using assms(4) by (auto split: option.split)
  then have "length (ws_path net) + length ?host < 2 ^ 29" using assms(3) by simp
  from net_system.attempts_outcome [OF assms(1,2) this a] obtain c where "a = Inr c" "case c of None \<Rightarrow> opened s1 = opened s
     | Some ws \<Rightarrow> client_sock ws \<noteq> INVALID_SOCKET \<and> one_opened (client_sock ws) (opened s) (opened s1)" by blast
  then show ?thesis using assms(5) Some a
    by (cases c) (auto simp: client_main_def Let_def simp del: attempts.simps str_simps)
qed

theorem client_main_safe_witness:
  "\<exists>r s'. client_main demo_net demo_junk (demo_host []) = (r, s')
    \<and> ((r = Undefined \<or> r = Exit 1) \<and> sn_open s' = [] \<or> (\<exists>ws. r = Talking ws \<and> set (sn_open s') = {client_sock ws}))"
proof -
  obtain r s' where r: "client_main demo_net demo_junk (demo_host []) = (r, s')" by fastforce
  have e: "length (ws_path demo_net) < 2 ^ 28" "\<forall>h. net_getenv demo_net (str ''WS_SERVER'') = Some h \<longrightarrow> length h < 2 ^ 28"
    by (simp_all add: ws_path_def seg_system_def)
  from client_main_safe [OF sn.net_system_axioms _ e r] r show ?thesis by (auto simp: demo_host_def one_opened_def)
qed

end
