(* ===== verification/Message_Codec.thy ===== *)
theory Message_Codec
  imports Frame_Codec
begin

text \<open>
  The thirteen messages of the protocol: \<open>struct Message\<close> with \<open>Message::encode\<close> and
  \<open>decodeMessage\<close> of \<open>common/codec.hpp\<close>. The record has one field per member of the struct;
  \<open>zeroMessage\<close> is the value-initialised \<open>Message m{}\<close>.
\<close>

section \<open>The code\<close>

record EchoResult =
  idx :: i64
  rtype :: u8
  kv :: kvmap

record Message =
  mtype :: u8
  clientLanguage :: bytes
  serverLanguage :: bytes
  echoId :: i64
  echoMeta :: bytes
  echoData :: bytes
  echoStatus :: i32
  echoResults :: "EchoResult list"
  osName :: bytes
  osVersion :: bytes
  osRelease :: bytes
  osArch :: bytes
  kissLanguage :: bytes
  kissEncoding :: bytes
  kissTimeZone :: bytes
  timestampMs :: i64
  iso8601 :: bytes
  randomId :: i64
  randomNumber :: i64
  hashHex :: bytes
  disconnectReason :: bytes
  errorCode :: i32
  errorMessage :: bytes

definition zeroMessage :: Message where
  "zeroMessage = \<lparr>mtype = 0, clientLanguage = [], serverLanguage = [], echoId = 0, echoMeta = [],
     echoData = [], echoStatus = 0, echoResults = [], osName = [], osVersion = [], osRelease = [],
     osArch = [], kissLanguage = [], kissEncoding = [], kissTimeZone = [], timestampMs = 0,
     iso8601 = [], randomId = 0, randomNumber = 0, hashHex = [], disconnectReason = [],
     errorCode = 0, errorMessage = []\<rparr>"

definition writeResult :: "EchoResult \<Rightarrow> ByteWriter \<Rightarrow> ByteWriter" where
  "writeResult r w =
     (let w = writeI64 (idx r) w; w = writeU8 (rtype r) w in writeKV (kv r) w)"

definition encode :: "Message \<Rightarrow> bytes res" where
  "encode m =
     (let w = newWriter in
      if mtype m = MSG_HELLO
      then Inr (encodeFrame MSG_HELLO (wbuf
              (writeString (clientLanguage m) w)))
      else if mtype m = MSG_BONJOUR
      then Inr (encodeFrame MSG_BONJOUR (wbuf
              (writeString (serverLanguage m) w)))
      else if mtype m = MSG_ECHO_REQUEST
      then Inr (encodeFrame MSG_ECHO_REQUEST (wbuf
              (let w = writeI64 (echoId m) w;
                   w = writeString (echoMeta m) w
               in writeString (echoData m) w)))
      else if mtype m = MSG_ECHO_RESPONSE
      then Inr (encodeFrame MSG_ECHO_RESPONSE (wbuf
              (let w = writeI32 (echoStatus m) w;
                   w = writeU32 (of_nat (length (echoResults m))) w
               in fold writeResult (echoResults m) w)))
      else if mtype m = MSG_KISS_REQUEST
      then Inr (encodeFrame MSG_KISS_REQUEST (wbuf
              (let w = writeString (osName m) w;
                   w = writeString (osVersion m) w;
                   w = writeString (osRelease m) w
               in writeString (osArch m) w)))
      else if mtype m = MSG_KISS_RESPONSE
      then Inr (encodeFrame MSG_KISS_RESPONSE (wbuf
              (let w = writeString (kissLanguage m) w;
                   w = writeString (kissEncoding m) w
               in writeString (kissTimeZone m) w)))
      else if mtype m = MSG_PING
      then Inr (encodeFrame MSG_PING (wbuf
              (writeI64 (timestampMs m) w)))
      else if mtype m = MSG_PONG
      then Inr (encodeFrame MSG_PONG (wbuf
              (writeI64 (timestampMs m) w)))
      else if mtype m = MSG_TIME_NOTIFICATION
      then Inr (encodeFrame MSG_TIME_NOTIFICATION (wbuf
              (let w = writeI64 (timestampMs m) w
               in writeString (iso8601 m) w)))
      else if mtype m = MSG_RANDOM_NUMBER
      then Inr (encodeFrame MSG_RANDOM_NUMBER (wbuf
              (let w = writeI64 (randomId m) w
               in writeI64 (randomNumber m) w)))
      else if mtype m = MSG_HASH_RESPONSE
      then Inr (encodeFrame MSG_HASH_RESPONSE (wbuf
              (let w = writeI64 (randomId m) w
               in writeString (hashHex m) w)))
      else if mtype m = MSG_DISCONNECT
      then Inr (encodeFrame MSG_DISCONNECT (wbuf
              (writeString (disconnectReason m) w)))
      else if mtype m = MSG_ERROR
      then Inr (encodeFrame MSG_ERROR (wbuf
              (let w = writeI32 (errorCode m) w
               in writeString (errorMessage m) w)))
      else Inl (RuntimeError ''unknown message type''))"

text \<open>The \<open>switch\<close> of \<open>decodeMessage\<close>, on the message that holds the frame's type.\<close>

definition decodeBody :: "Message \<Rightarrow> Message rd" where
  "decodeBody m =
    (if mtype m = MSG_HELLO then
      bind_rd readString (\<lambda>x1.
      return_rd (m\<lparr>clientLanguage := x1\<rparr>))
    else if mtype m = MSG_BONJOUR then
      bind_rd readString (\<lambda>x1.
      return_rd (m\<lparr>serverLanguage := x1\<rparr>))
    else if mtype m = MSG_ECHO_REQUEST then
      bind_rd readI64 (\<lambda>x1.
      bind_rd readString (\<lambda>x2.
      bind_rd readString (\<lambda>x3.
      return_rd (m\<lparr>echoId := x1, echoMeta := x2, echoData := x3\<rparr>))))
    else if mtype m = MSG_ECHO_RESPONSE then
      bind_rd readI32 (\<lambda>status.
      bind_rd readU32 (\<lambda>count r.
        if remaining r div 13 < unat count
        then Inl (RuntimeError ''result count exceeds remaining payload'')
        else for_rd (unat count) (\<lambda>m.
               bind_rd readI64 (\<lambda>i.
               bind_rd readU8 (\<lambda>t.
               bind_rd readKV (\<lambda>k.
                 return_rd (m\<lparr>echoResults := echoResults m @ [\<lparr>idx = i, rtype = t, kv = k\<rparr>]\<rparr>)))))
             (m\<lparr>echoStatus := status\<rparr>) r))
    else if mtype m = MSG_KISS_REQUEST then
      bind_rd readString (\<lambda>x1.
      bind_rd readString (\<lambda>x2.
      bind_rd readString (\<lambda>x3.
      bind_rd readString (\<lambda>x4.
      return_rd (m\<lparr>osName := x1, osVersion := x2, osRelease := x3, osArch := x4\<rparr>)))))
    else if mtype m = MSG_KISS_RESPONSE then
      bind_rd readString (\<lambda>x1.
      bind_rd readString (\<lambda>x2.
      bind_rd readString (\<lambda>x3.
      return_rd (m\<lparr>kissLanguage := x1, kissEncoding := x2, kissTimeZone := x3\<rparr>))))
    else if mtype m = MSG_PING then
      bind_rd readI64 (\<lambda>x1.
      return_rd (m\<lparr>timestampMs := x1\<rparr>))
    else if mtype m = MSG_PONG then
      bind_rd readI64 (\<lambda>x1.
      return_rd (m\<lparr>timestampMs := x1\<rparr>))
    else if mtype m = MSG_TIME_NOTIFICATION then
      bind_rd readI64 (\<lambda>x1.
      bind_rd readString (\<lambda>x2.
      return_rd (m\<lparr>timestampMs := x1, iso8601 := x2\<rparr>)))
    else if mtype m = MSG_RANDOM_NUMBER then
      bind_rd readI64 (\<lambda>x1.
      bind_rd readI64 (\<lambda>x2.
      return_rd (m\<lparr>randomId := x1, randomNumber := x2\<rparr>)))
    else if mtype m = MSG_HASH_RESPONSE then
      bind_rd readI64 (\<lambda>x1.
      bind_rd readString (\<lambda>x2.
      return_rd (m\<lparr>randomId := x1, hashHex := x2\<rparr>)))
    else if mtype m = MSG_DISCONNECT then
      bind_rd readString (\<lambda>x1.
      return_rd (m\<lparr>disconnectReason := x1\<rparr>))
    else if mtype m = MSG_ERROR then
      bind_rd readI32 (\<lambda>x1.
      bind_rd readString (\<lambda>x2.
      return_rd (m\<lparr>errorCode := x1, errorMessage := x2\<rparr>)))
    else throw_rd ''unknown message type'')"

definition decodeMessage :: "bytes \<Rightarrow> nat \<Rightarrow> Message res" where
  "decodeMessage data len =
     bind_res (decodeFrame data len) (\<lambda>frame.
       let r = newReader (payload frame) (length (payload frame));
           m = zeroMessage\<lparr>mtype := msgType frame\<rparr>
       in bind_res (decodeBody m r) (\<lambda>(m, _). Inr m))"

section \<open>The specification: PROTOCOL.md section 5\<close>

datatype Body =
    Hello bytes
  | Bonjour bytes
  | EchoRequest i64 bytes bytes
  | EchoResponse i32 "EchoResult list"
  | KissRequest bytes bytes bytes bytes
  | KissResponse bytes bytes bytes
  | Ping i64
  | Pong i64
  | TimeNotification i64 bytes
  | RandomNumber i64 i64
  | HashResponse i64 bytes
  | Disconnect bytes
  | Error i32 bytes

fun code_of :: "Body \<Rightarrow> u8" where
  "code_of (Hello _) = 0x01"
| "code_of (Bonjour _) = 0x02"
| "code_of (EchoRequest _ _ _) = 0x03"
| "code_of (EchoResponse _ _) = 0x04"
| "code_of (KissRequest _ _ _ _) = 0x05"
| "code_of (KissResponse _ _ _) = 0x06"
| "code_of (Ping _) = 0x07"
| "code_of (Pong _) = 0x08"
| "code_of (TimeNotification _ _) = 0x09"
| "code_of (RandomNumber _ _) = 0x0A"
| "code_of (HashResponse _ _) = 0x0B"
| "code_of (Disconnect _) = 0x0C"
| "code_of (Error _ _) = 0x7F"

definition enc_result :: "EchoResult \<Rightarrow> bytes" where
  "enc_result r = be64 (idx r) @ [rtype r] @ enc_kv (kv r)"

fun enc_body :: "Body \<Rightarrow> bytes" where
  "enc_body (Hello l) = enc_string l"
| "enc_body (Bonjour l) = enc_string l"
| "enc_body (EchoRequest i t d) = be64 i @ enc_string t @ enc_string d"
| "enc_body (EchoResponse s rs) = be32 s @ be32 (of_nat (length rs)) @ concat (map enc_result rs)"
| "enc_body (KissRequest n v l a) = enc_string n @ enc_string v @ enc_string l @ enc_string a"
| "enc_body (KissResponse l e z) = enc_string l @ enc_string e @ enc_string z"
| "enc_body (Ping t) = be64 t"
| "enc_body (Pong t) = be64 t"
| "enc_body (TimeNotification t i) = be64 t @ enc_string i"
| "enc_body (RandomNumber i n) = be64 i @ be64 n"
| "enc_body (HashResponse i h) = be64 i @ enc_string h"
| "enc_body (Disconnect r) = enc_string r"
| "enc_body (Error c t) = be32 c @ enc_string t"

text \<open>The C++ object that carries a message, all other members at their initial values.\<close>

fun message_of :: "Body \<Rightarrow> Message" where
  "message_of (Hello l) = zeroMessage\<lparr>mtype := MSG_HELLO, clientLanguage := l\<rparr>"
| "message_of (Bonjour l) = zeroMessage\<lparr>mtype := MSG_BONJOUR, serverLanguage := l\<rparr>"
| "message_of (EchoRequest i t d) =
     zeroMessage\<lparr>mtype := MSG_ECHO_REQUEST, echoId := i, echoMeta := t, echoData := d\<rparr>"
| "message_of (EchoResponse s rs) =
     zeroMessage\<lparr>mtype := MSG_ECHO_RESPONSE, echoStatus := s, echoResults := rs\<rparr>"
| "message_of (KissRequest n v l a) =
     zeroMessage\<lparr>mtype := MSG_KISS_REQUEST, osName := n, osVersion := v, osRelease := l, osArch := a\<rparr>"
| "message_of (KissResponse l e z) =
     zeroMessage\<lparr>mtype := MSG_KISS_RESPONSE, kissLanguage := l, kissEncoding := e, kissTimeZone := z\<rparr>"
| "message_of (Ping t) = zeroMessage\<lparr>mtype := MSG_PING, timestampMs := t\<rparr>"
| "message_of (Pong t) = zeroMessage\<lparr>mtype := MSG_PONG, timestampMs := t\<rparr>"
| "message_of (TimeNotification t i) =
     zeroMessage\<lparr>mtype := MSG_TIME_NOTIFICATION, timestampMs := t, iso8601 := i\<rparr>"
| "message_of (RandomNumber i n) =
     zeroMessage\<lparr>mtype := MSG_RANDOM_NUMBER, randomId := i, randomNumber := n\<rparr>"
| "message_of (HashResponse i h) =
     zeroMessage\<lparr>mtype := MSG_HASH_RESPONSE, randomId := i, hashHex := h\<rparr>"
| "message_of (Disconnect r) = zeroMessage\<lparr>mtype := MSG_DISCONNECT, disconnectReason := r\<rparr>"
| "message_of (Error c t) = zeroMessage\<lparr>mtype := MSG_ERROR, errorCode := c, errorMessage := t\<rparr>"

text \<open>What a C++ message object means: the members its type selects.\<close>

definition body_of :: "Message \<Rightarrow> Body option" where
  "body_of m =
     (if mtype m = 0x01 then Some (Hello (clientLanguage m))
      else if mtype m = 0x02 then Some (Bonjour (serverLanguage m))
      else if mtype m = 0x03 then Some (EchoRequest (echoId m) (echoMeta m) (echoData m))
      else if mtype m = 0x04 then Some (EchoResponse (echoStatus m) (echoResults m))
      else if mtype m = 0x05 then Some (KissRequest (osName m) (osVersion m) (osRelease m) (osArch m))
      else if mtype m = 0x06 then Some (KissResponse (kissLanguage m) (kissEncoding m) (kissTimeZone m))
      else if mtype m = 0x07 then Some (Ping (timestampMs m))
      else if mtype m = 0x08 then Some (Pong (timestampMs m))
      else if mtype m = 0x09 then Some (TimeNotification (timestampMs m) (iso8601 m))
      else if mtype m = 0x0A then Some (RandomNumber (randomId m) (randomNumber m))
      else if mtype m = 0x0B then Some (HashResponse (randomId m) (hashHex m))
      else if mtype m = 0x0C then Some (Disconnect (disconnectReason m))
      else if mtype m = 0x7F then Some (Error (errorCode m) (errorMessage m))
      else None)"

definition result_ok :: "EchoResult \<Rightarrow> bool" where
  "result_ok r \<longleftrightarrow> kv_ok (kv r)"

fun body_ok :: "Body \<Rightarrow> bool" where
  "body_ok (Hello l) = string_ok l"
| "body_ok (Bonjour l) = string_ok l"
| "body_ok (EchoRequest i t d) = (string_ok t \<and> string_ok d)"
| "body_ok (EchoResponse s rs) = (length rs < 2 ^ 32 \<and> list_all result_ok rs)"
| "body_ok (KissRequest n v l a) = (string_ok n \<and> string_ok v \<and> string_ok l \<and> string_ok a)"
| "body_ok (KissResponse l e z) = (string_ok l \<and> string_ok e \<and> string_ok z)"
| "body_ok (Ping t) = True"
| "body_ok (Pong t) = True"
| "body_ok (TimeNotification t i) = string_ok i"
| "body_ok (RandomNumber i n) = True"
| "body_ok (HashResponse i h) = string_ok h"
| "body_ok (Disconnect r) = string_ok r"
| "body_ok (Error c t) = string_ok t"

lemma body_of_message_of [simp]: "body_of (message_of b) = Some b"
  by (cases b) (simp_all add: body_of_def zeroMessage_def hws_consts)

lemma mtype_message_of [simp]: "mtype (message_of b) = code_of b"
  by (cases b) (simp_all add: zeroMessage_def hws_consts)

section \<open>Encoding refines the specification\<close>

lemma wbuf_writeResult [writer_simps]: "wbuf (writeResult r w) = wbuf w @ enc_result r"
  by (simp add: writeResult_def enc_result_def writer_simps Let_def)

lemma wbuf_writeResults [writer_simps]:
  "wbuf (fold writeResult rs w) = wbuf w @ concat (map enc_result rs)"
  by (induction rs arbitrary: w) (simp_all add: wbuf_writeResult)

lemma encode_body_of:
  "encode m = (case body_of m of
      None \<Rightarrow> Inl (RuntimeError ''unknown message type'')
    | Some b \<Rightarrow> Inr (encodeFrame (code_of b) (enc_body b)))"
  by (simp add: encode_def body_of_def Let_def writer_simps hws_consts)

section \<open>Decoding accepts exactly the format\<close>

definition readResult :: "EchoResult rd" where
  "readResult =
     bind_rd readI64 (\<lambda>i. bind_rd readU8 (\<lambda>t. bind_rd readKV (\<lambda>k.
       return_rd \<lparr>idx = i, rtype = t, kv = k\<rparr>)))"

definition result_bytes :: "EchoResult \<Rightarrow> bytes \<Rightarrow> bool" where
  "result_bytes r bs \<longleftrightarrow> (\<exists>ks. kv_bytes (kv r) ks \<and> bs = be64 (idx r) @ [rtype r] @ ks)"

lemma reads_last: "reads m bs x \<Longrightarrow> reads (bind_rd m (\<lambda>x. return_rd (f x))) bs (f x)"
  using reads_bind [of m bs x "\<lambda>x. return_rd (f x)" "[]" "f x"] by (simp add: reads_return)

lemmas reads_chain =
  reads_bind [OF reads_U8] reads_bind [OF reads_I32] reads_bind [OF reads_I64]
  reads_bind [OF reads_String] reads_last [OF reads_I64] reads_last [OF reads_String]

lemma reads_Result: "result_bytes r bs \<Longrightarrow> reads readResult bs r"
proof -
  assume "result_bytes r bs"
  then obtain ks where ks: "kv_bytes (kv r) ks" "bs = be64 (idx r) @ [rtype r] @ ks"
    unfolding result_bytes_def by blast
  have "reads readResult bs \<lparr>idx = idx r, rtype = rtype r, kv = kv r\<rparr>"
    unfolding readResult_def ks(2) by (intro reads_chain reads_last kvc.dec_reads ks(1))
  then show ?thesis by (cases r) simp
qed

lemma sound_Result: "sound readResult result_bytes"
  unfolding readResult_def
  by (rule sound_bind [OF i64c.dec_sound], rule sound_bind [OF u8c.dec_sound],
      rule sound_bind [OF kvc.dec_sound], rule sound_return) (auto simp: result_bytes_def)

lemma kv_bytes_length: "kv_bytes m bs \<Longrightarrow> 4 \<le> length bs"
  by (auto simp: counted_bytes_def)

interpretation resultc: sized_format readResult result_bytes 13
proof unfold_locales
  show "safe readResult" unfolding readResult_def by (intro rd_safe)
qed (auto simp: reads_Result sound_Result result_bytes_def dest: kv_bytes_length)

text \<open>
  The payloads of a message. The echo response is the only message with more than one: the entries
  of a map may come in any order, and of two entries with the same key the later one counts.
\<close>

abbreviation results_bytes :: "EchoResult list \<Rightarrow> bytes \<Rightarrow> bool" where
  "results_bytes \<equiv> counted_bytes result_bytes (\<lambda>er rs. rs @ [er]) []"

definition body_bytes :: "Body \<Rightarrow> bytes \<Rightarrow> bool" where
  "body_bytes b bs \<longleftrightarrow>
     (case b of
        EchoResponse s rs \<Rightarrow> (\<exists>cs. results_bytes rs cs \<and> bs = be32 s @ cs)
      | _ \<Rightarrow> body_ok b \<and> bs = enc_body b)"

lemma fold_snoc: "fold (\<lambda>x xs. xs @ [x]) ys acc = acc @ ys"
  by (induction ys arbitrary: acc) simp_all

lemma result_bytes_enc: "result_ok r \<Longrightarrow> result_bytes r (enc_result r)"
  by (auto simp: result_bytes_def result_ok_def enc_result_def kv_bytes_enc)

lemma result_bytes_ok: "result_bytes r bs \<Longrightarrow> result_ok r"
  by (auto simp: result_bytes_def result_ok_def kv_bytes_ok)

lemma body_bytes_enc: "body_ok b \<Longrightarrow> body_bytes b (enc_body b)"
proof (cases b)
  case (EchoResponse s rs)
  assume "body_ok b"
  then have "length rs < 2 ^ 32" "list_all2 result_bytes rs (map enc_result rs)"
    by (auto simp: EchoResponse list_all2_conv_all_nth list_all_length result_bytes_enc)
  then show ?thesis
    by (auto simp: EchoResponse body_bytes_def counted_bytes_def fold_snoc intro!: exI [of _ rs])
qed (simp_all add: body_bytes_def)

lemma body_bytes_ok: "body_bytes b bs \<Longrightarrow> body_ok b"
proof (cases b)
  case (EchoResponse s rs)
  assume "body_bytes b bs"
  then show ?thesis
    by (auto simp: EchoResponse body_bytes_def counted_bytes_def fold_snoc list_all2_conv_all_nth
        list_all_length result_bytes_ok)
qed (simp_all add: body_bytes_def)

text \<open>The branch for \<open>MSG_ECHO_RESPONSE\<close>, with its loop over whole results.\<close>

definition decodeEchoResponse :: "Message \<Rightarrow> Message rd" where
  "decodeEchoResponse m =
     bind_rd readI32 (\<lambda>status.
       counted 13 ''result count exceeds remaining payload'' readResult
         (\<lambda>er m. m\<lparr>echoResults := echoResults m @ [er]\<rparr>) (m\<lparr>echoStatus := status\<rparr>))"

lemma decodeEchoResponse_unfold:
  "bind_rd readI32 (\<lambda>status.
     bind_rd readU32 (\<lambda>count r.
       if remaining r div 13 < unat count
       then Inl (RuntimeError ''result count exceeds remaining payload'')
       else for_rd (unat count) (\<lambda>m.
               bind_rd readI64 (\<lambda>i.
               bind_rd readU8 (\<lambda>t.
               bind_rd readKV (\<lambda>k.
                 return_rd (m\<lparr>echoResults := echoResults m @ [\<lparr>idx = i, rtype = t, kv = k\<rparr>]\<rparr>)))))
             (m\<lparr>echoStatus := status\<rparr>) r)) = decodeEchoResponse m"
  unfolding decodeEchoResponse_def counted_def readResult_def bind_rd_assoc bind_rd_return ..

lemma fold_results:
  "fold (\<lambda>er m. m\<lparr>echoResults := echoResults m @ [er]\<rparr>) rs m = m\<lparr>echoResults := echoResults m @ rs\<rparr>"
  by (induction rs arbitrary: m) simp_all

lemma echoResults_bytes:
  assumes "echoResults m = []"
  shows "counted_bytes result_bytes (\<lambda>er m. m\<lparr>echoResults := echoResults m @ [er]\<rparr>) m y bs \<longleftrightarrow>
    (\<exists>rs. results_bytes rs bs \<and> y = m\<lparr>echoResults := rs\<rparr>)"
  using assms unfolding counted_bytes_def fold_results fold_snoc by auto

text \<open>The message object and the payload bytes it is decoded from.\<close>

definition decoded :: "Message \<Rightarrow> bytes \<Rightarrow> bool" where
  "decoded m bs \<longleftrightarrow> (\<exists>b. m = message_of b \<and> body_bytes b bs)"

lemma reads_decodeEchoResponse:
  assumes "body_bytes (EchoResponse s rs) bs" and "echoResults m = []"
  shows "reads (decodeEchoResponse m) bs (m\<lparr>echoStatus := s, echoResults := rs\<rparr>)"
proof -
  obtain cs where cs: "results_bytes rs cs" "bs = be32 s @ cs"
    using assms(1) by (auto simp: body_bytes_def)
  show ?thesis
    unfolding decodeEchoResponse_def cs(2)
    by (rule reads_bind [OF reads_I32], rule resultc.counted_reads)
      (use cs assms(2) in \<open>auto simp: echoResults_bytes\<close>)
qed

lemma sound_decodeEchoResponse:
  "sound (decodeEchoResponse (zeroMessage\<lparr>mtype := MSG_ECHO_RESPONSE\<rparr>))
     (\<lambda>m bs. mtype m = MSG_ECHO_RESPONSE \<and> decoded m bs)"
  unfolding decodeEchoResponse_def
proof (rule sound_bind [OF i32c.dec_sound], rule sound_weaken [OF resultc.counted_sound])
  fix s :: i32 and bs y cs
  assume "True \<and> bs = be32 s" and "counted_bytes result_bytes
      (\<lambda>er m. m\<lparr>echoResults := echoResults m @ [er]\<rparr>)
      (zeroMessage\<lparr>mtype := MSG_ECHO_RESPONSE, echoStatus := s\<rparr>) y cs"
  moreover have "echoResults (zeroMessage\<lparr>mtype := MSG_ECHO_RESPONSE, echoStatus := s\<rparr>) = []"
    by (simp add: zeroMessage_def)
  ultimately obtain rs where "results_bytes rs cs" and
    "y = zeroMessage\<lparr>mtype := MSG_ECHO_RESPONSE, echoStatus := s, echoResults := rs\<rparr>"
    by (auto simp: echoResults_bytes)
  with \<open>True \<and> bs = be32 s\<close> show "mtype y = MSG_ECHO_RESPONSE \<and> decoded y (bs @ cs)"
    by (auto simp: decoded_def body_bytes_def intro!: exI [of _ "EchoResponse s rs"])
qed

lemma reads_decodeBody:
  assumes "body_bytes b bs"
  shows "reads (decodeBody (zeroMessage\<lparr>mtype := code_of b\<rparr>)) bs (message_of b)"
proof (cases b)
  case (EchoResponse s rs)
  have "decodeBody (zeroMessage\<lparr>mtype := 4\<rparr>) = decodeEchoResponse (zeroMessage\<lparr>mtype := 4\<rparr>)"
    by (simp add: decodeBody_def decodeEchoResponse_unfold hws_consts)
  then show ?thesis
    using reads_decodeEchoResponse [of s rs bs "zeroMessage\<lparr>mtype := 4\<rparr>"] assms EchoResponse
    by (simp add: hws_consts zeroMessage_def)
qed (use assms in \<open>simp_all add: body_bytes_def decodeBody_def hws_consts\<close>, (intro reads_chain; simp)+)

lemma safe_if [rd_safe]: "safe m \<Longrightarrow> safe n \<Longrightarrow> safe (if c then m else n)"
  by simp

lemma safe_throw [rd_safe]: "safe (throw_rd e)"
  by (rule safeI) (simp_all add: throw_rd_def)

lemma safe_decodeBody: "safe (decodeBody m)"
  unfolding decodeBody_def by (intro rd_safe)

lemma sound_if:
  "(c \<Longrightarrow> sound m S) \<Longrightarrow> (\<not> c \<Longrightarrow> sound n S) \<Longrightarrow> sound (if c then m else n) S"
  by simp

lemma sound_throw: "sound (throw_rd e) S"
  by (simp add: sound_def throw_rd_def)

lemma decoded_body_of:
  "decoded m bs \<longleftrightarrow> (case body_of m of None \<Rightarrow> False | Some b \<Rightarrow> m = message_of b \<and> body_bytes b bs)"
proof -
  have "m = message_of b \<Longrightarrow> body_of m = Some b" for b by simp
  then show ?thesis by (auto simp: decoded_def simp del: message_of.simps split: option.split)
qed

lemma sound_decodeBody:
  "sound (decodeBody (zeroMessage\<lparr>mtype := t\<rparr>)) (\<lambda>m bs. mtype m = t \<and> decoded m bs)"
proof -
  note rd = sound_bind [OF strc.dec_sound] sound_bind [OF i64c.dec_sound]
    sound_bind [OF i32c.dec_sound] sound_return
  show ?thesis
    unfolding decodeBody_def decodeEchoResponse_unfold
    by (intro sound_if rd sound_throw)
      (use sound_decodeEchoResponse in \<open>simp_all add: decoded_body_of body_of_def body_bytes_def hws_consts\<close>)
qed

section \<open>Errors\<close>

text \<open>The exceptions a reader can throw.\<close>

definition raises :: "'a rd \<Rightarrow> string set \<Rightarrow> bool" where
  "raises m E \<longleftrightarrow> (\<forall>r e. reader_ok r \<longrightarrow> m r = Inl e \<longrightarrow> e \<in> RuntimeError ` E)"

definition payload_errors :: "string set" where
  "payload_errors =
     {''unexpected end of data'', ''string length exceeds data'',
      ''string payload is not valid UTF-8'', ''kv count exceeds remaining payload'',
      ''result count exceeds remaining payload''}"

named_theorems rd_raises "exceptions of the read operations"

lemma raises_return [rd_raises]: "raises (return_rd x) E"
  by (simp add: raises_def return_rd_def)

lemma raises_bind [rd_raises]:
  assumes "raises m E" and "safe m" and "\<And>x. raises (f x) E"
  shows "raises (bind_rd m f) E"
  unfolding raises_def
proof (intro allI impI)
  fix r e
  assume r: "reader_ok r" and "bind_rd m f r = Inl e"
  then consider "m r = Inl e" | x r1 where "m r = Inr (x, r1)" "f x r1 = Inl e"
    by (auto simp: bind_rd_def bind_res_eq_Inl)
  then show "e \<in> RuntimeError ` E"
    using assms r safe_step [OF assms(2) r] unfolding raises_def by cases blast+
qed

lemma raises_guard [rd_raises]:
  "e \<in> E \<Longrightarrow> raises m E \<Longrightarrow> raises (\<lambda>r. if P r then Inl (RuntimeError e) else m r) E"
  by (simp add: raises_def)

lemma raises_for [rd_raises]:
  "(\<And>acc. raises (body acc) E) \<Longrightarrow> (\<And>acc. safe (body acc)) \<Longrightarrow> raises (for_rd n body acc) E"
  by (induction n arbitrary: acc) (simp_all add: raises_return raises_bind)

lemma raises_if [rd_raises]:
  "(c \<Longrightarrow> raises m E) \<Longrightarrow> (\<not> c \<Longrightarrow> raises n E) \<Longrightarrow> raises (if c then m else n) E"
  by simp

lemma raises_readU8 [rd_raises]: "raises readU8 payload_errors"
  by (simp add: raises_def readU8_rest payload_errors_def)

lemma raises_readU32 [rd_raises]: "raises readU32 payload_errors"
  by (simp add: raises_def readU32_rest payload_errors_def)

lemma raises_readI32 [rd_raises]: "raises readI32 payload_errors"
  by (simp add: readI32_def rd_raises)

lemma raises_readI64 [rd_raises]: "raises readI64 payload_errors"
  unfolding readI64_def by (intro rd_raises rd_safe)

lemma raises_readString [rd_raises]: "raises readString payload_errors"
proof -
  have "raises (readStringBody ln) payload_errors" for ln
    by (simp add: raises_def readStringBody_rest payload_errors_def)
  then show ?thesis unfolding readString_def by (intro rd_raises rd_safe)
qed

lemma raises_readKV [rd_raises]: "raises readKV payload_errors"
  unfolding readKV_def by (intro rd_raises rd_safe) (simp add: payload_errors_def)

definition message_codes :: "u8 list" where
  "message_codes = [0x01, 0x02, 0x03, 0x04, 0x05, 0x06, 0x07, 0x08, 0x09, 0x0A, 0x0B, 0x0C, 0x7F]"

lemma message_codes_code_of: "set message_codes = range code_of"
proof
  show "range code_of \<subseteq> set message_codes"
  proof
    fix c assume "c \<in> range code_of"
    then obtain b where "c = code_of b" by blast
    then show "c \<in> set message_codes" by (cases b) (simp_all add: message_codes_def)
  qed
  have "code_of b \<in> range code_of" for b by simp
  from this [of "Hello []"] this [of "Bonjour []"] this [of "EchoRequest 0 [] []"]
    this [of "EchoResponse 0 []"] this [of "KissRequest [] [] [] []"] this [of "KissResponse [] [] []"]
    this [of "Ping 0"] this [of "Pong 0"] this [of "TimeNotification 0 []"] this [of "RandomNumber 0 0"]
    this [of "HashResponse 0 []"] this [of "Disconnect []"] this [of "Error 0 []"]
  show "set message_codes \<subseteq> range code_of" by (simp add: message_codes_def)
qed

lemma decodeBody_unknown:
  "mtype m \<notin> set message_codes \<Longrightarrow> decodeBody m = throw_rd ''unknown message type''"
  by (simp add: decodeBody_def message_codes_def hws_consts)

lemma raises_decodeBody:
  assumes "mtype m \<in> set message_codes"
  shows "raises (decodeBody m) payload_errors"
  unfolding decodeBody_def
  by (intro rd_raises rd_safe)
    (use assms in \<open>simp_all add: payload_errors_def message_codes_def hws_consts\<close>)

lemma decodeMessage_frame:
  assumes "decodeFrame data (length data) = Inr f"
  shows "decodeMessage data (length data) =
    bind_res (decodeBody (zeroMessage\<lparr>mtype := msgType f\<rparr>) (newReader (payload f) (length (payload f))))
      (\<lambda>(m, _). Inr m)"
    and "reader_ok (newReader (payload f) (length (payload f)))"
proof -
  show "reader_ok (newReader (payload f) (length (payload f)))"
    using assms by (auto simp: decodeFrame_layout intro!: reader_ok_new)
qed (simp add: decodeMessage_def Let_def assms)

section \<open>Messages as a whole\<close>

lemma decodeMessage_bytes:
  "decodeMessage data (length data) = Inr m \<longleftrightarrow>
     (\<exists>b flags bs extra. m = message_of b \<and> body_bytes b bs \<and> length (bs @ extra) < 2 ^ 32 \<and>
        data = [0x48, 0x01, code_of b, flags] @ be32 (of_nat (length (bs @ extra))) @ bs @ extra)"
  (is "?l \<longleftrightarrow> ?r")
proof
  assume ?l
  then obtain f where f: "decodeFrame data (length data) = Inr f"
    by (auto simp: decodeMessage_def bind_res_eq_Inr)
  note fr = decodeMessage_frame [OF f]
  from \<open>?l\<close> obtain r' where "decodeBody (zeroMessage\<lparr>mtype := msgType f\<rparr>)
      (newReader (payload f) (length (payload f))) = Inr (m, r')"
    by (auto simp: fr(1) bind_res_eq_Inr)
  from soundE [OF sound_decodeBody fr(2) this] obtain bs where
    m: "mtype m = msgType f" "decoded m bs" and p: "payload f = bs @ rest r'" by auto
  then obtain b where b: "m = message_of b" "body_bytes b bs" "msgType f = code_of b"
    unfolding decoded_def by auto
  from f obtain flags where "length (payload f) < 2 ^ 32"
    "data = [MAGIC, VERSION, msgType f, flags] @ be32 (of_nat (length (payload f))) @ payload f"
    unfolding decodeFrame_layout by blast
  with b p show ?r
    by (intro exI [of _ b] exI [of _ flags] exI [of _ bs] exI [of _ "rest r'"]) (simp add: hws_consts)
next
  assume ?r
  then obtain b flags bs extra where b: "m = message_of b" "body_bytes b bs" "length (bs @ extra) < 2 ^ 32"
    and "data = [0x48, 0x01, code_of b, flags] @ be32 (of_nat (length (bs @ extra))) @ bs @ extra"
    by blast
  then have f: "decodeFrame data (length data) = Inr \<lparr>msgType = code_of b, payload = bs @ extra\<rparr>"
    by (subst decodeFrame_layout) (simp add: hws_consts)
  note fr = decodeMessage_frame [OF f]
  obtain r' where "decodeBody (zeroMessage\<lparr>mtype := code_of b\<rparr>)
      (newReader (bs @ extra) (length (bs @ extra))) = Inr (message_of b, r')"
    using readsE [OF reads_decodeBody [OF b(2)], of "newReader (bs @ extra) (length (bs @ extra))" extra]
      fr(2) by auto
  with fr(1) b(1) show ?l by simp
qed

lemma decodeMessage_body: "decodeMessage data (length data) = Inr m \<Longrightarrow> \<exists>b. m = message_of b \<and> body_ok b"
  unfolding decodeMessage_bytes using body_bytes_ok by blast

lemma decode_encoded:
  assumes "body_ok b" and "length (enc_body b) < 2 ^ 32"
  shows "decodeMessage (encodeFrame (code_of b) (enc_body b)) (length (encodeFrame (code_of b) (enc_body b))) = Inr (message_of b)"
  unfolding decodeMessage_bytes
  by (intro exI [of _ b] exI [of _ 0] exI [of _ "enc_body b"] exI [of _ "[]"])
    (use assms in \<open>simp add: body_bytes_enc encodeFrame_layout hws_consts\<close>)

lemma decodeMessage_safe: "decodeMessage data (length data) \<noteq> Inl OutOfBounds"
proof (cases "decodeFrame data (length data)")
  case (Inl e)
  then have "e \<noteq> OutOfBounds" by (auto simp: decodeFrame_checks split: if_splits)
  with Inl show ?thesis by (simp add: decodeMessage_def)
next
  case (Inr f)
  note fr = decodeMessage_frame [OF Inr]
  from safe_error [OF safe_decodeBody fr(2)] show ?thesis
    by (auto simp: fr(1) bind_res_eq_Inl split: prod.splits)
qed

text \<open>The texts of the exceptions that \<open>decodeMessage\<close> throws.\<close>

definition fixed_errors :: "string list" where
  "fixed_errors = [''unknown message type'', ''unexpected end of data'', ''string length exceeds data'',
      ''string payload is not valid UTF-8'', ''kv count exceeds remaining payload'',
      ''result count exceeds remaining payload'', ''bad magic'', ''bad version'', ''payload length mismatch'']"

definition decode_errors :: "nat \<Rightarrow> string set" where
  "decode_errors n = set fixed_errors \<union> (if n < 8 then {''frame too short: '' @ to_string (int n)} else {})"

lemma decodeMessage_error:
  assumes "decodeMessage data (length data) = Inl e"
  shows "e \<in> RuntimeError ` decode_errors (length data)"
proof (cases "decodeFrame data (length data)")
  case (Inl e')
  then have "e' \<in> RuntimeError ` decode_errors (length data)"
    unfolding decodeFrame_checks decode_errors_def by (auto simp: fixed_errors_def split: if_splits)
  with Inl assms show ?thesis by (simp add: decodeMessage_def)
next
  case (Inr f)
  note fr = decodeMessage_frame [OF Inr]
  let ?m = "zeroMessage\<lparr>mtype := msgType f\<rparr>"
  have e: "decodeBody ?m (newReader (payload f) (length (payload f))) = Inl e"
    using assms by (auto simp: fr(1) bind_res_eq_Inl split: prod.splits)
  show ?thesis
  proof (cases "msgType f \<in> set message_codes")
    case True
    then have "e \<in> RuntimeError ` payload_errors"
      using raises_decodeBody [of ?m] fr(2) e unfolding raises_def by auto
    moreover have "payload_errors \<subseteq> set fixed_errors" by (simp add: payload_errors_def fixed_errors_def)
    ultimately show ?thesis by (auto simp: decode_errors_def)
  next
    case False
    with e show ?thesis by (simp add: decodeBody_unknown throw_rd_def decode_errors_def fixed_errors_def)
  qed
qed

section \<open>Properties\<close>

text \<open>C2: The bytes that \<open>decodeMessage\<close> accepts, and what it makes of them, are exactly those of the
  wire format: a message \<open>b\<close> of \<open>PROTOCOL.md\<close> section 5 behind the 8-byte header of section 2,
  for any flags byte and any bytes \<open>extra\<close> behind the fields that the header's length counts too.\<close>

theorem decodeMessage_exact:
  "decodeMessage data (length data) = Inr m \<longleftrightarrow>
     (\<exists>b flags bs extra. m = message_of b \<and> body_bytes b bs \<and> length (bs @ extra) < 2 ^ 32 \<and>
        data = [0x48, 0x01, code_of b, flags] @ be32 (of_nat (length (bs @ extra))) @ bs @ extra)"
  by (rule decodeMessage_bytes)

text \<open>C9: Decoding inverts encoding: a message object whose selected members hold valid texts and whose
  encoding fits the 32-bit length field is encoded and decoded to the object with the same members
  and all others at their initial values.\<close>

theorem decode_encode:
  assumes "body_of m = Some b" and "body_ok b" and "length (enc_body b) < 2 ^ 32"
  shows "bind_res (encode m) (\<lambda>data. decodeMessage data (length data)) = Inr (message_of b)"
  using assms decode_encoded [OF assms(2,3)] by (simp add: encode_body_of)

theorem decode_encode_witness:
  "bind_res (encode (message_of (EchoRequest 7 (str ''m'') (str ''hi''))))
     (\<lambda>data. decodeMessage data (length data)) =
   Inr (message_of (EchoRequest 7 (str ''m'') (str ''hi'')))"
  by (rule decode_encode [OF body_of_message_of])
    (simp_all add: string_ok_def enc_string_def utf8_text_ascii)

text \<open>C21: \<open>Message::encode\<close> produces the header and payload that \<open>PROTOCOL.md\<close> prescribes for the
  message the object stands for, and throws for every type code that is not one of the protocol's.\<close>

theorem encode_spec:
  "encode m = (case body_of m of
      None \<Rightarrow> Inl (RuntimeError ''unknown message type'')
    | Some b \<Rightarrow> Inr ([0x48, 0x01, code_of b, 0] @ be32 (of_nat (length (enc_body b))) @ enc_body b))"
  by (simp add: encode_body_of encodeFrame_layout hws_consts split: option.split)

text \<open>C30: Whatever bytes arrive, \<open>decodeMessage\<close> reads inside the buffer only: every input ends in a
  message or in a \<open>std::runtime_error\<close>.\<close>

theorem decodeMessage_memory_safe: "decodeMessage data (length data) \<noteq> Inl OutOfBounds"
  by (rule decodeMessage_safe)

text \<open>C31: The exception \<open>unknown message type\<close>, which the server tests for, is thrown exactly for the
  well-formed frames whose type byte is none of the thirteen codes of the protocol.\<close>

theorem decodeMessage_unknown_exact:
  "decodeMessage data (length data) = Inl (RuntimeError ''unknown message type'') \<longleftrightarrow>
     (\<exists>f. decodeFrame data (length data) = Inr f \<and> msgType f \<notin> set message_codes)"
proof (cases "decodeFrame data (length data)")
  case (Inl e)
  then have "e \<noteq> RuntimeError ''unknown message type''"
    by (auto simp: decodeFrame_checks split: if_splits)
  with Inl show ?thesis by (simp add: decodeMessage_def)
next
  case (Inr f)
  note fr = decodeMessage_frame [OF Inr]
  let ?m = "zeroMessage\<lparr>mtype := msgType f\<rparr>"
  show ?thesis
  proof (cases "msgType f \<in> set message_codes")
    case True
    then have "decodeBody ?m (newReader (payload f) (length (payload f))) \<noteq>
        Inl (RuntimeError ''unknown message type'')"
      using raises_decodeBody [of ?m] fr(2) unfolding raises_def payload_errors_def by auto
    with Inr True show ?thesis by (auto simp: fr(1) bind_res_eq_Inl split: prod.splits)
  next
    case False
    then show ?thesis using Inr by (simp add: fr(1) decodeBody_unknown throw_rd_def)
  qed
qed

end
