(* ===== verification/Server_Messages.thy ===== *)
theory Server_Messages
  imports Message_Codec Sha256 "HOL-Library.Sublist"
begin

text \<open>
  What the server of \<open>server/ws_server.cpp\<close> sends: the messages of its background threads, and the
  reaction of the receive loop to one binary message (the decoding with its error replies and the
  \<open>switch\<close> over the message types). The reaction is specified on protocol messages, and every
  reply is proved to decode, at the other side, to the message the specification names.
\<close>

section \<open>The code\<close>

definition ping_message :: "i64 \<Rightarrow> Message" where
  "ping_message now = zeroMessage\<lparr>mtype := MSG_PING, timestampMs := now\<rparr>"

definition time_message :: "i64 \<Rightarrow> bytes \<Rightarrow> Message" where
  "time_message now isoText = zeroMessage\<lparr>mtype := MSG_TIME_NOTIFICATION, timestampMs := now, iso8601 := isoText\<rparr>"

text \<open>On a system other than Windows.\<close>

definition kiss_message :: Message where
  "kiss_message = zeroMessage\<lparr>mtype := MSG_KISS_REQUEST, osName := str ''Linux'', osVersion := str ''unknown'',
     osRelease := str ''unknown'', osArch := str ''x86_64''\<rparr>"

text \<open>What one round of the receive loop does: a reply, \<open>clientLanguage\<close> and \<open>lastPongTs\<close> afterwards, and whether \<open>active\<close> is cleared.\<close>

record reaction =
  rc_reply :: "Message option"
  rc_language :: bytes
  rc_pong :: "i64 option"
  rc_stop :: bool

text \<open>\<open>ss << std::hex << static_cast<int>(type)\<close>\<close>

definition hex_int :: "u8 \<Rightarrow> bytes" where
  "hex_int b = (if unat b < 16 then [hex_digit (unat b)] else hex2 b)"

definition error_reply :: "i32 \<Rightarrow> bytes \<Rightarrow> Message" where
  "error_reply code msg = zeroMessage\<lparr>mtype := MSG_ERROR, errorCode := code, errorMessage := msg\<rparr>"

definition echo_reply :: "i64 \<Rightarrow> bytes \<Rightarrow> Message \<Rightarrow> Message" where
  "echo_reply now lang msg =
     (let kvs = kv_put (str ''id'') (str (to_string (sint (echoId msg)))) [];
          kvs = kv_put (str ''data'') (echoData msg) kvs;
          kvs = kv_put (str ''meta'') (echoMeta msg) kvs;
          kvs = kv_put (str ''lang'') lang kvs
      in zeroMessage\<lparr>mtype := MSG_ECHO_RESPONSE, echoStatus := 200,
           echoResults := [\<lparr>idx = now, rtype = 0, kv = kvs\<rparr>]\<rparr>)"

definition serve_message :: "i64 \<Rightarrow> bytes \<Rightarrow> Message \<Rightarrow> reaction res" where
  "serve_message now lang msg =
     (let quiet = \<lparr>rc_reply = None, rc_language = lang, rc_pong = None, rc_stop = False\<rparr>
      in if mtype msg = MSG_HELLO then
           Inr (quiet\<lparr>rc_language := clientLanguage msg,
             rc_reply := Some (zeroMessage\<lparr>mtype := MSG_BONJOUR, serverLanguage := SERVER_LANG\<rparr>)\<rparr>)
         else if mtype msg = MSG_ECHO_REQUEST then Inr (quiet\<lparr>rc_reply := Some (echo_reply now lang msg)\<rparr>)
         else if mtype msg = MSG_KISS_RESPONSE then Inr quiet
         else if mtype msg = MSG_PONG then Inr (quiet\<lparr>rc_pong := Some now\<rparr>)
         else if mtype msg = MSG_RANDOM_NUMBER then
           bind_res (hashNumber (randomNumber msg)) (\<lambda>hash.
             Inr (quiet\<lparr>rc_reply := Some (zeroMessage\<lparr>mtype := MSG_HASH_RESPONSE, randomId := randomId msg, hashHex := hash\<rparr>)\<rparr>))
         else if mtype msg = MSG_DISCONNECT then Inr (quiet\<lparr>rc_stop := True\<rparr>)
         else if mtype msg = MSG_ERROR then Inr quiet
         else Inr (quiet\<lparr>rc_reply := Some (error_reply ERR_UNKNOWN_MSG_TYPE (str ''unknown type 0x'' @ hex_int (mtype msg)))\<rparr>))"

definition serve_payload :: "i64 \<Rightarrow> bytes \<Rightarrow> bytes \<Rightarrow> reaction res" where
  "serve_payload now lang p =
     (case decodeMessage p (length p) of
        Inl OutOfBounds \<Rightarrow> Inl OutOfBounds
      | Inl (RuntimeError what) \<Rightarrow>
          (let unknown = prefix ''unknown message type'' what
           in Inr \<lparr>rc_reply = Some (error_reply (if unknown then ERR_UNKNOWN_MSG_TYPE else ERR_DECODE) (str what)),
                rc_language = lang, rc_pong = None, rc_stop = \<not> unknown\<rparr>)
      | Inr msg \<Rightarrow> serve_message now lang msg)"

section \<open>The reactions\<close>

text \<open>What the server does with a message: the answer, if there is one, and the rest of the reaction.\<close>

fun respond :: "i64 \<Rightarrow> bytes \<Rightarrow> Body \<Rightarrow> Body option" where
  "respond now lang (Hello l) = Some (Bonjour (str ''CPP''))"
| "respond now lang (EchoRequest i m d) = Some (EchoResponse 200 [\<lparr>idx = now, rtype = 0,
     kv = [(str ''data'', d), (str ''id'', str (to_string (sint i))), (str ''lang'', lang), (str ''meta'', m)]\<rparr>])"
| "respond now lang (RandomNumber i n) =
     Some (HashResponse i (concat (map hex2 (take 5 (SHA_256 (str (to_string (sint n))))))))"
| "respond now lang (KissResponse _ _ _) = None"
| "respond now lang (Pong _) = None"
| "respond now lang (Disconnect _) = None"
| "respond now lang (Error _ _) = None"
| "respond now lang b = Some (Error 2 (str ''unknown type 0x'' @ hex_int (code_of b)))"

fun language_after :: "bytes \<Rightarrow> Body \<Rightarrow> bytes" where
  "language_after lang (Hello l) = l"
| "language_after lang _ = lang"

fun is_pong :: "Body \<Rightarrow> bool" where
  "is_pong (Pong _) = True"
| "is_pong _ = False"

fun is_disconnect :: "Body \<Rightarrow> bool" where
  "is_disconnect (Disconnect _) = True"
| "is_disconnect _ = False"

definition reaction_to :: "i64 \<Rightarrow> bytes \<Rightarrow> Body \<Rightarrow> reaction" where
  "reaction_to now lang b =
     \<lparr>rc_reply = map_option message_of (respond now lang b), rc_language = language_after lang b,
      rc_pong = (if is_pong b then Some now else None), rc_stop = is_disconnect b\<rparr>"

section \<open>The reaction to every message\<close>

lemma echo_kv:
  "kv_put (str ''lang'') l (kv_put (str ''meta'') m (kv_put (str ''data'') d (kv_put (str ''id'') i []))) =
     [(str ''data'', d), (str ''id'', i), (str ''lang'', l), (str ''meta'', m)]"
  by simp

lemma serve_message_body: "serve_message now lang (message_of b) = Inr (reaction_to now lang b)"
  by (cases b) (simp_all add: serve_message_def reaction_to_def zeroMessage_def hws_consts SERVER_LANG_def
      error_reply_def hashNumber_digest echo_reply_def)

section \<open>Replies decode\<close>

text \<open>\<open>sendable b\<close>: the message object of \<open>b\<close> is encoded, and the bytes decode to it.\<close>

definition sendable :: "Body \<Rightarrow> bool" where
  "sendable b \<longleftrightarrow> (\<exists>data. encode (message_of b) = Inr data \<and> decodeMessage data (length data) = Inr (message_of b))"

lemma sendableI: "body_ok b \<Longrightarrow> length (enc_body b) < 2 ^ 32 \<Longrightarrow> sendable b"
  using decode_encoded by (simp add: sendable_def encode_body_of del: length_encodeFrame)

lemma ascii_ok: "\<forall>c \<in> set bs. unat c < 128 \<Longrightarrow> length bs < 2 ^ 32 \<Longrightarrow> string_ok bs"
  by (simp add: string_ok_def utf8_text_ascii)

lemma to_string_ok: "string_ok (str (to_string (sint (i :: i64))))"
  using to_string_bytes [of _ "sint i"] length_to_string_i64 [of i] by (intro ascii_ok) fastforce+

lemma hex_ascii: "\<forall>c \<in> set (concat (map hex2 bs)). unat c < 128"
proof -
  have "\<forall>c \<in> set (str ''0123456789abcdef''). unat c < 128" by simp
  then show ?thesis using hex_bytes(2) [of bs] by blast
qed

lemma hex_int_ascii: "c \<in> set (hex_int b) \<Longrightarrow> unat c < 128" "length (hex_int b) \<le> 2"
proof -
  have "\<forall>c \<in> set (str ''0123456789abcdef''). unat c < 128" by simp
  then show "unat c < 128" if "c \<in> set (hex_int b)"
    using that hex2_range [of b] hex_digit_range [of "unat b"] unfolding hex_int_def
    by (auto simp del: str_simps split: if_splits)
  show "length (hex_int b) \<le> 2" by (simp add: hex_int_def hex2_def)
qed

lemma unknown_type_ok: "string_ok (str ''unknown type 0x'' @ hex_int b)"
  using hex_int_ascii(1) [of _ b] hex_int_ascii(2) [of b] by (intro ascii_ok) auto

lemma echo_keys_ok: "kv_wf [(str ''data'', d), (str ''id'', i), (str ''lang'', l), (str ''meta'', m)]"
  "string_ok (str ''data'')" "string_ok (str ''id'')" "string_ok (str ''lang'')" "string_ok (str ''meta'')"
  by (simp_all add: kv_wf_def ascii_ok)

lemma server_lang_ok: "string_ok (str ''CPP'')"
  by (simp add: ascii_ok)

definition LIMIT :: nat where
  "LIMIT = 1048576"

text \<open>The answers to messages that fit a WebSocket message are encoded and decode to what they should.\<close>

lemma respond_sendable:
  assumes "respond now lang b = Some b'" and "body_ok b" and "string_ok lang" and "length lang \<le> LIMIT"
    and "\<And>i t d. b = EchoRequest i t d \<Longrightarrow> length t + length d \<le> LIMIT"
  shows "sendable b'"
proof (rule sendableI)
  show "body_ok b'"
  proof (cases b)
    case (EchoRequest i t d)
    then show ?thesis using assms(1-3) echo_keys_ok(1) [of d "str (to_string (sint i))" lang t] echo_keys_ok(2-5) to_string_ok [of i]
      by (auto simp del: str_simps simp: result_ok_def kv_ok_def entry_ok_def)
  next
    case (RandomNumber i n)
    then show ?thesis using assms(1) hex_ascii hex_bytes(1) by (auto intro!: ascii_ok)
  qed (use assms(1) in \<open>auto simp del: str_simps simp: unknown_type_ok server_lang_ok\<close>)
  show "length (enc_body b') < 2 ^ 32"
  proof (cases b)
    case (EchoRequest i t d)
    then show ?thesis using assms(1,4) assms(5) [OF EchoRequest] length_to_string_i64 [of i]
      by (auto simp: enc_result_def enc_kv_def enc_entry_def enc_string_def LIMIT_def)
  next
    case (RandomNumber i n)
    then show ?thesis using assms(1) by (auto simp: enc_string_def hex_bytes)
  qed (use assms(1) hex_int_ascii(2) [of "code_of b"] in \<open>auto simp: enc_string_def\<close>)
qed

lemma fixed_errors_plain:
  "list_all (\<lambda>w. length w \<le> 64 \<and> list_all (\<lambda>c. unat (of_char c :: u8) < 128) w) fixed_errors"
  "list_all (\<lambda>w. prefix ''unknown message type'' w \<longleftrightarrow> w = ''unknown message type'') fixed_errors"
  by (simp_all add: fixed_errors_def)

lemma error_text:
  assumes "w \<in> decode_errors n"
  shows "string_ok (str w)" "length w \<le> 64" "prefix ''unknown message type'' w \<longleftrightarrow> w = ''unknown message type''"
proof -
  have "length w \<le> 64 \<and> (\<forall>c \<in> set (str w). unat c < 128)
      \<and> (prefix ''unknown message type'' w \<longleftrightarrow> w = ''unknown message type'')"
  proof (cases "w \<in> set fixed_errors")
    case True
    then show ?thesis using fixed_errors_plain by (auto simp: list_all_iff str_def)
  next
    case False
    then have short: "n < 8" "w = ''frame too short: '' @ to_string (int n)"
      using assms by (simp_all add: decode_errors_def split: if_splits)
    have "length (dec_nat n) \<le> 1" using length_dec_nat [of n 0] short(1) by simp
    then have "length (to_string (int n)) \<le> 1" by (simp add: to_string_def)
    moreover have "unat c < 128" if "c \<in> set (str (to_string (int n)))" for c using to_string_bytes [OF that] by simp
    ultimately show ?thesis using short(2) by auto
  qed
  then show "string_ok (str w)" "length w \<le> 64" "prefix ''unknown message type'' w \<longleftrightarrow> w = ''unknown message type''"
    by (simp_all add: ascii_ok)
qed

lemma error_sendable: "w \<in> decode_errors n \<Longrightarrow> sendable (Error c (str w))"
  using error_text [of w n] by (intro sendableI) (auto simp: enc_string_def)

section \<open>Properties\<close>

lemma decoded_sizes:
  assumes "decodeMessage p (length p) = Inr (message_of b)" and "length p \<le> LIMIT"
  shows "body_ok b" "b = EchoRequest i t d \<Longrightarrow> length t + length d \<le> LIMIT"
    "length lang \<le> LIMIT \<Longrightarrow> length (language_after lang b) \<le> LIMIT"
proof -
  obtain b' flags bs extra where b': "message_of b = message_of b'" "body_bytes b' bs"
    "p = [0x48, 0x01, code_of b', flags] @ be32 (of_nat (length (bs @ extra))) @ bs @ extra"
    using assms(1) unfolding decodeMessage_bytes by blast
  have [simp]: "b' = b" using arg_cong [OF b'(1), of body_of] by simp
  show "body_ok b" using body_bytes_ok [OF b'(2)] by simp
  have "length bs \<le> LIMIT" using b'(3) assms(2) by simp
  then show "b = EchoRequest i t d \<Longrightarrow> length t + length d \<le> LIMIT"
      "length lang \<le> LIMIT \<Longrightarrow> length (language_after lang b) \<le> LIMIT"
    using b'(2) by (auto simp: body_bytes_def enc_string_def split: Body.splits)
qed

text \<open>The reaction to a message and to bytes that are none.\<close>

lemma serve_decoded:
  assumes "decodeMessage p (length p) = Inr (message_of b)" and "length p \<le> LIMIT" and "string_ok lang" "length lang \<le> LIMIT"
  shows "serve_payload now lang p = Inr (reaction_to now lang b)" "respond now lang b = Some b' \<Longrightarrow> sendable b'"
    "string_ok (language_after lang b)" "length (language_after lang b) \<le> LIMIT"
proof -
  note sizes = decoded_sizes [OF assms(1,2)]
  show "serve_payload now lang p = Inr (reaction_to now lang b)"
    by (simp add: serve_payload_def assms(1) serve_message_body)
  show "sendable b'" if "respond now lang b = Some b'"
    using respond_sendable [OF that sizes(1) assms(3,4)] sizes(2) by blast
  show "string_ok (language_after lang b)" using sizes(1) assms(3) by (cases b) simp_all
  show "length (language_after lang b) \<le> LIMIT" using sizes(3) assms(4) by simp
qed

lemma serve_rejected:
  assumes "decodeMessage p (length p) = Inl e"
  obtains w where "e = RuntimeError w" "serve_payload now lang p =
      Inr \<lparr>rc_reply = Some (message_of (Error (if w = ''unknown message type'' then 2 else 1) (str w))),
           rc_language = lang, rc_pong = None, rc_stop = (w \<noteq> ''unknown message type'')\<rparr>"
    "\<And>c. sendable (Error c (str w))"
proof -
  obtain w where w: "e = RuntimeError w" "w \<in> decode_errors (length p)" using decodeMessage_error [OF assms] by auto
  then show thesis
    using that [of w] error_text(3) [OF w(2)] error_sendable [OF w(2)] assms
    by (simp add: serve_payload_def error_reply_def hws_consts)
qed

section \<open>Properties\<close>

text \<open>
  What \<open>PROTOCOL.md\<close> asks for: the messages that travel to the server (section 4), and the answers that they get (sections 5
  and 6). BONJOUR carries some language; the result of an echo is one of status OK with the fields of the request among its
  key-value pairs; the hash is the first ten hexadecimal digits of the digest of the number's decimal text.
\<close>

fun to_server :: "Body \<Rightarrow> bool" where
  "to_server (Bonjour _) = False"
| "to_server (EchoResponse _ _) = False"
| "to_server (KissRequest _ _ _ _) = False"
| "to_server (Ping _) = False"
| "to_server (TimeNotification _ _) = False"
| "to_server (HashResponse _ _) = False"
| "to_server _ = True"

fun protocol_answer :: "Body \<Rightarrow> Body option \<Rightarrow> bool" where
  "protocol_answer (Hello _) r \<longleftrightarrow> (case r of Some (Bonjour _) \<Rightarrow> True | _ \<Rightarrow> False)"
| "protocol_answer (EchoRequest i m d) r \<longleftrightarrow>
     (case r of Some (EchoResponse status [x]) \<Rightarrow> status = 200 \<and> rtype x = 0
        \<and> map_of (kv x) (str ''id'') = Some (str (to_string (sint i)))
        \<and> map_of (kv x) (str ''meta'') = Some m \<and> map_of (kv x) (str ''data'') = Some d
      | _ \<Rightarrow> False)"
| "protocol_answer (RandomNumber i n) r \<longleftrightarrow>
     r = Some (HashResponse i (take 10 (concat (map hex2 (SHA_256 (str (to_string (sint n))))))))"
| "protocol_answer _ r \<longleftrightarrow> r = None"

lemma hex_digits: "take (2 * n) (concat (map hex2 xs)) = concat (map hex2 (take n xs))"
proof (induction n arbitrary: xs)
  case (Suc n)
  then show ?case by (cases xs) (simp_all add: hex2_def)
qed simp

lemma respond_protocol: "to_server b \<Longrightarrow> protocol_answer b (respond now lang b)"
  using hex_digits [of 5] by (cases b) simp_all

lemma respond_wrong_way: "\<not> to_server b \<Longrightarrow> respond now lang b = Some (Error 2 (str ''unknown type 0x'' @ hex_int (code_of b)))"
  by (cases b) simp_all

text \<open>C10: The server's reaction to every message that decodes. A message that the protocol directs to a server gets the answer of the
  protocol: HELLO a BONJOUR, an echo request one OK result with its fields, a random number the ten digits of its hash, the
  others none; DISCONNECT ends the session, and HELLO sets the client's language. Two points are the code's own: a registered message
  that only servers send gets an ERROR of the code for unknown types, of which the protocol says nothing, and every PONG renews
  the session whatever time it carries, where the protocol asks for a matching one. Every answer is encoded to bytes that decode to it.\<close>

theorem server_answers:
  assumes "decodeMessage p (length p) = Inr (message_of b)" and "length p \<le> 1048576" and "string_ok lang" "length lang \<le> 1048576"
  shows "serve_payload now lang p = Inr (reaction_to now lang b)
    \<and> (to_server b \<longrightarrow> protocol_answer b (respond now lang b))
    \<and> (\<not> to_server b \<longrightarrow> respond now lang b = Some (Error 2 (str ''unknown type 0x'' @ hex_int (code_of b))))
    \<and> (\<forall>b'. respond now lang b = Some b' \<longrightarrow> sendable b')
    \<and> string_ok (language_after lang b) \<and> length (language_after lang b) \<le> 1048576"
  using serve_decoded [of p b lang] respond_protocol [of b now lang] respond_wrong_way [of b now lang] assms by (simp add: LIMIT_def)

theorem server_answers_witness:
  "\<exists>p. decodeMessage p (length p) = Inr (message_of (EchoRequest 7 (str ''m'') (str ''hi'')))
     \<and> serve_payload 1000 (str ''unknown'') p = Inr (reaction_to 1000 (str ''unknown'') (EchoRequest 7 (str ''m'') (str ''hi'')))
     \<and> protocol_answer (EchoRequest 7 (str ''m'') (str ''hi'')) (respond 1000 (str ''unknown'') (EchoRequest 7 (str ''m'') (str ''hi'')))"
proof -
  let ?b = "EchoRequest 7 (str ''m'') (str ''hi'')"
  let ?p = "encodeFrame (code_of ?b) (enc_body ?b)"
  have d: "decodeMessage ?p (length ?p) = Inr (message_of ?b)"
    by (rule decode_encoded) (simp_all add: enc_string_def ascii_ok)
  have "length ?p \<le> 1048576" by (simp add: encodeFrame_layout enc_string_def)
  moreover have "string_ok (str ''unknown'')" "length (str ''unknown'') \<le> 1048576" by (simp_all add: ascii_ok)
  ultimately have "serve_payload 1000 (str ''unknown'') ?p = Inr (reaction_to 1000 (str ''unknown'') ?b)
      \<and> (to_server ?b \<longrightarrow> protocol_answer ?b (respond 1000 (str ''unknown'') ?b))"
    using server_answers [OF d] by blast
  moreover have "to_server ?b" by simp
  ultimately show ?thesis using d by blast
qed

text \<open>C23: Bytes that are no message are answered with an ERROR that carries the exception's text and decodes
  again: code 2 if the type is unknown, and the session goes on; code 1 for everything else, and the
  session ends. No input makes the handler leave its arrays or throw.\<close>

theorem server_rejects:
  assumes "decodeMessage p (length p) = Inl e"
  shows "\<exists>w. e = RuntimeError w \<and> serve_payload now lang p =
      Inr \<lparr>rc_reply = Some (message_of (Error (if w = ''unknown message type'' then 2 else 1) (str w))),
           rc_language = lang, rc_pong = None, rc_stop = (w \<noteq> ''unknown message type'')\<rparr>
    \<and> sendable (Error (if w = ''unknown message type'' then 2 else 1) (str w))"
  using serve_rejected [OF assms, of now lang] by metis

theorem server_rejects_witness:
  "\<exists>w. RuntimeError ''frame too short: 2'' = RuntimeError w \<and> serve_payload 0 [] [0x48, 0x01] =
      Inr \<lparr>rc_reply = Some (message_of (Error (if w = ''unknown message type'' then 2 else 1) (str w))),
           rc_language = [], rc_pong = None, rc_stop = (w \<noteq> ''unknown message type'')\<rparr>
    \<and> sendable (Error (if w = ''unknown message type'' then 2 else 1) (str w))"
proof -
  have "decodeMessage [0x48, 0x01] (length [0x48 :: u8, 0x01]) = Inl (RuntimeError ''frame too short: 2'')"
    by code_simp
  from server_rejects [OF this] show ?thesis by blast
qed

end
