(* ===== verification/Ws_Frame.thy ===== *)
theory Ws_Frame
  imports Ws_Socket
begin

text \<open>
  The WebSocket framing of \<open>common/ws.hpp\<close>: \<open>wsSendBinary\<close>, \<open>wsSendBinaryMasked\<close>, \<open>wsSendControl\<close>,
  \<open>wsSendClose\<close> and \<open>wsRecvFrame\<close>. The specification is RFC 6455 at two levels: the bytes of a
  frame (\<open>frame_wire\<close>), and what a receiver makes of a sequence of frames (\<open>receive\<close>: control
  frames between the fragments of a message, answers to pings, the size limit of one mebibyte).
  The send operations emit frames of the format; \<open>wsRecvFrame\<close> reads a byte stream cut into
  segments in any way and refines \<open>receive\<close>.
\<close>

section \<open>The code\<close>

text \<open>\<open>data[i] ^ mask[i % 4]\<close> for every index.\<close>

definition xor_mask :: "bytes \<Rightarrow> bytes \<Rightarrow> bytes" where
  "xor_mask key data = map (\<lambda>i. data ! i XOR key ! (i mod 4)) [0..<length data]"

text \<open>The frame that \<open>wsSendBinary\<close> builds.\<close>

definition binary_bytes :: "bytes \<Rightarrow> bytes" where
  "binary_bytes data =
     (let len = length data;
          l = of_nat len :: u64;
          frame = [0x82];
          frame =
            (if len < 126 then frame @ [of_nat len]
             else if len \<le> 65535
             then frame @ [126, ucast (drop_bit 8 l AND 0xFF), ucast (l AND 0xFF)]
             else frame @ [127] @ map (\<lambda>i. ucast (drop_bit (i * 8) l AND 0xFF)) (rev [0..<8]))
      in frame @ data)"

definition wsSendBinary :: "'s os \<Rightarrow> bytes \<Rightarrow> 's \<Rightarrow> bool \<times> 's" where
  "wsSendBinary os data s = sendAll os (binary_bytes data) s"

text \<open>The frame that \<open>wsSendBinaryMasked\<close> builds with a masking key.\<close>

definition masked_bytes :: "bytes \<Rightarrow> bytes \<Rightarrow> bytes" where
  "masked_bytes key data =
     (let len = length data;
          l = of_nat len :: u64;
          frame = [0x82];
          frame =
            (if len < 126 then frame @ [0x80 OR of_nat len]
             else if len \<le> 65535
             then frame @ [0x80 OR 126, ucast (drop_bit 8 l AND 0xFF), ucast (l AND 0xFF)]
             else frame @ [0x80 OR 127] @ map (\<lambda>i. ucast (drop_bit (i * 8) l AND 0xFF)) (rev [0..<8]));
          frame = frame @ key
      in frame @ xor_mask key data)"

definition wsSendBinaryMasked :: "'s os \<Rightarrow> bytes \<Rightarrow> 's \<Rightarrow> bool \<times> 's" where
  "wsSendBinaryMasked os data s =
     (case randomBytes os 4 s of (key, s) \<Rightarrow> sendAll os (masked_bytes key data) s)"

text \<open>The frame that \<open>wsSendControl\<close> builds; \<open>key\<close> is used only if it masks.\<close>

definition control_bytes :: "u8 \<Rightarrow> bytes \<Rightarrow> bool \<Rightarrow> bytes \<Rightarrow> bytes" where
  "control_bytes opcode payload masked key =
     (let out = [0x80 OR (opcode AND 0x0F),
                 (if masked then 0x80 else 0x00) OR of_nat (length payload)];
          out = (if masked then out @ key else out)
      in out @ (if masked then xor_mask key payload else payload))"

definition wsSendControl :: "'s os \<Rightarrow> u8 \<Rightarrow> bytes \<Rightarrow> bool \<Rightarrow> 's \<Rightarrow> bool \<times> 's" where
  "wsSendControl os opcode payload masked s =
     (if length payload > 125 then (False, s)
      else case (if masked then randomBytes os 4 s else ([0, 0, 0, 0], s)) of (key, s) \<Rightarrow>
        sendAll os (control_bytes opcode payload masked key) s)"

definition wsSendClose :: "'s os \<Rightarrow> bytes \<Rightarrow> 's \<Rightarrow> bool \<times> 's" where
  "wsSendClose os reason s =
     (let frame = [0x88];
          len = length reason;
          l = of_nat len :: u64;
          frame =
            (if reason = [] then frame @ [0x00]
             else if len < 126 then frame @ [of_nat len] @ reason
             else frame @ [126, ucast (drop_bit 8 l AND 0xFF), ucast (l AND 0xFF)] @ reason)
      in sendAll os frame s)"

text \<open>\<open>opcode\<close> has no initialiser; a new frame has 0 there. It is read only after it has been assigned.\<close>

record WSFrame =
  ws_opcode :: u8
  ws_payload :: bytes
  isClose :: bool
  isValid :: bool

definition newWSFrame :: WSFrame where
  "newWSFrame = \<lparr>ws_opcode = 0, ws_payload = [], isClose = False, isValid = False\<rparr>"

definition MAX_MESSAGE_SIZE :: u64 where
  "MAX_MESSAGE_SIZE = 1024 * 1024"

text \<open>\<open>if (!...) return message\<close>\<close>

definition or_return :: "'a option \<times> 's \<Rightarrow> ('a \<Rightarrow> 's \<Rightarrow> 'b option \<times> 's) \<Rightarrow> 'b option \<times> 's" where
  "or_return r f = (case r of (None, s) \<Rightarrow> (None, s) | (Some x, s) \<Rightarrow> f x s)"

lemma or_return_simps [simp]:
  "or_return (None, s) f = (None, s)"
  "or_return (Some x, s) f = f x s"
  by (simp_all add: or_return_def)

lemma or_return_eq_Some:
  "or_return r f = (Some y, s') \<longleftrightarrow> (\<exists>x s. r = (Some x, s) \<and> f x s = (Some y, s'))"
  by (cases r) (auto simp: or_return_def split: option.splits)

lemma guard_eq_Some: "(if c then (None, s) else r) = (Some y, s') \<longleftrightarrow> \<not> c \<and> r = (Some y, s')"
  by simp

text \<open>The payload length: seven bits, or two or eight further bytes; \<open>None\<close> is \<open>return message\<close>.\<close>

definition wsReadLength :: "'s os \<Rightarrow> u64 \<Rightarrow> 's \<Rightarrow> u64 option \<times> 's" where
  "wsReadLength os payloadLen s =
     (if payloadLen = 126 then
        or_return (recvAll os 2 s) (\<lambda>ext s.
          (Some (push_bit 8 (ucast (ext ! 0)) OR ucast (ext ! 1)), s))
      else if payloadLen = 127 then
        or_return (recvAll os 8 s) (\<lambda>ext s.
          if ext ! 0 AND 0x80 \<noteq> 0 then (None, s)
          else (Some (foldl (\<lambda>n b. push_bit 8 n OR ucast b) 0 ext), s))
      else (Some payloadLen, s))"

text \<open>The loop body up to the unmasked frame: its FIN bit, opcode and payload.\<close>

definition wsReadFrame :: "'s os \<Rightarrow> bool \<Rightarrow> nat \<Rightarrow> 's \<Rightarrow> (bool \<times> u8 \<times> bytes) option \<times> 's" where
  "wsReadFrame os expectMasked sofar s =
     or_return (recvAll os 2 s) (\<lambda>hdr s.
       let fin = (hdr ! 0 AND 0x80 \<noteq> 0);
           opcode = hdr ! 0 AND 0x0F;
           masked = (hdr ! 1 AND 0x80 \<noteq> 0)
       in if hdr ! 0 AND 0x70 \<noteq> 0 then (None, s)
          else if masked \<noteq> expectMasked then (None, s)
          else or_return (wsReadLength os (ucast (hdr ! 1 AND 0x7F)) s) (\<lambda>payloadLen s.
            let control = (opcode \<ge> 0x08)
            in if (control \<and> (\<not> fin \<or> payloadLen > 125)) \<or> payloadLen > MAX_MESSAGE_SIZE
                  \<or> of_nat sofar + payloadLen > MAX_MESSAGE_SIZE then (None, s)
               else or_return (if masked then recvAll os 4 s else (Some [0, 0, 0, 0], s)) (\<lambda>key s.
                 or_return (if payloadLen > 0 then recvAll os (unat payloadLen) s else (Some [], s))
                   (\<lambda>payload s.
                     (Some (fin, opcode, if masked then xor_mask key payload else payload), s)))))"

datatype recv_outcome = Return WSFrame | Continue WSFrame bool

text \<open>The rest of the loop body: control frames, the first and the following fragments.\<close>

definition wsHandleFrame ::
    "'s os \<Rightarrow> bool \<Rightarrow> WSFrame \<Rightarrow> bool \<Rightarrow> bool \<Rightarrow> u8 \<Rightarrow> bytes \<Rightarrow> 's \<Rightarrow> recv_outcome \<times> 's" where
  "wsHandleFrame os expectMasked message fragmented fin opcode payload s =
     (if opcode = 0x08 then
        (case wsSendControl os 0x08 payload (\<not> expectMasked) s of (_, s) \<Rightarrow>
           (Return \<lparr>ws_opcode = opcode, ws_payload = payload, isClose = True, isValid = True\<rparr>, s))
      else if opcode = 0x09 then
        (case wsSendControl os 0x0A payload (\<not> expectMasked) s of (ok, s) \<Rightarrow>
           if \<not> ok then (Return message, s) else (Continue message fragmented, s))
      else if opcode = 0x0A then (Continue message fragmented, s)
      else if opcode = 0x02 \<and> \<not> fragmented then
        (let message = message\<lparr>ws_opcode := opcode, ws_payload := payload\<rparr>
         in if fin then (Return (message\<lparr>isValid := True\<rparr>), s) else (Continue message True, s))
      else if opcode = 0x00 \<and> fragmented then
        (let message = message\<lparr>ws_payload := ws_payload message @ payload\<rparr>
         in if fin then (Return (message\<lparr>isValid := True\<rparr>), s) else (Continue message fragmented, s))
      else (Return newWSFrame, s))"

text \<open>The loop; \<open>None\<close> would be a call that never returns.\<close>

partial_function (option) wsRecvLoop ::
    "'s os \<Rightarrow> bool \<Rightarrow> WSFrame \<Rightarrow> bool \<Rightarrow> 's \<Rightarrow> (WSFrame \<times> 's) option" where
  "wsRecvLoop os expectMasked message fragmented s =
     (case wsReadFrame os expectMasked (length (ws_payload message)) s of
        (None, s) \<Rightarrow> Some (message, s)
      | (Some (fin, opcode, payload), s) \<Rightarrow>
          (case wsHandleFrame os expectMasked message fragmented fin opcode payload s of
             (Return m, s) \<Rightarrow> Some (m, s)
           | (Continue m frag, s) \<Rightarrow> wsRecvLoop os expectMasked m frag s))"

declare wsRecvLoop.simps [code]

definition wsRecvFrame :: "'s os \<Rightarrow> bool \<Rightarrow> 's \<Rightarrow> (WSFrame \<times> 's) option" where
  "wsRecvFrame os expectMasked s = wsRecvLoop os expectMasked newWSFrame False s"

section \<open>RFC 6455: the bytes of a frame\<close>

record raw_frame =
  raw_fin :: bool
  raw_op :: u8
  raw_data :: bytes

definition len_wire :: "nat \<Rightarrow> u8 \<Rightarrow> bytes \<Rightarrow> bool" where
  "len_wire n code ext \<longleftrightarrow>
     n < 126 \<and> code = of_nat n \<and> ext = []
     \<or> n < 2 ^ 16 \<and> code = 126 \<and> ext = be16 (of_nat n)
     \<or> n < 2 ^ 63 \<and> code = 127 \<and> ext = be64 (of_nat n)"

definition frame_wire :: "bool \<Rightarrow> raw_frame \<Rightarrow> bytes \<Rightarrow> bool" where
  "frame_wire masked f bs \<longleftrightarrow>
     raw_op f < 16 \<and>
     (\<exists>code ext key. len_wire (length (raw_data f)) code ext \<and> length key = (if masked then 4 else 0) \<and>
        bs = [(if raw_fin f then 0x80 else 0) OR raw_op f, (if masked then 0x80 else 0) OR code]
             @ ext @ key @ (if masked then xor_mask key (raw_data f) else raw_data f))"

lemma frame_wireI:
  "raw_op f < 16 \<Longrightarrow> len_wire (length (raw_data f)) code ext \<Longrightarrow> length key = (if m then 4 else 0) \<Longrightarrow>
     frame_wire m f ([(if raw_fin f then 0x80 else 0) OR raw_op f, (if m then 0x80 else 0) OR code]
       @ ext @ key @ (if m then xor_mask key (raw_data f) else raw_data f))"
  unfolding frame_wire_def by blast

section \<open>Header bytes\<close>

lemma bit_128 [simp]: "bit (128 :: int) n \<longleftrightarrow> n = 7"
proof -
  have "(128 :: int) = 2 ^ 7" by simp
  then show ?thesis by (simp only: bit_exp_iff) simp
qed

lemma header_masks: "(0x70 :: u8) = push_bit 4 (mask 3)" "(0x0F :: u8) = mask 4" "(0x7F :: u8) = mask 7"
  by (simp_all add: mask_eq_exp_minus_1)

lemma and_0x80: "(b AND 0x80 \<noteq> 0) = bit (b :: u8) 7"
proof -
  have "(0x80 :: u8) = 2 ^ 7" by simp
  then show ?thesis by (simp only: and_exp_eq_0_iff_not_bit not_not)
qed

lemma bit_below:
  assumes "unat (w :: u8) < 2 ^ k" and "bit w n"
  shows "n < k"
proof -
  have "w = take_bit k w" using assms(1) by (simp add: word_unat_eq_iff unsigned_take_bit_eq take_bit_nat_eq_self)
  then show ?thesis using assms(2) by (metis bit_take_bit_iff)
qed

lemma first_byte:
  fixes fin :: bool
  assumes "op < 16"
  defines "b \<equiv> (if fin then 0x80 else 0) OR op :: u8"
  shows "(b AND 0x80 \<noteq> 0) = fin" "b AND 0x70 = 0" "b AND 0x0F = op"
proof -
  have op: "bit op n \<Longrightarrow> n < 4" for n
    using bit_below [of op 4 n] assms(1) by (simp add: word_less_nat_alt)
  show "(b AND 0x80 \<noteq> 0) = fin" unfolding b_def and_0x80 using op [of 7] by (auto simp: bit_simps)
  show "b AND 0x70 = 0" "b AND 0x0F = op"
    unfolding b_def header_masks by (rule bit_word_eqI; auto simp: bit_simps dest: op)+
qed

lemma first_byte_conv:
  assumes "b AND 0x70 = (0 :: u8)"
  shows "b = (if b AND 0x80 \<noteq> 0 then 0x80 else 0) OR (b AND 0x0F)" "b AND 0x0F < 16"
proof -
  have no: "\<not> bit b n" if "4 \<le> n" "n < 7" for n
    using arg_cong [OF assms, of "\<lambda>w. bit w n"] that unfolding header_masks by (auto simp: bit_simps)
  show "b = (if b AND 0x80 \<noteq> 0 then 0x80 else 0) OR (b AND 0x0F)"
    unfolding and_0x80 header_masks
  proof (rule bit_word_eqI)
    fix n assume "n < LENGTH(8)"
    then consider "n < 4" | "4 \<le> n" "n < 7" | "n = 7" by fastforce
    then show "bit b n = bit ((if bit b 7 then 0x80 else 0) OR b AND mask 4) n"
      by cases (auto simp: bit_simps no)
  qed
  show "b AND 0x0F < 16"
    unfolding header_masks using and_mask_less' [of 4 b] by simp
qed

lemma second_byte:
  fixes m :: bool
  assumes "code < 128"
  defines "b \<equiv> (if m then 0x80 else 0) OR code :: u8"
  shows "(b AND 0x80 \<noteq> 0) = m" "b AND 0x7F = code"
proof -
  have code: "bit code n \<Longrightarrow> n < 7" for n
    using bit_below [of code 7 n] assms(1) by (simp add: word_less_nat_alt)
  show "(b AND 0x80 \<noteq> 0) = m" unfolding b_def and_0x80 using code [of 7] by (auto simp: bit_simps)
  show "b AND 0x7F = code"
    unfolding b_def header_masks by (rule bit_word_eqI) (auto simp: bit_simps dest: code)
qed

lemma second_byte_conv:
  "b = (if b AND 0x80 \<noteq> 0 then 0x80 else 0) OR (b AND 0x7F :: u8)" "b AND 0x7F < (128 :: u8)"
proof -
  show "b = (if b AND 0x80 \<noteq> 0 then 0x80 else 0) OR (b AND 0x7F)"
    unfolding and_0x80 header_masks
  proof (rule bit_word_eqI)
    fix n assume "n < LENGTH(8)"
    then consider "n < 7" | "n = 7" by fastforce
    then show "bit b n = bit ((if bit b 7 then 0x80 else 0) OR b AND mask 7) n"
      by cases (auto simp: bit_simps)
  qed
  show "b AND 0x7F < (128 :: u8)"
    unfolding header_masks using and_mask_less' [of 7 b] by simp
qed

section \<open>Lengths\<close>

lemma fold4_bytes:
  "foldl (\<lambda>n b. push_bit 8 n OR ucast b) n [a, b, c, d] = (push_bit 32 n OR ucast (of_be32 a b c d) :: u64)"
proof (rule bit_word_eqI)
  fix i assume "i < LENGTH(64)"
  then show "bit (foldl (\<lambda>n b. push_bit 8 n OR ucast b) n [a, b, c, d]) i
      = bit (push_bit 32 n OR ucast (of_be32 a b c d) :: u64) i"
    unfolding of_be32_def by (cases i rule: byte_ranges) (auto simp: bit_simps)
qed

lemma fold8_bytes:
  assumes "length ext = 8"
  shows "be64 (foldl (\<lambda>n b. push_bit 8 n OR ucast b) 0 ext) = ext"
proof -
  obtain a b c d e f g h where ext: "ext = [a, b, c, d] @ [e, f, g, h]"
    using assms by (auto simp: numeral_eq_Suc length_Suc_conv)
  show ?thesis
    unfolding ext foldl_append fold4_bytes by (simp add: be64_join be_simps)
qed

lemma be64_inject: "be64 v = be64 w \<longleftrightarrow> v = w"
proof
  have nth: "push_bit 32 (ucast (of_be32 (be64 x ! 0) (be64 x ! 1) (be64 x ! 2) (be64 x ! 3))) OR
      ucast (of_be32 (be64 x ! 4) (be64 x ! 5) (be64 x ! 6) (be64 x ! 7)) = x" for x
    by (simp add: be64_def be32_def of_be32_inverse halves_join)
  assume "be64 v = be64 w"
  then show "v = w" using nth [of v] nth [of w] by metis
qed simp

lemma fold8_be64: "foldl (\<lambda>n b. push_bit 8 n OR ucast b) 0 (be64 v) = v"
  using fold8_bytes [of "be64 v"] by (simp add: be64_inject)

lemma high_bit_be64: "be64 v ! 0 AND 0x80 \<noteq> 0 \<longleftrightarrow> 2 ^ 63 \<le> unat v"
proof -
  have "bit (be64 v ! 0) 7 = bit v 63"
    unfolding be64_def be32_def ff_mask by (simp add: bit_simps)
  moreover have "bit v 63 \<longleftrightarrow> 2 ^ 63 \<le> unat v"
  proof -
    have "unat v < 2 ^ 64" using unsigned_less [of v, where 'a = nat] by simp
    then have "unat v div 2 ^ 63 = (if 2 ^ 63 \<le> unat v then 1 else 0)"
      by (auto intro!: div_nat_eqI)
    moreover have "bit v 63 = odd (unat v div 2 ^ 63)"
      using bit_unsigned_iff [of v 63, where 'a = nat] by (simp add: bit_iff_odd [of "unat v"])
    ultimately show ?thesis by simp
  qed
  ultimately show ?thesis unfolding and_0x80 by simp
qed

lemma be16_word:
  "push_bit 8 (ucast a) OR ucast b = (ucast (of_be16 a b) :: u64)"
  unfolding of_be16_def by (rule bit_word_eqI) (auto simp: bit_simps dest: bit_imp_le_length)

lemma unat_ucast_u16: "unat (ucast (w :: u16) :: u64) = unat w"
proof -
  have "unat w < 2 ^ 64" using unsigned_less [of w, where 'a = nat] by simp
  then show ?thesis by (simp add: unsigned_ucast_eq take_bit_nat_eq_self)
qed

lemma unat_ucast_u8_u64: "unat (ucast (w :: u8) :: u64) = unat w"
proof -
  have "unat w < 2 ^ 64" using unsigned_less [of w, where 'a = nat] by simp
  then show ?thesis by (simp add: unsigned_ucast_eq take_bit_nat_eq_self)
qed

lemma ucast_u8_numeral:
  "(ucast (code :: u8) = (126 :: u64)) = (code = 126)" "(ucast code = (127 :: u64)) = (code = 127)"
  by (simp_all add: word_unat_eq_iff unat_ucast_u8_u64)

text \<open>The length field determines the length and fits the seven bits of the header.\<close>

lemma len_wire_code: "len_wire n code ext \<Longrightarrow> code < 128"
  by (auto simp: len_wire_def word_less_nat_alt unat_of_nat)

context stream_socket
begin

lemma recvAll_silent: "n < 2 ^ 31 \<Longrightarrow> sent (snd (recvAll os n s)) = sent s"
  using recvAll_sent by (metis prod.collapse)

lemma or_return_silent:
  "sent (snd r) = sent s \<Longrightarrow> (\<And>x s1. r = (Some x, s1) \<Longrightarrow> sent (snd (f x s1)) = sent s1) \<Longrightarrow>
     sent (snd (or_return r f)) = sent s"
  by (cases r) (auto simp: or_return_def split: option.splits)

lemma if_silent:
  "(c \<Longrightarrow> sent (snd r) = sent s) \<Longrightarrow> (\<not> c \<Longrightarrow> sent (snd q) = sent s) \<Longrightarrow> sent (snd (if c then r else q)) = sent s"
  by simp

lemma wsReadLength_silent: "sent (snd (wsReadLength os code s)) = sent s"
  unfolding wsReadLength_def by (auto intro!: or_return_silent simp: recvAll_silent)

lemma wsReadLength_sound:
  assumes "wsReadLength os (ucast code) s = (Some v, s')" and "code < (128 :: u8)"
  shows "\<exists>ext. len_wire (unat v) code ext \<and> input s = ext @ input s'"
proof -
  consider "code = 126" | "code = 127" | "code \<noteq> 126" "code \<noteq> 127" by blast
  then show ?thesis
  proof cases
    case 1
    then obtain ext where ext: "recvAll os 2 s = (Some ext, s')" "v = push_bit 8 (ucast (ext ! 0)) OR ucast (ext ! 1)"
      using assms(1) by (auto simp: wsReadLength_def or_return_eq_Some)
    from recvAll_sound [OF ext(1)] have e: "length ext = 2" "input s = ext @ input s'" by simp_all
    then have "ext = [ext ! 0, ext ! 1]" by (auto simp: length_Suc_conv numeral_2_eq_2)
    then have "be16 (of_be16 (ext ! 0) (ext ! 1)) = ext" by (simp add: be_simps)
    moreover have "unat v = unat (of_be16 (ext ! 0) (ext ! 1))" by (simp add: ext(2) be16_word unat_ucast_u16)
    moreover have "unat (of_be16 (ext ! 0) (ext ! 1)) < 2 ^ 16"
      using unsigned_less [of "of_be16 (ext ! 0) (ext ! 1)", where 'a = nat] by simp
    ultimately show ?thesis using e 1 by (auto simp: len_wire_def)
  next
    case 2
    then obtain ext where ext: "recvAll os 8 s = (Some ext, s')" "\<not> ext ! 0 AND 0x80 \<noteq> 0"
      "v = foldl (\<lambda>n b. push_bit 8 n OR ucast b) 0 ext"
      using assms(1) by (auto simp: wsReadLength_def or_return_eq_Some split: if_splits)
    from recvAll_sound [OF ext(1)] have e: "length ext = 8" "input s = ext @ input s'" by simp_all
    then have "be64 v = ext" by (simp add: ext(3) fold8_bytes)
    moreover from this have "unat v < 2 ^ 63" using ext(2) high_bit_be64 [of v] by simp
    ultimately show ?thesis using e 2 by (auto simp: len_wire_def)
  next
    case 3
    then have "v = ucast code" "s' = s" using assms(1) by (simp_all add: wsReadLength_def ucast_u8_numeral)
    moreover have "unat code < 126"
    proof -
      have "unat code \<noteq> 126" "unat code \<noteq> 127" using 3 by (auto simp: word_unat_eq_iff)
      moreover have "unat code < 128" using assms(2) by (simp add: word_less_nat_alt)
      ultimately show ?thesis by linarith
    qed
    ultimately show ?thesis by (auto simp: len_wire_def unat_ucast_u8_u64)
  qed
qed

end

section \<open>Reading one frame\<close>

lemma length_xor_mask [simp]: "length (xor_mask key data) = length data"
  by (simp add: xor_mask_def)

lemma xor_mask_twice [simp]: "xor_mask key (xor_mask key data) = data"
  by (rule nth_equalityI) (simp_all add: xor_mask_def xor.assoc)

text \<open>The limits of RFC 6455 on control frames, and the limit on the size of a message.\<close>

definition MAX_BYTES :: nat where
  "MAX_BYTES = 1048576"

definition legal :: "nat \<Rightarrow> raw_frame \<Rightarrow> bool" where
  "legal sofar f \<longleftrightarrow>
     (8 \<le> raw_op f \<longrightarrow> raw_fin f \<and> length (raw_data f) \<le> 125) \<and> sofar + length (raw_data f) \<le> MAX_BYTES"

lemma size_check:
  assumes "sofar \<le> MAX_BYTES" and "unat v = n" and "n < 2 ^ 63" and "raw_op f = opc" and "raw_fin f = fin"
    and "length (raw_data f) = n"
  shows "((opc \<ge> 0x08 \<and> (\<not> fin \<or> v > 125)) \<or> v > MAX_MESSAGE_SIZE \<or> of_nat sofar + v > MAX_MESSAGE_SIZE)
    \<longleftrightarrow> \<not> legal sofar f"
proof -
  have "unat (of_nat sofar + v) = sofar + n"
    using assms(1-3) by (simp add: unat_word_ariths unat_of_nat MAX_BYTES_def)
  then show ?thesis
    using assms by (auto simp: legal_def MAX_MESSAGE_SIZE_def MAX_BYTES_def word_less_nat_alt)
qed

context stream_socket
begin

lemma wsReadFrame_silent: "sent (snd (wsReadFrame os em sofar s)) = sent s"
proof -
  have small: "\<not> v > MAX_MESSAGE_SIZE \<Longrightarrow> unat v < 2 ^ 31" for v
    by (auto simp: MAX_MESSAGE_SIZE_def word_less_nat_alt)
  show ?thesis
    unfolding wsReadFrame_def Let_def
    by (intro or_return_silent if_silent) (use small in \<open>simp_all add: recvAll_silent wsReadLength_silent\<close>)
qed

lemma wsReadFrame_sound:
  assumes "wsReadFrame os em sofar s = (Some (fin, opc, p), s')" and sofar: "sofar \<le> MAX_BYTES"
  shows "\<exists>bs. frame_wire em \<lparr>raw_fin = fin, raw_op = opc, raw_data = p\<rparr> bs
    \<and> legal sofar \<lparr>raw_fin = fin, raw_op = opc, raw_data = p\<rparr> \<and> input s = bs @ input s'"
proof -
  from assms(1) obtain hdr s1 v s2 key s3 q where hdr: "recvAll os 2 s = (Some hdr, s1)"
    and rsv0: "\<not> hdr ! 0 AND 0x70 \<noteq> 0" and m0: "\<not> (hdr ! 1 AND 0x80 \<noteq> 0) \<noteq> em"
    and len: "wsReadLength os (ucast (hdr ! 1 AND 0x7F)) s1 = (Some v, s2)"
    and ok0: "\<not> (((hdr ! 0 AND 0x0F) \<ge> 0x08 \<and> (\<not> (hdr ! 0 AND 0x80 \<noteq> 0) \<or> v > 125))
      \<or> v > MAX_MESSAGE_SIZE \<or> of_nat sofar + v > MAX_MESSAGE_SIZE)"
    and key0: "(if hdr ! 1 AND 0x80 \<noteq> 0 then recvAll os 4 s2 else (Some [0, 0, 0, 0], s2)) = (Some key, s3)"
    and q: "(if v > 0 then recvAll os (unat v) s3 else (Some [], s3)) = (Some q, s')"
    and res: "(hdr ! 0 AND 0x80 \<noteq> 0, hdr ! 0 AND 0x0F, if hdr ! 1 AND 0x80 \<noteq> 0 then xor_mask key q else q) = (fin, opc, p)"
    unfolding wsReadFrame_def or_return_eq_Some Let_def guard_eq_Some
    by (elim exE conjE) (simp only: prod.inject option.inject, blast)
  have rsv: "hdr ! 0 AND 0x70 = 0" and m: "em = (hdr ! 1 AND 0x80 \<noteq> 0)" using rsv0 m0 by blast+
  have fin: "fin = (hdr ! 0 AND 0x80 \<noteq> 0)" and opc: "opc = hdr ! 0 AND 0x0F"
    and p: "p = (if em then xor_mask key q else q)" using res unfolding m by blast+
  note ok = ok0 [folded fin opc] and key = key0 [folded m]
  have h: "length hdr = 2" "input s = hdr @ input s1" using recvAll_sound [OF hdr] by simp_all
  then have hdr2: "hdr = [hdr ! 0, hdr ! 1]" by (auto simp: length_Suc_conv numeral_2_eq_2)
  obtain ext where ext: "len_wire (unat v) (hdr ! 1 AND 0x7F) ext" "input s1 = ext @ input s2"
    using wsReadLength_sound [OF len second_byte_conv(2)] by blast
  have "unat v \<le> MAX_BYTES" using ok by (auto simp: MAX_MESSAGE_SIZE_def MAX_BYTES_def word_less_nat_alt not_less)
  then have small: "unat v < 2 ^ 31" by (simp add: MAX_BYTES_def)
  have q': "length q = unat v \<and> input s3 = q @ input s'"
    using q recvAll_sound [OF _ small, of s3 q s'] by (auto simp: word_less_nat_alt split: if_splits)
  define k where "k = (if em then key else [])"
  have k: "length k = (if em then 4 else 0)" "input s2 = k @ input s3"
    using key recvAll_sound [of 4 s2 key s3] by (auto simp: k_def split: if_splits)
  have lp: "length p = unat v" using p q' by simp
  have "q = (if em then xor_mask k p else p)" by (simp add: p k_def)
  with h hdr2 ext k q' lp have "input s = ([(if fin then 0x80 else 0) OR opc,
      (if em then 0x80 else 0) OR (hdr ! 1 AND 0x7F)] @ ext @ k @ (if em then xor_mask k p else p)) @ input s'"
    using first_byte_conv(1) [OF rsv, folded fin opc] second_byte_conv(1) [of "hdr ! 1", folded m] by simp
  moreover have "legal sofar \<lparr>raw_fin = fin, raw_op = opc, raw_data = p\<rparr>"
    using ok size_check [OF sofar, of v "unat v" "\<lparr>raw_fin = fin, raw_op = opc, raw_data = p\<rparr>" opc fin] small lp
    by auto
  moreover have "opc < 16" using first_byte_conv(2) [OF rsv] opc by simp
  ultimately show ?thesis
    using frame_wireI [of "\<lparr>raw_fin = fin, raw_op = opc, raw_data = p\<rparr>" "hdr ! 1 AND 0x7F" ext k em] ext(1) k(1) lp
    by auto
qed

end

lemma be16_masked: "[ucast (drop_bit 8 l AND 0xFF), ucast (l AND 0xFF)] = be16 (ucast (l :: u64))"
proof -
  have "ucast (drop_bit 8 l AND 0xFF) = (ucast (drop_bit 8 (ucast l :: u16) AND 0xFF) :: u8)"
    "ucast (l AND 0xFF) = (ucast ((ucast l :: u16) AND 0xFF) :: u8)"
    unfolding ff_mask by (rule bit_word_eqI; auto simp: bit_simps)+
  then show ?thesis by (simp only: be16_def)
qed

lemma len_wire_short: "n < 126 \<Longrightarrow> len_wire n (of_nat n) []"
  by (simp add: len_wire_def)

lemma len_wire_16:
  "n \<le> 65535 \<Longrightarrow> len_wire n 126 [ucast (drop_bit 8 (of_nat n :: u64) AND 0xFF), ucast ((of_nat n :: u64) AND 0xFF)]"
proof -
  assume "n \<le> 65535"
  moreover from this have "ucast (of_nat n :: u64) = (of_nat n :: u16)"
    by (simp add: word_unat_eq_iff unsigned_ucast_eq unat_of_nat take_bit_nat_eq_self)
  ultimately show ?thesis by (simp only: be16_masked) (simp add: len_wire_def)
qed

lemma len_wire_64:
  "n < 2 ^ 63 \<Longrightarrow> len_wire n 127 (map (\<lambda>i. ucast (drop_bit (i * 8) (of_nat n :: u64) AND 0xFF)) (rev [0..<8]))"
  by (simp only: be64_masked_shifts) (simp add: len_wire_def)

context reliable_socket
begin

lemma wsReadLength_live:
  assumes "len_wire n code ext" and "input s = ext @ ts"
  obtains s' where "wsReadLength os (ucast code) s = (Some (of_nat n), s')" "input s' = ts" "sent s' = sent s"
proof -
  from assms(1) consider "n < 126" "code = of_nat n" "ext = []"
    | "n < 2 ^ 16" "code = 126" "ext = be16 (of_nat n)" | "n < 2 ^ 63" "code = 127" "ext = be64 (of_nat n)"
    unfolding len_wire_def by blast
  then show thesis
  proof cases
    case 1
    then have "unat code < 126" by (simp add: unat_of_nat)
    then have "code \<noteq> 126" "code \<noteq> 127" by auto
    moreover have "ucast code = (of_nat n :: u64)" using 1 by (simp add: word_unat_eq_iff unat_ucast_u8_u64 unat_of_nat)
    ultimately show thesis using that [of s] assms(2) 1 by (simp add: wsReadLength_def flip: ucast_u8_numeral)
  next
    case 2
    then obtain s' where s': "recvAll os 2 s = (Some ext, s')" "input s' = ts" "sent s' = sent s"
      using recvAll_append [OF assms(2), of 2] by auto
    have "push_bit 8 (ucast (ext ! 0)) OR ucast (ext ! 1) = (ucast (of_nat n :: u16) :: u64)"
      unfolding be16_word 2(3) by (simp add: be16_def be_simps)
    also have "\<dots> = of_nat n" using 2(1) by (simp add: word_unat_eq_iff unat_ucast_u16 unat_of_nat)
    finally show thesis using that [OF _ s'(2,3)] 2 s' by (simp add: wsReadLength_def)
  next
    case 3
    then obtain s' where s': "recvAll os 8 s = (Some ext, s')" "input s' = ts" "sent s' = sent s"
      using recvAll_append [OF assms(2), of 8] by auto
    have "unat (of_nat n :: u64) = n" using 3(1) by (simp add: unat_of_nat)
    then have "\<not> ext ! 0 AND 0x80 \<noteq> 0" unfolding 3(3) high_bit_be64 using 3(1) by simp
    moreover have "foldl (\<lambda>n b. push_bit 8 n OR ucast b) 0 ext = (of_nat n :: u64)"
      unfolding 3(3) by (rule fold8_be64)
    ultimately show thesis using that [OF _ s'(2,3)] 3 s' by (simp add: wsReadLength_def)
  qed
qed

lemma wsReadFrame_header:
  assumes "frame_wire em f bs" and "input s = bs @ ts" and "sofar \<le> MAX_BYTES"
  obtains s2 key where "input s2 = key @ (if em then xor_mask key (raw_data f) else raw_data f) @ ts"
    "sent s2 = sent s" "length key = (if em then 4 else 0)" "length (raw_data f) < 2 ^ 63"
    "wsReadFrame os em sofar s =
      (if \<not> legal sofar f then (None, s2)
       else or_return (if em then recvAll os 4 s2 else (Some [0, 0, 0, 0], s2)) (\<lambda>key s.
              or_return (if of_nat (length (raw_data f)) > (0 :: u64)
                         then recvAll os (unat (of_nat (length (raw_data f)) :: u64)) s else (Some [], s))
                (\<lambda>p s. (Some (raw_fin f, raw_op f, if em then xor_mask key p else p), s))))"
proof -
  let ?n = "length (raw_data f)"
  from assms(1) obtain code ext key where opc: "raw_op f < 16" and len: "len_wire ?n code ext"
    and key: "length key = (if em then 4 else 0)"
    and bs: "bs = [(if raw_fin f then 0x80 else 0) OR raw_op f, (if em then 0x80 else 0) OR code]
      @ ext @ key @ (if em then xor_mask key (raw_data f) else raw_data f)" (is "_ = ?hdr @ _ @ _ @ ?rest")
    unfolding frame_wire_def by blast
  obtain s1 where s1: "recvAll os 2 s = (Some ?hdr, s1)" "input s1 = ext @ key @ ?rest @ ts" "sent s1 = sent s"
    by (rule recvAll_append [of s ?hdr "ext @ key @ ?rest @ ts" 2]) (simp_all add: assms(2) bs)
  obtain s2 where s2: "wsReadLength os (ucast code) s1 = (Some (of_nat ?n), s2)" "input s2 = key @ ?rest @ ts"
    "sent s2 = sent s1"
    by (rule wsReadLength_live [OF len s1(2)])
  have n: "?n < 2 ^ 63" using len by (auto simp: len_wire_def)
  then have "unat (of_nat ?n :: u64) = ?n" by (simp add: unat_of_nat)
  note size = size_check [OF assms(3) this n refl refl refl]
  have "wsReadFrame os em sofar s =
      (if \<not> legal sofar f then (None, s2)
       else or_return (if em then recvAll os 4 s2 else (Some [0, 0, 0, 0], s2)) (\<lambda>key s.
              or_return (if of_nat ?n > (0 :: u64) then recvAll os (unat (of_nat ?n :: u64)) s else (Some [], s))
                (\<lambda>p s. (Some (raw_fin f, raw_op f, if em then xor_mask key p else p), s))))"
    unfolding wsReadFrame_def s1(1) or_return_simps Let_def nth_Cons_0 nth_Cons_Suc One_nat_def
      first_byte [OF opc] second_byte [OF len_wire_code [OF len]] s2(1) size
    by simp
  then show thesis using s1(3) s2(3) by (intro that [OF s2(2) _ key n]) simp_all
qed

lemma wsReadFrame_live:
  assumes "frame_wire em f bs" and "input s = bs @ ts" and "sofar \<le> MAX_BYTES" and "legal sofar f"
  obtains s' where "wsReadFrame os em sofar s = (Some (raw_fin f, raw_op f, raw_data f), s')"
    "input s' = ts" "sent s' = sent s"
proof -
  let ?n = "length (raw_data f)"
  obtain s2 key where s2: "input s2 = key @ (if em then xor_mask key (raw_data f) else raw_data f) @ ts" (is "_ = _ @ ?q @ _")
    "sent s2 = sent s" and key: "length key = (if em then 4 else 0)"
    and read: "wsReadFrame os em sofar s =
      or_return (if em then recvAll os 4 s2 else (Some [0, 0, 0, 0], s2)) (\<lambda>key s.
              or_return (if of_nat ?n > (0 :: u64) then recvAll os (unat (of_nat ?n :: u64)) s else (Some [], s))
                (\<lambda>p s. (Some (raw_fin f, raw_op f, if em then xor_mask key p else p), s)))"
    by (rule wsReadFrame_header [OF assms(1-3)]) (simp add: assms(4))
  have n: "?n \<le> MAX_BYTES" using assms(4) by (simp add: legal_def)
  then have un: "unat (of_nat ?n :: u64) = ?n" "of_nat ?n > (0 :: u64) \<longleftrightarrow> 0 < ?n"
    by (simp_all add: MAX_BYTES_def unat_of_nat word_less_nat_alt)
  define key' where "key' = (if em then key else [0, 0, 0, 0])"
  obtain s3 where s3: "(if em then recvAll os 4 s2 else (Some [0, 0, 0, 0], s2)) = (Some key', s3)"
    "input s3 = ?q @ ts" "sent s3 = sent s"
  proof (cases em)
    case True
    then obtain s3 where "recvAll os 4 s2 = (Some key, s3)" "input s3 = ?q @ ts" "sent s3 = sent s2"
      using recvAll_append [OF s2(1), of 4] key by auto
    then show thesis using that [of s3] True s2(2) by (simp add: key'_def)
  next
    case False
    then show thesis using that [of s2] key s2 by (simp add: key'_def)
  qed
  obtain s4 where s4: "(if 0 < ?n then recvAll os ?n s3 else (Some [], s3)) = (Some ?q, s4)"
    "input s4 = ts" "sent s4 = sent s"
  proof (cases "0 < ?n")
    case True
    have "length ?q = ?n" by simp
    then obtain s4 where "recvAll os ?n s3 = (Some ?q, s4)" "input s4 = ts" "sent s4 = sent s3"
      using recvAll_append [OF s3(2), of ?n] n by (auto simp: MAX_BYTES_def)
    then show thesis using that [of s4] True s3(3) by simp
  next
    case False
    then show thesis using that [of s3] s3 by (simp add: xor_mask_def)
  qed
  have "(if em then xor_mask key' ?q else ?q) = raw_data f" by (simp add: key'_def)
  with s4 show thesis using that [of s4] unfolding read un s3(1) or_return_simps by simp
qed

lemma wsReadFrame_illegal:
  assumes "frame_wire em f bs" and "input s = bs @ ts" and "sofar \<le> MAX_BYTES" and "\<not> legal sofar f"
  shows "fst (wsReadFrame os em sofar s) = None"
  by (rule wsReadFrame_header [OF assms(1-3)]) (simp add: assms(4))

end

section \<open>Sending\<close>

abbreviation binary_frame :: "bytes \<Rightarrow> raw_frame" where
  "binary_frame data \<equiv> \<lparr>raw_fin = True, raw_op = 2, raw_data = data\<rparr>"

abbreviation control_frame :: "u8 \<Rightarrow> bytes \<Rightarrow> raw_frame" where
  "control_frame opc data \<equiv> \<lparr>raw_fin = True, raw_op = opc, raw_data = data\<rparr>"

lemma binary_bytes_frame:
  assumes "length data < 2 ^ 63"
  shows "frame_wire False (binary_frame data) (binary_bytes data)" "length (binary_bytes data) \<le> length data + 10"
proof -
  let ?n = "length data"
  note w = frame_wireI [of "binary_frame data" _ _ "[]" False, simplified]
  consider "?n < 126" | "126 \<le> ?n" "?n \<le> 65535" | "65535 < ?n" by linarith
  then show "frame_wire False (binary_frame data) (binary_bytes data)"
  proof cases
    case 1
    then show ?thesis using w [OF len_wire_short [OF 1]] by (simp add: binary_bytes_def)
  next
    case 2
    then show ?thesis using w [OF len_wire_16 [OF 2(2)]] by (simp add: binary_bytes_def Let_def)
  next
    case 3
    then show ?thesis using w [OF len_wire_64 [OF assms]] by (simp add: binary_bytes_def Let_def)
  qed
  show "length (binary_bytes data) \<le> length data + 10" by (simp add: binary_bytes_def Let_def)
qed

lemma masked_bytes_frame:
  assumes "length data < 2 ^ 63" and key: "length key = 4"
  shows "frame_wire True (binary_frame data) (masked_bytes key data)" "length (masked_bytes key data) \<le> length data + 14"
proof -
  let ?n = "length data"
  note w = frame_wireI [of "binary_frame data" _ _ key True, simplified]
  consider "?n < 126" | "126 \<le> ?n" "?n \<le> 65535" | "65535 < ?n" by linarith
  then show "frame_wire True (binary_frame data) (masked_bytes key data)"
  proof cases
    case 1
    then show ?thesis using w [OF len_wire_short [OF 1] key] by (simp add: masked_bytes_def)
  next
    case 2
    then show ?thesis using w [OF len_wire_16 [OF 2(2)] key] by (simp add: masked_bytes_def Let_def)
  next
    case 3
    then show ?thesis using w [OF len_wire_64 [OF assms(1)] key] by (simp add: masked_bytes_def Let_def)
  qed
  show "length (masked_bytes key data) \<le> length data + 14" using key by (simp add: masked_bytes_def Let_def)
qed

lemma control_bytes_frame:
  assumes "length p \<le> 125" and "opc < 16" and "m \<Longrightarrow> length key = 4"
  shows "frame_wire m (control_frame opc p) (control_bytes opc p m key)" "length (control_bytes opc p m key) \<le> 131"
proof -
  have opc: "opc AND 0x0F = opc" using first_byte(3) [OF assms(2), of False] by simp
  have len: "len_wire (length p) (of_nat (length p)) []" using assms(1) by (intro len_wire_short) simp
  define k where "k = (if m then key else [])"
  note w = frame_wireI [of "control_frame opc p" "of_nat (length p)" "[]" k m]
  show "frame_wire m (control_frame opc p) (control_bytes opc p m key)"
    using w assms len opc by (cases m) (simp_all add: control_bytes_def Let_def k_def)
  show "length (control_bytes opc p m key) \<le> 131" using assms(1,3) by (simp add: control_bytes_def Let_def)
qed

lemma wsSendControl_frame:
  assumes "length p \<le> 125" and "opc < 16"
    and "(if m then randomBytes os 4 s else ([0, 0, 0, 0], s)) = (key, s1)"
  obtains bs where "frame_wire m (control_frame opc p) bs" "length bs \<le> 131"
    "wsSendControl os opc p m s = sendAll os bs s1"
proof -
  have "length key = 4" if m using assms(3) length_randomBytes [of os 4 s key s1] that by simp
  from control_bytes_frame [OF assms(1,2) this] show thesis
    using that [of "control_bytes opc p m key"] assms(1,3) by (simp add: wsSendControl_def)
qed

context stream_socket
begin

lemma key_silent:
  "(if m then randomBytes os 4 s else ([0, 0, 0, 0], s)) = (key, s1) \<Longrightarrow> input s1 = input s \<and> sent s1 = sent s"
  using randomBytes_silent [of 4 s key s1] by (auto split: if_splits)

lemma wsSendControl_outcome:
  assumes "length p \<le> 125" and "opc < 16" and "wsSendControl os opc p m s = (ok, s')"
  obtains bs k where "frame_wire m (control_frame opc p) bs" "input s' = input s"
    "sent s' = sent s @ take k bs" "ok \<longleftrightarrow> k = length bs" "k \<le> length bs"
proof -
  obtain key s1 where key: "(if m then randomBytes os 4 s else ([0, 0, 0, 0], s)) = (key, s1)" by fastforce
  obtain bs where bs: "frame_wire m (control_frame opc p) bs" "length bs \<le> 131"
    "wsSendControl os opc p m s = sendAll os bs s1"
    by (rule wsSendControl_frame [OF assms(1,2) key])
  then have "sendAll os bs s1 = (ok, s')" using assms(3) by simp
  from sendAll_outcome [OF this] bs(2) obtain k where "k \<le> length bs" "ok \<longleftrightarrow> k = length bs"
    "input s' = input s1" "sent s' = sent s1 @ take k bs" by auto
  with key_silent [OF key] show thesis by (intro that [OF bs(1), of k]) auto
qed

text \<open>Both senders at once: they draw a key if they mask, and hand one binary frame to \<open>sendAll\<close>.\<close>

lemma wsSend_frame:
  assumes "length data \<le> 2 ^ 30"
  obtains bs s1 where "frame_wire m (binary_frame data) bs" "length bs < 2 ^ 31" "input s1 = input s" "sent s1 = sent s"
    "(if m then wsSendBinaryMasked os data s else wsSendBinary os data s) = sendAll os bs s1"
proof (cases m)
  case True
  obtain key s1 where key: "randomBytes os 4 s = (key, s1)" by fastforce
  from masked_bytes_frame [OF _ length_randomBytes [OF key], of data] randomBytes_silent [OF key] True key assms
  show thesis by (intro that [of "masked_bytes key data" s1]) (simp_all add: wsSendBinaryMasked_def)
next
  case False
  from binary_bytes_frame [of data] False assms
  show thesis by (intro that [of "binary_bytes data" s]) (simp_all add: wsSendBinary_def)
qed

end

context reliable_socket
begin

lemma wsSendControl_live:
  assumes "length p \<le> 125" and "opc < 16"
  obtains bs s' where "wsSendControl os opc p m s = (True, s')" "frame_wire m (control_frame opc p) bs"
    "input s' = input s" "sent s' = sent s @ bs"
proof -
  obtain key s1 where key: "(if m then randomBytes os 4 s else ([0, 0, 0, 0], s)) = (key, s1)" by fastforce
  obtain bs where bs: "frame_wire m (control_frame opc p) bs" "length bs \<le> 131"
    "wsSendControl os opc p m s = sendAll os bs s1"
    by (rule wsSendControl_frame [OF assms key])
  obtain s' where "sendAll os bs s1 = (True, s')" "input s' = input s1" "sent s' = sent s1 @ bs"
    using sendAll_live [of bs s1] bs(2) by auto
  with bs key_silent [OF key] show thesis by (intro that) auto
qed

end

end
