(* ===== verification/Send_Frame.thy ===== *)
theory Send_Frame
  imports Ws_Frame "HOL-Library.Sublist"
begin

text \<open>
  \<open>sendFrame\<close>, the lambda that \<open>handleClient\<close> and \<open>tryConnect\<close> share among their threads: a mutex, a
  test of the atomic \<open>active\<close>, and the loop of \<open>sendAll\<close> over \<open>send\<close>. Its steps interleave with those
  of the other threads: a thread may be stopped between the test and the writes and between two
  writes, and every write may fail, also when later ones succeed. The invariant says what every
  interleaving keeps: the threads exclude each other, and the bytes that \<open>sendFrame\<close> sends are
  pieces of frames, whole frames as long as no write has failed, then a part of the frame that the
  holder of the mutex is writing.
\<close>

section \<open>The code\<close>

text \<open>
  The calls of \<open>send\<close> on a connection so far: who made the call (\<open>sendFrame\<close>, \<open>wsRecvFrame\<close> with a
  reply to a control frame, or the client with its closing frame), and the bytes that were taken or
  \<open>None\<close> for a failure. It records what the peer may see; the code neither reads nor writes it.
\<close>

datatype sender = Message_Frame | Control_Reply | Closing_Frame

type_synonym send_log = "(sender \<times> bytes option) list"

text \<open>The variables that the threads share, and the connection: its calls and whether the descriptor has been closed.\<close>

record 't chan =
  ch_active :: bool
  ch_lock :: "'t option"
  ch_sends :: send_log
  ch_closed :: bool

text \<open>
  Where a call of \<open>sendFrame(data)\<close> stands: before the mutex, before the test of \<open>active\<close>, with bytes
  left to write, before the release with the result. \<open>Write\<close> holds the rest of the frame.
\<close>

datatype call = Acquire bytes | Test bytes | Write bytes | Release bool

text \<open>
  One step of a call by thread \<open>t\<close>: the call goes on or returns. \<open>frames data\<close> are the frames that the
  transport may make of \<open>data\<close>. A write takes some of the bytes or fails. Once the descriptor has been
  closed, a write fails or goes to whatever has got its number since; the peer sees nothing of it.
\<close>

inductive call_step ::
    "(bytes \<Rightarrow> bytes set) \<Rightarrow> 't \<Rightarrow> ('t, 'z) chan_scheme \<Rightarrow> call \<Rightarrow> ('t, 'z) chan_scheme \<Rightarrow> call + bool \<Rightarrow> bool"
  for frames t s where
  lock: "ch_lock s = None \<Longrightarrow> call_step frames t s (Acquire d) (s\<lparr>ch_lock := Some t\<rparr>) (Inl (Test d))"
| test_on: "ch_active s \<Longrightarrow> f \<in> frames d \<Longrightarrow> call_step frames t s (Test d) s (Inl (Write f))"
| test_off: "\<not> ch_active s \<Longrightarrow> call_step frames t s (Test d) s (Inl (Release False))"
| write_some: "\<not> ch_closed s \<Longrightarrow> 0 < k \<Longrightarrow> k \<le> length bs \<Longrightarrow>
    call_step frames t s (Write bs) (s\<lparr>ch_sends := ch_sends s @ [(Message_Frame, Some (take k bs))]\<rparr>)
      (Inl (if k = length bs then Release True else Write (drop k bs)))"
| write_fail: "\<not> ch_closed s \<Longrightarrow>
    call_step frames t s (Write bs) (s\<lparr>ch_sends := ch_sends s @ [(Message_Frame, None)]\<rparr>) (Inl (Release False))"
| write_stray: "ch_closed s \<Longrightarrow> 0 < k \<Longrightarrow> k \<le> length bs \<Longrightarrow>
    call_step frames t s (Write bs) s (Inl (if k = length bs then Release True else Write (drop k bs)))"
| write_closed: "ch_closed s \<Longrightarrow> call_step frames t s (Write bs) s (Inl (Release False))"
| unlock: "call_step frames t s (Release r) (s\<lparr>ch_lock := None\<rparr>) (Inr r)"

inductive_cases call_stepE: "call_step frames t s c s' r"

section \<open>What the peer sees\<close>

fun taken :: "bytes option \<Rightarrow> bytes" where
  "taken None = []"
| "taken (Some bs) = bs"

definition all_sent :: "send_log \<Rightarrow> bytes" where
  "all_sent log = concat (map (taken \<circ> snd) log)"

definition sent_by :: "sender \<Rightarrow> send_log \<Rightarrow> bytes" where
  "sent_by w log = concat (map (taken \<circ> snd) (filter (\<lambda>e. fst e = w) log))"

definition send_failed :: "sender \<Rightarrow> send_log \<Rightarrow> bool" where
  "send_failed w log \<longleftrightarrow> (w, None) \<in> set log"

text \<open>Whether \<open>wsRecvFrame\<close> has written a reply to a control frame.\<close>

definition replied :: "send_log \<Rightarrow> bool" where
  "replied log \<longleftrightarrow> Control_Reply \<in> fst ` set log"

abbreviation ch_out :: "('t, 'z) chan_scheme \<Rightarrow> bytes" where
  "ch_out s \<equiv> all_sent (ch_sends s)"

lemma log_simps [simp]:
  "all_sent [] = []" "sent_by w [] = []" "\<not> send_failed w []" "\<not> replied []"
  "all_sent (log @ [e]) = all_sent log @ taken (snd e)"
  "sent_by w (log @ [e]) = sent_by w log @ (if fst e = w then taken (snd e) else [])"
  "send_failed w (log @ [e]) \<longleftrightarrow> send_failed w log \<or> e = (w, None)"
  "replied (log @ [e]) \<longleftrightarrow> replied log \<or> fst e = Control_Reply"
  by (auto simp: all_sent_def sent_by_def send_failed_def replied_def)

text \<open>A frame with data that the connection is meant to carry, and a piece of one.\<close>

definition entire :: "(bytes \<Rightarrow> bytes set) \<Rightarrow> (bytes \<Rightarrow> bool) \<Rightarrow> bytes \<Rightarrow> bool" where
  "entire frames ok f \<longleftrightarrow> (\<exists>d. ok d \<and> f \<in> frames d)"

definition piece :: "(bytes \<Rightarrow> bytes set) \<Rightarrow> (bytes \<Rightarrow> bool) \<Rightarrow> bytes \<Rightarrow> bool" where
  "piece frames ok q \<longleftrightarrow> (\<exists>f. entire frames ok f \<and> prefix q f)"

definition begun :: "(bytes \<Rightarrow> bytes set) \<Rightarrow> (bytes \<Rightarrow> bool) \<Rightarrow> bytes \<Rightarrow> bool" where
  "begun frames ok p \<longleftrightarrow> p = [] \<or> (\<exists>f. entire frames ok f \<and> strict_prefix p f)"

text \<open>
  The bytes of the messages: pieces of frames one after the other, whole frames if no write has failed,
  and a proper part of one more.
\<close>

definition message_stream :: "(bytes \<Rightarrow> bytes set) \<Rightarrow> (bytes \<Rightarrow> bool) \<Rightarrow> send_log \<Rightarrow> bool" where
  "message_stream frames ok log \<longleftrightarrow>
     (\<exists>qs p. sent_by Message_Frame log = concat qs @ p \<and> list_all (piece frames ok) qs \<and> begun frames ok p
        \<and> (\<not> send_failed Message_Frame log \<longrightarrow> list_all (entire frames ok) qs))"

lemma entire_data: "list_all (entire frames ok) fs \<Longrightarrow> \<exists>ds. list_all2 (\<lambda>d f. ok d \<and> f \<in> frames d) ds fs"
proof (induction fs)
  case (Cons f fs)
  then obtain d ds where "ok d \<and> f \<in> frames d" "list_all2 (\<lambda>d f. ok d \<and> f \<in> frames d) ds fs"
    by (auto simp: entire_def)
  then have "list_all2 (\<lambda>d f. ok d \<and> f \<in> frames d) (d # ds) (f # fs)" by simp
  then show ?case by (rule exI)
qed simp

lemma entire_piece: "entire frames ok f \<Longrightarrow> piece frames ok f"
  unfolding piece_def by blast

lemma unreplied: "\<not> replied log \<Longrightarrow> Closing_Frame \<notin> fst ` set log \<Longrightarrow> all_sent log = sent_by Message_Frame log"
proof (induction log rule: rev_induct)
  case (snoc e log)
  then show ?case by (cases "fst e") auto
qed simp

text \<open>The calls before the first reply to a control frame and the first failed write of a message.\<close>

definition undisturbed :: "send_log \<Rightarrow> send_log" where
  "undisturbed log = takeWhile (\<lambda>e. fst e \<noteq> Control_Reply \<and> e \<noteq> (Message_Frame, None)) log"

lemma undisturbed:
  "\<not> replied (undisturbed log)" "\<not> send_failed Message_Frame (undisturbed log)" "prefix (undisturbed log) log"
  unfolding undisturbed_def replied_def send_failed_def
  by (auto dest: set_takeWhileD simp: takeWhile_is_prefix)

lemma undisturbed_all: "\<not> replied log \<Longrightarrow> \<not> send_failed Message_Frame log \<Longrightarrow> undisturbed log = log"
  unfolding undisturbed_def replied_def send_failed_def by (rule takeWhile_eq_all_conv [THEN iffD2]) force

lemma all_sent_prefix: "prefix log log' \<Longrightarrow> prefix (all_sent log) (all_sent log')"
  by (auto simp: prefix_def all_sent_def)

section \<open>The invariant\<close>

fun holding :: "call \<Rightarrow> bool" where
  "holding (Acquire _) = False"
| "holding _ = True"

fun call_data :: "call \<Rightarrow> bytes option" where
  "call_data (Acquire d) = Some d"
| "call_data (Test d) = Some d"
| "call_data _ = None"

text \<open>The calls in progress, by thread. The bytes that the holder of the mutex still has to write:\<close>

definition pending :: "('t, 'z) chan_scheme \<Rightarrow> ('t \<Rightarrow> call option) \<Rightarrow> bytes option" where
  "pending s calls =
     (case ch_lock s of None \<Rightarrow> None
      | Some t \<Rightarrow> (case calls t of Some (Write bs) \<Rightarrow> Some bs | _ \<Rightarrow> None))"

definition exclusive :: "('t, 'z) chan_scheme \<Rightarrow> ('t \<Rightarrow> call option) \<Rightarrow> bool" where
  "exclusive s calls \<longleftrightarrow> (\<forall>t. ch_lock s = Some t \<longleftrightarrow> (\<exists>c. calls t = Some c \<and> holding c))"

text \<open>While \<open>active\<close> is set, the data that a call is about to send are such as the connection is meant to carry.\<close>

definition sendable_calls :: "(bytes \<Rightarrow> bool) \<Rightarrow> ('t, 'z) chan_scheme \<Rightarrow> ('t \<Rightarrow> call option) \<Rightarrow> bool" where
  "sendable_calls ok s calls \<longleftrightarrow> (\<forall>t c d. calls t = Some c \<longrightarrow> call_data c = Some d \<longrightarrow> ch_active s \<longrightarrow> ok d)"

text \<open>The bytes sent so far and the pending bytes: together they end with a whole frame, until the descriptor is closed.\<close>

definition stream :: "(bytes \<Rightarrow> bytes set) \<Rightarrow> (bytes \<Rightarrow> bool) \<Rightarrow> ('t, 'z) chan_scheme \<Rightarrow> bytes option \<Rightarrow> bool" where
  "stream frames ok s pend \<longleftrightarrow>
     (\<exists>qs p. sent_by Message_Frame (ch_sends s) = concat qs @ p \<and> list_all (piece frames ok) qs
        \<and> (\<not> send_failed Message_Frame (ch_sends s) \<longrightarrow> list_all (entire frames ok) qs)
        \<and> (if ch_closed s then begun frames ok p
           else case pend of None \<Rightarrow> p = [] | Some bs \<Rightarrow> bs \<noteq> [] \<and> entire frames ok (p @ bs)))"

lemma streamI:
  assumes "sent_by Message_Frame (ch_sends s) = concat qs @ p" and "list_all (piece frames ok) qs"
    and "\<not> send_failed Message_Frame (ch_sends s) \<Longrightarrow> list_all (entire frames ok) qs"
    and "if ch_closed s then begun frames ok p
      else case pend of None \<Rightarrow> p = [] | Some bs \<Rightarrow> bs \<noteq> [] \<and> entire frames ok (p @ bs)"
  shows "stream frames ok s pend"
  unfolding stream_def using assms by blast

definition chan_inv ::
    "(bytes \<Rightarrow> bytes set) \<Rightarrow> (bytes \<Rightarrow> bool) \<Rightarrow> ('t, 'z) chan_scheme \<Rightarrow> ('t \<Rightarrow> call option) \<Rightarrow> bool" where
  "chan_inv frames ok s calls \<longleftrightarrow>
     exclusive s calls \<and> sendable_calls ok s calls \<and> stream frames ok s (pending s calls)"

lemma begun_part: "entire frames ok (p @ bs) \<Longrightarrow> bs \<noteq> [] \<Longrightarrow> begun frames ok p"
  unfolding begun_def by (intro disjI2 exI [of _ "p @ bs"]) (simp add: strict_prefix_def)

lemma begun_Nil [simp]: "begun frames ok []"
  by (simp add: begun_def)

lemma begun_pending:
  "(if closed then begun frames ok p else case pend of None \<Rightarrow> p = [] | Some bs \<Rightarrow> bs \<noteq> [] \<and> entire frames ok (p @ bs)) \<Longrightarrow>
     begun frames ok p"
  by (auto simp: begun_part split: if_splits option.splits)

lemma stream_messages: "stream frames ok s pend \<Longrightarrow> message_stream frames ok (ch_sends s)"
  unfolding stream_def message_stream_def using begun_pending by blast

lemma exclusive_only: "exclusive s calls \<Longrightarrow> calls t = Some c \<Longrightarrow> holding c \<Longrightarrow> ch_lock s = Some t"
  unfolding exclusive_def by blast

lemma exclusive_free: "exclusive s calls \<Longrightarrow> ch_lock s = None \<Longrightarrow> calls t = Some c \<Longrightarrow> \<not> holding c"
  unfolding exclusive_def by (metis option.distinct(1))

lemma exclusive_step:
  assumes "exclusive s calls" and "calls t = Some c" and "call_step frames t s c s' r"
  shows "exclusive s' (calls(t := (case r of Inl c' \<Rightarrow> Some c' | Inr _ \<Rightarrow> None)))"
  using assms(3)
proof cases
  case (lock d)
  with assms(1,2) show ?thesis using exclusive_free by (fastforce simp: exclusive_def)
next
  case (unlock x)
  then have "ch_lock s = Some t" using exclusive_only [OF assms(1,2)] by simp
  with unlock assms(1) show ?thesis by (auto simp: exclusive_def)
qed (use exclusive_only [OF assms(1,2)] assms(1) in \<open>auto simp: exclusive_def\<close>)

lemma sendable_step:
  assumes "sendable_calls ok s calls" and "calls t = Some c" and "call_step frames t s c s' r"
  shows "sendable_calls ok s' (calls(t := (case r of Inl c' \<Rightarrow> Some c' | Inr _ \<Rightarrow> None)))"
  using assms(3) by cases (use assms(1,2) in \<open>auto simp: sendable_calls_def split: if_splits\<close>)

text \<open>What a step does to the bytes sent and to the pending bytes.\<close>

lemma pending_step:
  assumes "exclusive s calls" and "calls t = Some c" and "call_step frames t s c s' r"
  defines "calls' \<equiv> calls(t := (case r of Inl c' \<Rightarrow> Some c' | Inr _ \<Rightarrow> None))"
  obtains (same) "ch_sends s' = ch_sends s" "ch_closed s' = ch_closed s" "pending s calls = None" "pending s' calls' = None"
  | (start) d f where "ch_active s" "c = Test d" "f \<in> frames d" "ch_sends s' = ch_sends s" "ch_closed s' = ch_closed s"
      "pending s calls = None" "pending s' calls' = Some f"
  | (more) bs k where "\<not> ch_closed s" "\<not> ch_closed s'" "pending s calls = Some bs" "0 < k" "k \<le> length bs"
      "ch_sends s' = ch_sends s @ [(Message_Frame, Some (take k bs))]"
      "pending s' calls' = (if k = length bs then None else Some (drop k bs))"
  | (broke) bs where "\<not> ch_closed s" "\<not> ch_closed s'" "ch_sends s' = ch_sends s @ [(Message_Frame, None)]"
      "pending s calls = Some bs" "pending s' calls' = None"
  | (gone) "ch_closed s" "ch_closed s'" "ch_sends s' = ch_sends s"
  using assms(3)
proof cases
  case (lock d)
  then show thesis by (intro same) (simp_all add: pending_def calls'_def)
next
  case (test_on f d)
  then show thesis using exclusive_only [OF assms(1,2)] assms(2) by (intro start) (simp_all add: pending_def calls'_def)
next
  case (test_off d)
  then show thesis using exclusive_only [OF assms(1,2)] assms(2) by (intro same) (simp_all add: pending_def calls'_def)
next
  case (write_some k bs)
  then show thesis using exclusive_only [OF assms(1,2)] assms(2) by (intro more [of bs k]) (simp_all add: pending_def calls'_def)
next
  case (write_fail bs)
  then show thesis using exclusive_only [OF assms(1,2)] assms(2) by (intro broke [of bs]) (simp_all add: pending_def calls'_def)
next
  case (unlock x)
  then show thesis using exclusive_only [OF assms(1,2)] assms(2) by (intro same) (simp_all add: pending_def calls'_def)
qed (simp_all add: gone)

lemma stream_step:
  assumes inv: "chan_inv frames ok s calls" and t: "calls t = Some c" "call_step frames t s c s' r" and "\<forall>d. [] \<notin> frames d"
  shows "stream frames ok s' (pending s' (calls(t := (case r of Inl c' \<Rightarrow> Some c' | Inr _ \<Rightarrow> None))))"
proof -
  have ex: "exclusive s calls" and data: "sendable_calls ok s calls" using inv by (simp_all add: chan_inv_def)
  obtain qs p where st: "sent_by Message_Frame (ch_sends s) = concat qs @ p" "list_all (piece frames ok) qs"
    "\<not> send_failed Message_Frame (ch_sends s) \<longrightarrow> list_all (entire frames ok) qs"
    "if ch_closed s then begun frames ok p
     else case pending s calls of None \<Rightarrow> p = [] | Some bs \<Rightarrow> bs \<noteq> [] \<and> entire frames ok (p @ bs)"
    using inv unfolding chan_inv_def stream_def by blast
  show ?thesis using ex t
  proof (cases rule: pending_step)
    case same
    with st show ?thesis by (intro streamI [of _ qs p]) auto
  next
    case (start d f)
    then have "ok d" using data t(1) by (auto simp: sendable_calls_def)
    then have "f \<noteq> []" "entire frames ok f" using assms(4) start by (auto simp: entire_def)
    with start st show ?thesis by (intro streamI [of _ qs p]) auto
  next
    case (more bs k)
    with st have f: "entire frames ok (p @ bs)" by auto
    show ?thesis
    proof (cases "k = length bs")
      case True
      with more st f show ?thesis by (intro streamI [of _ "qs @ [p @ bs]" "[]"]) (auto simp: entire_piece)
    next
      case False
      with more st f show ?thesis by (intro streamI [of _ qs "p @ take k bs"]) auto
    qed
  next
    case (broke bs)
    with st have "piece frames ok p" by (auto simp: piece_def)
    with broke st show ?thesis by (intro streamI [of _ "qs @ [p]" "[]"]) auto
  next
    case gone
    with st show ?thesis by (intro streamI [of _ qs p]) auto
  qed
qed

text \<open>The steps of calls, the beginning of a call, every step that leaves the calls and the messages alone, and the closing.\<close>

lemma chan_inv_call:
  assumes "chan_inv frames ok s calls" and "calls t = Some c" "call_step frames t s c s' r" and "\<forall>d. [] \<notin> frames d"
  shows "chan_inv frames ok s' (calls(t := (case r of Inl c' \<Rightarrow> Some c' | Inr _ \<Rightarrow> None)))"
  using assms(1) stream_step [OF assms] exclusive_step [of s calls t c frames s' r]
    sendable_step [of ok s calls t c frames s' r] assms(2,3) by (simp add: chan_inv_def)

lemma chan_inv_begin:
  assumes "chan_inv frames ok s calls" and "calls t = None" and "ch_active s \<Longrightarrow> ok d"
  shows "chan_inv frames ok s (calls(t := Some (Acquire d)))"
proof -
  have "ch_lock s \<noteq> Some t" using assms(1,2) by (auto simp: chan_inv_def exclusive_def)
  then have "pending s (calls(t := Some (Acquire d))) = pending s calls"
    by (auto simp: pending_def split: option.splits)
  with assms \<open>ch_lock s \<noteq> Some t\<close> show ?thesis
    by (auto simp: chan_inv_def exclusive_def sendable_calls_def)
qed

definition same_messages :: "send_log \<Rightarrow> send_log \<Rightarrow> bool" where
  "same_messages log log' \<longleftrightarrow> sent_by Message_Frame log' = sent_by Message_Frame log
     \<and> send_failed Message_Frame log' = send_failed Message_Frame log"

lemma same_messages_simps [simp]:
  "same_messages log log" "same_messages log (log @ [e]) \<longleftrightarrow> fst e \<noteq> Message_Frame \<or> snd e = Some []
     \<or> send_failed Message_Frame log \<and> snd e = None"
  by (cases e; auto simp: same_messages_def elim: taken.elims)+

lemma chan_inv_cong:
  assumes "chan_inv frames ok s calls" and "ch_lock s' = ch_lock s" and "ch_active s' \<Longrightarrow> ch_active s"
    and "same_messages (ch_sends s) (ch_sends s')" "ch_closed s' = ch_closed s"
  shows "chan_inv frames ok s' calls"
  using assms by (simp add: chan_inv_def exclusive_def sendable_calls_def stream_def pending_def same_messages_def)

lemma chan_inv_close:
  assumes "chan_inv frames ok s calls" and "ch_lock s' = ch_lock s" and "ch_active s' \<Longrightarrow> ch_active s"
    and "ch_sends s' = ch_sends s" "ch_closed s'"
  shows "chan_inv frames ok s' calls"
proof -
  obtain qs p where st: "sent_by Message_Frame (ch_sends s) = concat qs @ p" "list_all (piece frames ok) qs"
    "\<not> send_failed Message_Frame (ch_sends s) \<longrightarrow> list_all (entire frames ok) qs"
    "if ch_closed s then begun frames ok p
     else case pending s calls of None \<Rightarrow> p = [] | Some bs \<Rightarrow> bs \<noteq> [] \<and> entire frames ok (p @ bs)"
    using assms(1) unfolding chan_inv_def stream_def by blast
  have "begun frames ok p" using st(4) by (rule begun_pending)
  then have "stream frames ok s' (pending s' calls)"
    using st assms(4,5) by (intro streamI [of _ qs p]) simp_all
  then show ?thesis using assms(1-3) by (simp add: chan_inv_def exclusive_def sendable_calls_def)
qed

lemma call_step_active: "call_step frames t s c s' r \<Longrightarrow> ch_active s' = ch_active s \<and> ch_closed s' = ch_closed s"
  by (erule call_stepE) simp_all

text \<open>A call writes nothing but its frame.\<close>

lemma call_step_sends:
  "call_step frames t s c s' r \<Longrightarrow> ch_sends s' = ch_sends s \<or> (\<exists>x. ch_sends s' = ch_sends s @ [(Message_Frame, x)])"
  by (erule call_stepE) simp_all

section \<open>After the session has been made inactive\<close>

text \<open>The bytes of the frame in progress that the peer has not seen yet.\<close>

definition unsent :: "('t, 'z) chan_scheme \<Rightarrow> ('t \<Rightarrow> call option) \<Rightarrow> bytes" where
  "unsent s calls = (if ch_closed s then [] else case pending s calls of None \<Rightarrow> [] | Some bs \<Rightarrow> bs)"

lemma unsent_call:
  assumes "exclusive s calls" "calls t = Some c" "call_step frames t s c s' r" and "\<not> ch_active s"
  shows "\<exists>k. sent_by Message_Frame (ch_sends s') = sent_by Message_Frame (ch_sends s) @ take k (unsent s calls)
    \<and> (\<exists>j. unsent s' (calls(t := (case r of Inl c' \<Rightarrow> Some c' | Inr _ \<Rightarrow> None))) = take j (drop k (unsent s calls)))"
  using assms(1-3)
proof (cases rule: pending_step)
  case same
  then show ?thesis by (simp add: unsent_def)
next
  case (more bs k)
  then show ?thesis by (intro exI [of _ k] conjI exI [of _ "length bs"]) (simp_all add: unsent_def)
next
  case (broke bs)
  then show ?thesis by (intro exI [of _ 0] conjI) (simp_all add: unsent_def)
next
  case gone
  then show ?thesis by (simp add: unsent_def)
qed (use assms(4) in simp)

lemma unsent_cong: "ch_lock s' = ch_lock s \<Longrightarrow> ch_closed s' = ch_closed s \<Longrightarrow> unsent s' calls = unsent s calls"
  by (simp add: unsent_def pending_def)

section \<open>Progress\<close>

text \<open>A call can always go on, except before a mutex that another thread holds.\<close>

lemma call_progress:
  assumes "\<forall>d. frames d \<noteq> {}"
  shows "(\<exists>s' r. call_step frames t s c s' r) \<or> (\<exists>d. c = Acquire d \<and> ch_lock s \<noteq> None)"
proof (cases c)
  case (Acquire d)
  then show ?thesis using lock by fastforce
next
  case (Test d)
  obtain f where "f \<in> frames d" using assms by blast
  then show ?thesis using Test test_on test_off by metis
next
  case (Write bs)
  then show ?thesis using write_fail [of s frames t bs] write_closed [of s frames t bs] by blast
next
  case (Release r)
  then show ?thesis using unlock [of frames t s r] by blast
qed

text \<open>If some call is in progress, one can go on: this one or that of the holder of the mutex.\<close>

lemma some_call_steps:
  assumes "exclusive s calls" and "calls t = Some c" and "\<forall>d. frames d \<noteq> {}"
  obtains u c' s' r where "calls u = Some c'" "call_step frames u s c' s' r"
proof (cases "ch_lock s")
  case None
  then show thesis using call_progress [OF assms(3), of t s c] assms(2) that by blast
next
  case (Some u)
  then obtain c' where u: "calls u = Some c'" "holding c'" using assms(1) unfolding exclusive_def by blast
  then have "\<exists>s' r. call_step frames u s c' s' r" using call_progress [OF assms(3), of u s c'] by auto
  then show thesis using that u(1) by blast
qed

text \<open>Steps left of a call once \<open>active\<close> has been cleared.\<close>

fun call_rank :: "call \<Rightarrow> nat" where
  "call_rank (Acquire _) = 3"
| "call_rank (Test _) = 2"
| "call_rank (Write bs) = Suc (Suc (length bs))"
| "call_rank (Release _) = 1"

lemma call_rank_step:
  assumes "call_step frames t s c s' (Inl c')" and "\<not> ch_active s"
  shows "call_rank c' < call_rank c"
  using assms(1) by cases (use assms(2) in \<open>auto split: if_splits\<close>)

section \<open>The replies to control frames\<close>

text \<open>
  The bytes of the replies: whole ones, then what has been written of the last one. \<open>left\<close> is what the
  main thread still has to write of a reply; \<open>over\<close> says that it will write no more replies, so that the last one may be incomplete.
\<close>

definition reply_stream :: "(bytes \<Rightarrow> bool) \<Rightarrow> send_log \<Rightarrow> bytes option \<Rightarrow> bool \<Rightarrow> bool" where
  "reply_stream good log left over \<longleftrightarrow>
     (\<exists>cs q. sent_by Control_Reply log = concat cs @ q \<and> list_all good cs
        \<and> (case left of Some bs \<Rightarrow> bs \<noteq> [] \<and> good (q @ bs)
           | None \<Rightarrow> q = [] \<or> over \<and> (\<exists>f. good f \<and> strict_prefix q f)))"

lemma reply_streamI:
  assumes "sent_by Control_Reply log = concat cs @ q" "list_all good cs"
    and "case left of Some bs \<Rightarrow> bs \<noteq> [] \<and> good (q @ bs) | None \<Rightarrow> q = [] \<or> over \<and> (\<exists>f. good f \<and> strict_prefix q f)"
  shows "reply_stream good log left over"
  unfolding reply_stream_def using assms by blast

lemma reply_streamE:
  assumes "reply_stream good log left over"
  obtains cs q where "sent_by Control_Reply log = concat cs @ q" "list_all good cs"
    "case left of Some bs \<Rightarrow> bs \<noteq> [] \<and> good (q @ bs) | None \<Rightarrow> q = [] \<or> over \<and> (\<exists>f. good f \<and> strict_prefix q f)"
  using assms unfolding reply_stream_def by blast

lemma reply_stream_simps [simp]:
  "reply_stream good [] None over"
  "fst e \<noteq> Control_Reply \<Longrightarrow> reply_stream good (log @ [e]) left over \<longleftrightarrow> reply_stream good log left over"
  by (rule reply_streamI [of _ "[]" "[]"]) (simp_all add: reply_stream_def)

lemma reply_stream_over: "reply_stream good log None over \<Longrightarrow> (over \<Longrightarrow> over') \<Longrightarrow> reply_stream good log None over'"
  unfolding reply_stream_def option.case by blast

lemma reply_stream_begin:
  assumes "reply_stream good log None False" and "good bs" "bs \<noteq> []"
  shows "reply_stream good log (Some bs) over"
  using assms(1) by (rule reply_streamE) (use assms(2,3) in \<open>auto intro!: reply_streamI\<close>)

lemma reply_stream_write:
  assumes "reply_stream good log (Some bs) over" and "k \<le> length bs"
  shows "reply_stream good (log @ [(Control_Reply, Some (take k bs))]) (if k < length bs then Some (drop k bs) else None) over'"
  using assms(1)
proof (rule reply_streamE)
  fix cs q
  assume q: "sent_by Control_Reply log = concat cs @ q" "list_all good cs"
    "case Some bs of Some bs \<Rightarrow> bs \<noteq> [] \<and> good (q @ bs) | None \<Rightarrow> q = [] \<or> over \<and> (\<exists>f. good f \<and> strict_prefix q f)"
  show ?thesis
  proof (cases "k < length bs")
    case True
    with q show ?thesis by (intro reply_streamI [of _ cs "q @ take k bs"]) simp_all
  next
    case False
    with q show ?thesis by (intro reply_streamI [of _ "cs @ [q @ bs]" "[]"]) simp_all
  qed
qed

lemma reply_stream_fail:
  assumes "reply_stream good log (Some bs) over"
  shows "reply_stream good (log @ [(Control_Reply, None)]) None True"
  using assms
proof (rule reply_streamE)
  fix cs q
  assume q: "sent_by Control_Reply log = concat cs @ q" "list_all good cs"
    "case Some bs of Some bs \<Rightarrow> bs \<noteq> [] \<and> good (q @ bs) | None \<Rightarrow> q = [] \<or> over \<and> (\<exists>f. good f \<and> strict_prefix q f)"
  then have "good (q @ bs) \<and> strict_prefix q (q @ bs)" by (simp add: strict_prefix_def)
  then have "\<exists>f. good f \<and> strict_prefix q f" by blast
  with q show ?thesis by (intro reply_streamI [of _ cs q]) simp_all
qed

lemma reply_stream_parts:
  assumes "reply_stream good log left over"
  shows "\<exists>cs q. sent_by Control_Reply log = concat cs @ q \<and> list_all good cs \<and> (q = [] \<or> (\<exists>f. good f \<and> strict_prefix q f))"
  using assms
proof (rule reply_streamE)
  fix cs q
  assume q: "sent_by Control_Reply log = concat cs @ q" "list_all good cs"
    "case left of Some bs \<Rightarrow> bs \<noteq> [] \<and> good (q @ bs) | None \<Rightarrow> q = [] \<or> over \<and> (\<exists>f. good f \<and> strict_prefix q f)"
  have "q = [] \<or> (\<exists>f. good f \<and> strict_prefix q f)"
  proof (cases left)
    case (Some bs)
    then have "good (q @ bs) \<and> strict_prefix q (q @ bs)" using q(3) by (simp add: strict_prefix_def)
    then show ?thesis by blast
  qed (use q(3) in auto)
  with q(1,2) show ?thesis by blast
qed

end
