(* ===== verification/Ws_Receive.thy ===== *)
theory Ws_Receive
  imports Ws_Frame
begin

text \<open>
  What \<open>wsRecvFrame\<close> of \<open>common/ws.hpp\<close> makes of a stream of frames. \<open>receive\<close> is the specification
  on sequences of frames: it assembles the fragments of one binary message, answers pings, stops
  at a close frame, and rejects what RFC 6455 or the size limit forbid. The loop is proved to
  refine it in both directions: on a reliable connection it returns what \<open>receive\<close> says, and
  whatever it returns as valid on any connection is what \<open>receive\<close> says of the frames it consumed.
  The loop ends on every stream that ends.
\<close>

section \<open>Specification\<close>

datatype verdict = Deliver bytes | Closed bytes | Reject

text \<open>The fragments so far, if a fragmented message has begun.\<close>

type_synonym fragments = "bytes option"

definition acc_bytes :: "fragments \<Rightarrow> bytes" where
  "acc_bytes acc = (case acc of None \<Rightarrow> [] | Some p \<Rightarrow> p)"

text \<open>A binary frame begins a message, a continuation frame continues one.\<close>

definition in_order :: "fragments \<Rightarrow> raw_frame \<Rightarrow> bool" where
  "in_order acc f \<longleftrightarrow> (raw_op f = 2 \<and> acc = None) \<or> (raw_op f = 0 \<and> acc \<noteq> None)"

definition accept_frame :: "fragments \<Rightarrow> raw_frame \<Rightarrow> verdict + fragments" where
  "accept_frame acc f =
     (if \<not> legal (length (acc_bytes acc)) f then Inl Reject
      else if raw_op f = 8 then Inl (Closed (raw_data f))
      else if raw_op f = 9 \<or> raw_op f = 10 then Inr acc
      else if in_order acc f then
        (if raw_fin f then Inl (Deliver (acc_bytes acc @ raw_data f)) else Inr (Some (acc_bytes acc @ raw_data f)))
      else Inl Reject)"

definition answer :: "fragments \<Rightarrow> raw_frame \<Rightarrow> raw_frame list" where
  "answer acc f =
     (if \<not> legal (length (acc_bytes acc)) f then []
      else if raw_op f = 8 then [control_frame 8 (raw_data f)]
      else if raw_op f = 9 then [control_frame 10 (raw_data f)]
      else [])"

text \<open>The result is the verdict, the frames sent in reply, and the frames left.\<close>

fun receive :: "fragments \<Rightarrow> raw_frame list \<Rightarrow> (verdict \<times> raw_frame list \<times> raw_frame list) option" where
  "receive acc [] = None"
| "receive acc (f # fs) =
     (case accept_frame acc f of
        Inl v \<Rightarrow> Some (v, answer acc f, fs)
      | Inr acc' \<Rightarrow> map_option (\<lambda>(v, replies, rest). (v, answer acc f @ replies, rest)) (receive acc' fs))"

lemma receive_rest: "receive acc fs = Some (v, replies, rest) \<Longrightarrow> length rest < length fs"
proof (induction fs arbitrary: acc replies)
  case (Cons f fs)
  then show ?case by (fastforce split: sum.splits)
qed simp

section \<open>The state of the loop\<close>

definition loop_msg :: "fragments \<Rightarrow> WSFrame" where
  "loop_msg acc = (case acc of None \<Rightarrow> newWSFrame | Some p \<Rightarrow> newWSFrame\<lparr>ws_opcode := 2, ws_payload := p\<rparr>)"

definition loop_frag :: "fragments \<Rightarrow> bool" where
  "loop_frag acc \<longleftrightarrow> acc \<noteq> None"

fun verdict_frame :: "verdict \<Rightarrow> WSFrame \<Rightarrow> bool" where
  "verdict_frame (Deliver p) fr \<longleftrightarrow> fr = \<lparr>ws_opcode = 2, ws_payload = p, isClose = False, isValid = True\<rparr>"
| "verdict_frame (Closed p) fr \<longleftrightarrow> fr = \<lparr>ws_opcode = 8, ws_payload = p, isClose = True, isValid = True\<rparr>"
| "verdict_frame Reject fr \<longleftrightarrow> \<not> isValid fr"

lemma loop_msg_simps [simp]:
  "ws_payload (loop_msg acc) = acc_bytes acc" "\<not> isValid (loop_msg acc)" "loop_msg None = newWSFrame"
  by (simp_all add: loop_msg_def acc_bytes_def newWSFrame_def split: option.split)

text \<open>A round of the loop on a legal frame, for each kind of frame.\<close>

lemma handle_data:
  assumes "in_order acc f" and "legal n f"
  shows "wsHandleFrame os em (loop_msg acc) (loop_frag acc) (raw_fin f) (raw_op f) (raw_data f) s =
    (if raw_fin f
     then (Return \<lparr>ws_opcode = 2, ws_payload = acc_bytes acc @ raw_data f, isClose = False, isValid = True\<rparr>, s)
     else (Continue (loop_msg (Some (acc_bytes acc @ raw_data f))) (loop_frag (Some (acc_bytes acc @ raw_data f))), s))"
  using assms
  by (auto simp: wsHandleFrame_def in_order_def acc_bytes_def loop_msg_def loop_frag_def newWSFrame_def Let_def split: option.splits)

lemma handle_reject:
  assumes "\<not> in_order acc f" and "raw_op f \<noteq> 8" "raw_op f \<noteq> 9" "raw_op f \<noteq> 10"
  shows "wsHandleFrame os em m (loop_frag acc) (raw_fin f) (raw_op f) (raw_data f) s = (Return newWSFrame, s)"
  using assms by (auto simp: wsHandleFrame_def in_order_def loop_frag_def)

lemma legal_control: "legal n f \<Longrightarrow> 8 \<le> raw_op f \<Longrightarrow> length (raw_data f) \<le> 125"
  by (simp add: legal_def)

lemma accept_size: "accept_frame acc f = Inr acc' \<Longrightarrow> length (acc_bytes acc) \<le> MAX_BYTES \<Longrightarrow> length (acc_bytes acc') \<le> MAX_BYTES"
  by (auto simp: accept_frame_def legal_def acc_bytes_def split: if_splits option.splits)

lemma deliver_size: "accept_frame acc f = Inl (Deliver p) \<Longrightarrow> length p \<le> MAX_BYTES"
  by (auto simp: accept_frame_def legal_def acc_bytes_def split: if_splits option.splits)

lemma control_size:
  "accept_frame acc f = Inl (Closed p) \<Longrightarrow> length p \<le> 125" "accept_frame acc f = Inr acc' \<Longrightarrow> raw_op f = 9 \<Longrightarrow> length (raw_data f) \<le> 125"
  by (auto simp: accept_frame_def legal_def split: if_splits)

lemma handle_size:
  assumes "wsHandleFrame os em (loop_msg acc) frag fin opc p s = (Return fr, s')"
    and "legal (length (acc_bytes acc)) \<lparr>raw_fin = fin, raw_op = opc, raw_data = p\<rparr>"
  shows "length (ws_payload fr) \<le> MAX_BYTES"
  using assms by (auto simp: wsHandleFrame_def legal_def newWSFrame_def Let_def split: if_splits prod.splits)

lemma frame_cases:
  obtains (close) "raw_op f = 8" | (ping) "raw_op f = 9" | (pong) "raw_op f = 10"
  | (data) "in_order acc f" "raw_op f \<noteq> 8" "raw_op f \<noteq> 9" "raw_op f \<noteq> 10"
  | (bad) "\<not> in_order acc f" "raw_op f \<noteq> 8" "raw_op f \<noteq> 9" "raw_op f \<noteq> 10"
  by blast

section \<open>The loop returns what the specification says\<close>

context reliable_socket
begin

lemma handle_live:
  assumes "legal (length (acc_bytes acc)) f"
  shows "\<exists>out s' rbs. wsHandleFrame os em (loop_msg acc) (loop_frag acc) (raw_fin f) (raw_op f) (raw_data f) s = (out, s')
    \<and> list_all2 (frame_wire (\<not> em)) (answer acc f) rbs \<and> input s' = input s \<and> sent s' = sent s @ concat rbs
    \<and> (case accept_frame acc f of
         Inl v \<Rightarrow> \<exists>fr. out = Return fr \<and> verdict_frame v fr
       | Inr acc' \<Rightarrow> out = Continue (loop_msg acc') (loop_frag acc'))"
proof (cases rule: frame_cases [where f = f and acc = acc])
  case close
  then have len: "length (raw_data f) \<le> 125" using legal_control [OF assms] by simp
  obtain rb s' where "wsSendControl os 8 (raw_data f) (\<not> em) s = (True, s')"
    "frame_wire (\<not> em) (control_frame 8 (raw_data f)) rb" "input s' = input s" "sent s' = sent s @ rb"
    by (rule wsSendControl_live [OF len, of 8 "\<not> em" s]) auto
  with close assms show ?thesis
    by (auto simp: wsHandleFrame_def answer_def accept_frame_def intro!: exI [of _ "[rb]"])
next
  case ping
  then have len: "length (raw_data f) \<le> 125" using legal_control [OF assms] by simp
  obtain rb s' where "wsSendControl os 10 (raw_data f) (\<not> em) s = (True, s')"
    "frame_wire (\<not> em) (control_frame 10 (raw_data f)) rb" "input s' = input s" "sent s' = sent s @ rb"
    by (rule wsSendControl_live [OF len, of 10 "\<not> em" s]) auto
  with ping assms show ?thesis
    by (auto simp: wsHandleFrame_def answer_def accept_frame_def intro!: exI [of _ "[rb]"])
next
  case pong
  with assms show ?thesis by (simp add: wsHandleFrame_def answer_def accept_frame_def)
next
  case data
  with assms handle_data [OF data(1) assms, of os em s] show ?thesis
    by (cases "raw_fin f") (simp_all add: answer_def accept_frame_def)
next
  case bad
  with assms handle_reject [OF bad, where os = os and em = em and m = "loop_msg acc" and s = s] show ?thesis
    by (simp add: answer_def accept_frame_def newWSFrame_def)
qed

lemma wsRecvLoop_receive:
  "receive acc fs = Some (v, replies, rest) \<Longrightarrow> list_all2 (frame_wire em) fs bss \<Longrightarrow> input s = concat bss @ ts \<Longrightarrow>
   length (acc_bytes acc) \<le> MAX_BYTES \<Longrightarrow>
     \<exists>fr s' rbs. wsRecvLoop os em (loop_msg acc) (loop_frag acc) s = Some (fr, s') \<and> verdict_frame v fr
       \<and> list_all2 (frame_wire (\<not> em)) replies rbs \<and> sent s' = sent s @ concat rbs
       \<and> (v \<noteq> Reject \<longrightarrow> input s' = concat (drop (length fs - length rest) bss) @ ts)"
proof (induction fs arbitrary: acc bss s replies)
  case (Cons f fs)
  obtain bs bss' where bss: "bss = bs # bss'" and f: "frame_wire em f bs" and fs: "list_all2 (frame_wire em) fs bss'"
    using Cons.prems(2) by (auto simp: list_all2_Cons1)
  have input: "input s = bs @ concat bss' @ ts" using Cons.prems(3) bss by simp
  note loop = wsRecvLoop.simps [of os em "loop_msg acc" "loop_frag acc" s]
  show ?case
  proof (cases "legal (length (acc_bytes acc)) f")
    case False
    then have v: "v = Reject" "replies = []" using Cons.prems(1) by (simp_all add: accept_frame_def answer_def)
    obtain s1 where "wsReadFrame os em (length (acc_bytes acc)) s = (None, s1)"
      using wsReadFrame_illegal [OF f input Cons.prems(4) False] by (metis prod.collapse)
    with loop v wsReadFrame_silent [of em "length (acc_bytes acc)" s] show ?thesis by simp
  next
    case True
    obtain s1 where s1: "wsReadFrame os em (length (acc_bytes acc)) s = (Some (raw_fin f, raw_op f, raw_data f), s1)"
      "input s1 = concat bss' @ ts" "sent s1 = sent s"
      by (rule wsReadFrame_live [OF f input Cons.prems(4) True])
    obtain out s2 rbs where h: "wsHandleFrame os em (loop_msg acc) (loop_frag acc) (raw_fin f) (raw_op f) (raw_data f) s1 = (out, s2)"
      "list_all2 (frame_wire (\<not> em)) (answer acc f) rbs" "input s2 = input s1" "sent s2 = sent s1 @ concat rbs"
      "case accept_frame acc f of Inl v \<Rightarrow> \<exists>fr. out = Return fr \<and> verdict_frame v fr
         | Inr acc' \<Rightarrow> out = Continue (loop_msg acc') (loop_frag acc')"
      using handle_live [OF True, of em s1] by blast
    show ?thesis
    proof (cases "accept_frame acc f")
      case (Inl w)
      with Cons.prems(1) h s1 show ?thesis by (auto simp: loop bss)
    next
      case (Inr acc')
      then obtain replies' where v: "receive acc' fs = Some (v, replies', rest)" "replies = answer acc f @ replies'"
        using Cons.prems(1) by auto
      have "input s2 = concat bss' @ ts" using h(3) s1(2) by simp
      from Cons.IH [OF v(1) fs this accept_size [OF Inr Cons.prems(4)]]
      obtain fr s' rbs' where "wsRecvLoop os em (loop_msg acc') (loop_frag acc') s2 = Some (fr, s')" "verdict_frame v fr"
        "list_all2 (frame_wire (\<not> em)) replies' rbs'" "sent s' = sent s2 @ concat rbs'"
        "v \<noteq> Reject \<longrightarrow> input s' = concat (drop (length fs - length rest) bss') @ ts" by blast
      with Inr h s1 v receive_rest [OF v(1)] show ?thesis
        by (intro exI [of _ fr] exI [of _ s'] exI [of _ "rbs @ rbs'"])
          (simp add: loop bss list_all2_appendI Suc_diff_le)
    qed
  qed
qed simp

end

section \<open>What the loop returns as valid is what the specification says\<close>

fun delivers :: "verdict \<Rightarrow> bool" where
  "delivers (Deliver _) = True"
| "delivers _ = False"

text \<open>
  \<open>received em acc c r fr\<close>: the bytes \<open>c\<close> are frames on which the specification, after the fragments
  \<open>acc\<close>, gives the frame \<open>fr\<close> with the last of them, and \<open>r\<close> are its replies. Only the reply to a
  close frame may have been cut short by the connection: the code does not look at its outcome.
\<close>

definition received :: "bool \<Rightarrow> fragments \<Rightarrow> bytes \<Rightarrow> bytes \<Rightarrow> WSFrame \<Rightarrow> bool" where
  "received em acc c r fr \<longleftrightarrow>
     (\<exists>fs bss v replies rbs k. list_all2 (frame_wire em) fs bss \<and> c = concat bss
        \<and> receive acc fs = Some (v, replies, []) \<and> verdict_frame v fr
        \<and> list_all2 (frame_wire (\<not> em)) replies rbs \<and> r = take k (concat rbs)
        \<and> (delivers v \<longrightarrow> k = length (concat rbs)))"

lemma received_last:
  assumes "frame_wire em f bs" and "accept_frame acc f = Inl v" "verdict_frame v fr"
    and "list_all2 (frame_wire (\<not> em)) (answer acc f) rbs" "delivers v \<longrightarrow> k = length (concat rbs)"
  shows "received em acc bs (take k (concat rbs)) fr"
  unfolding received_def using assms
  by (intro exI [of _ "[f]"] exI [of _ "[bs]"] exI [of _ v] exI [of _ "answer acc f"] exI [of _ rbs] exI [of _ k]) simp

lemma received_cons:
  assumes "frame_wire em f bs" and "accept_frame acc f = Inr acc'"
    and "list_all2 (frame_wire (\<not> em)) (answer acc f) rbs" and "received em acc' c r fr"
  shows "received em acc (bs @ c) (concat rbs @ r) fr"
proof -
  obtain fs bss v replies rbs' k where r: "list_all2 (frame_wire em) fs bss" "c = concat bss"
    "receive acc' fs = Some (v, replies, [])" "verdict_frame v fr" "list_all2 (frame_wire (\<not> em)) replies rbs'"
    "r = take k (concat rbs')" "delivers v \<longrightarrow> k = length (concat rbs')"
    using assms(4) unfolding received_def by blast
  then show ?thesis
    unfolding received_def using assms(1-3)
    by (intro exI [of _ "f # fs"] exI [of _ "bs # bss"] exI [of _ v] exI [of _ "answer acc f @ replies"]
        exI [of _ "rbs @ rbs'"] exI [of _ "length (concat rbs) + k"]) (simp add: list_all2_appendI)
qed

context stream_socket
begin

lemma handle_sound:
  assumes legal: "legal (length (acc_bytes acc)) f"
    and h: "wsHandleFrame os em (loop_msg acc) (loop_frag acc) (raw_fin f) (raw_op f) (raw_data f) s = (out, s')"
  shows "\<exists>rbs k. input s' = input s \<and> list_all2 (frame_wire (\<not> em)) (answer acc f) rbs
    \<and> sent s' = sent s @ take k (concat rbs)
    \<and> (case out of
         Return fr \<Rightarrow> isValid fr \<longrightarrow>
           (\<exists>v. accept_frame acc f = Inl v \<and> verdict_frame v fr \<and> (delivers v \<longrightarrow> k = length (concat rbs)))
       | Continue m frag \<Rightarrow> \<exists>acc'. accept_frame acc f = Inr acc' \<and> m = loop_msg acc' \<and> frag = loop_frag acc'
           \<and> k = length (concat rbs))"
proof (cases rule: frame_cases [where f = f and acc = acc])
  case close
  then have len: "length (raw_data f) \<le> 125" using legal_control [OF legal] by simp
  obtain ok s1 where c: "wsSendControl os 8 (raw_data f) (\<not> em) s = (ok, s1)" by fastforce
  obtain rb k where "frame_wire (\<not> em) (control_frame 8 (raw_data f)) rb" "input s1 = input s"
    "sent s1 = sent s @ take k rb"
    by (rule wsSendControl_outcome [OF len _ c]) auto
  with close legal h c show ?thesis
    by (auto simp: wsHandleFrame_def answer_def accept_frame_def intro!: exI [of _ "[rb]"] exI [of _ k])
next
  case ping
  then have len: "length (raw_data f) \<le> 125" using legal_control [OF legal] by simp
  obtain ok s1 where c: "wsSendControl os 10 (raw_data f) (\<not> em) s = (ok, s1)" by fastforce
  obtain rb k where "frame_wire (\<not> em) (control_frame 10 (raw_data f)) rb" "input s1 = input s"
    "sent s1 = sent s @ take k rb" "ok \<longleftrightarrow> k = length rb"
    by (rule wsSendControl_outcome [OF len _ c]) auto
  with ping legal h c show ?thesis
    by (cases ok) (auto simp: wsHandleFrame_def answer_def accept_frame_def intro!: exI [of _ "[rb]"] exI [of _ k])
next
  case pong
  with legal h show ?thesis by (auto simp: wsHandleFrame_def answer_def accept_frame_def)
next
  case data
  with legal h handle_data [OF data(1) legal, of os em s] show ?thesis
    by (cases "raw_fin f") (auto simp: answer_def accept_frame_def)
next
  case bad
  with legal h handle_reject [OF bad, where os = os and em = em and m = "loop_msg acc" and s = s] show ?thesis
    by (auto simp: answer_def accept_frame_def newWSFrame_def)
qed

text \<open>A round that reads a frame consumes it, so that the loop ends when the stream does.\<close>

lemma round_sound:
  assumes "wsReadFrame os em (length (acc_bytes acc)) s = (Some (fin, opc, p), s1)"
    and "length (acc_bytes acc) \<le> MAX_BYTES"
  obtains bs f where "f = \<lparr>raw_fin = fin, raw_op = opc, raw_data = p\<rparr>" "frame_wire em f bs"
    "legal (length (acc_bytes acc)) f" "input s = bs @ input s1" "length (input s1) < length (input s)"
    "sent s1 = sent s"
proof -
  obtain bs where bs: "frame_wire em \<lparr>raw_fin = fin, raw_op = opc, raw_data = p\<rparr> bs"
    "legal (length (acc_bytes acc)) \<lparr>raw_fin = fin, raw_op = opc, raw_data = p\<rparr>" "input s = bs @ input s1"
    using wsReadFrame_sound [OF assms] by blast
  moreover from bs(1) have "0 < length bs" by (auto simp: frame_wire_def)
  moreover have "sent s1 = sent s" using wsReadFrame_silent [of em "length (acc_bytes acc)" s] assms(1) by simp
  ultimately show thesis by (intro that [OF refl, of bs]) simp_all
qed

lemma wsRecvLoop_terminates:
  "length (acc_bytes acc) \<le> MAX_BYTES \<Longrightarrow>
     \<exists>fr s'. wsRecvLoop os em (loop_msg acc) (loop_frag acc) s = Some (fr, s') \<and> length (ws_payload fr) \<le> MAX_BYTES"
proof (induction "length (input s)" arbitrary: acc s rule: less_induct)
  case less
  note loop = wsRecvLoop.simps [of os em "loop_msg acc" "loop_frag acc" s]
  obtain r s1 where r: "wsReadFrame os em (length (acc_bytes acc)) s = (r, s1)" by fastforce
  show ?case
  proof (cases r)
    case (Some x)
    then obtain fin opc p where x: "r = Some (fin, opc, p)" by (cases x) auto
    obtain bs f where f: "f = \<lparr>raw_fin = fin, raw_op = opc, raw_data = p\<rparr>"
      "legal (length (acc_bytes acc)) f" "length (input s1) < length (input s)"
      by (rule round_sound [OF r [unfolded x] less.prems])
    obtain out s2 where h: "wsHandleFrame os em (loop_msg acc) (loop_frag acc) fin opc p s1 = (out, s2)" by fastforce
    show ?thesis
    proof (cases out)
      case (Return m)
      then show ?thesis using loop r x h handle_size [OF h [unfolded Return] f(2) [unfolded f(1)]] by simp
    next
      case (Continue m frag)
      then obtain acc' where "accept_frame acc f = Inr acc'" "m = loop_msg acc'" "frag = loop_frag acc'" "input s2 = input s1"
        using handle_sound [OF f(2), of em s1 out s2] h f(1) by auto
      then show ?thesis using loop r x h Continue less.hyps [of s2 acc'] f(3) accept_size less.prems by simp
    qed
  qed (use loop r less.prems in simp)
qed

lemma wsRecvLoop_sound:
  "wsRecvLoop os em (loop_msg acc) (loop_frag acc) s = Some (fr, s') \<Longrightarrow> isValid fr \<Longrightarrow> length (acc_bytes acc) \<le> MAX_BYTES \<Longrightarrow>
     \<exists>c r. input s = c @ input s' \<and> sent s' = sent s @ r \<and> received em acc c r fr"
proof (induction "length (input s)" arbitrary: acc s rule: less_induct)
  case less
  note loop = wsRecvLoop.simps [of os em "loop_msg acc" "loop_frag acc" s]
  obtain x s1 where x: "wsReadFrame os em (length (acc_bytes acc)) s = (x, s1)" by fastforce
  show ?case
  proof (cases x)
    case None
    then show ?thesis using loop x less.prems(1,2) by auto
  next
    case (Some y)
    then obtain fin opc p where y: "x = Some (fin, opc, p)" by (cases y) auto
    obtain bs f where f: "f = \<lparr>raw_fin = fin, raw_op = opc, raw_data = p\<rparr>" "frame_wire em f bs"
      "legal (length (acc_bytes acc)) f" "input s = bs @ input s1" "length (input s1) < length (input s)" "sent s1 = sent s"
      by (rule round_sound [OF x [unfolded y] less.prems(3)])
    obtain out s2 where h: "wsHandleFrame os em (loop_msg acc) (loop_frag acc) fin opc p s1 = (out, s2)" by fastforce
    obtain rbs k where hs: "input s2 = input s1" "list_all2 (frame_wire (\<not> em)) (answer acc f) rbs"
      "sent s2 = sent s1 @ take k (concat rbs)"
      "case out of Return fr \<Rightarrow> isValid fr \<longrightarrow>
           (\<exists>v. accept_frame acc f = Inl v \<and> verdict_frame v fr \<and> (delivers v \<longrightarrow> k = length (concat rbs)))
         | Continue m frag \<Rightarrow> \<exists>acc'. accept_frame acc f = Inr acc' \<and> m = loop_msg acc' \<and> frag = loop_frag acc'
           \<and> k = length (concat rbs)"
      using handle_sound [OF f(3), of em s1 out s2] h f(1) by auto
    show ?thesis
    proof (cases out)
      case (Return m)
      then have e: "m = fr" "s2 = s'" using less.prems(1) loop x y h by simp_all
      then obtain v where "accept_frame acc f = Inl v" "verdict_frame v fr" "delivers v \<longrightarrow> k = length (concat rbs)"
        using hs(4) Return less.prems(2) by auto
      then show ?thesis using received_last [OF f(2) _ _ hs(2)] hs(1,3) f(4,6) e by auto
    next
      case (Continue m frag)
      then obtain acc' where acc': "accept_frame acc f = Inr acc'" "m = loop_msg acc'" "frag = loop_frag acc'"
        "k = length (concat rbs)" using hs(4) by auto
      then have "wsRecvLoop os em (loop_msg acc') (loop_frag acc') s2 = Some (fr, s')"
        using less.prems(1) loop x y h Continue by simp
      from less.hyps [OF _ this less.prems(2) accept_size [OF acc'(1) less.prems(3)]] hs(1) f(5)
      obtain c r where "input s2 = c @ input s'" "sent s' = sent s2 @ r" "received em acc' c r fr" by auto
      then show ?thesis using received_cons [OF f(2) acc'(1) hs(2)] hs(1,3) f(4,6) acc'(4)
        by (intro exI [of _ "bs @ c"] exI [of _ "concat rbs @ r"]) simp
    qed
  qed
qed

end

section \<open>Properties\<close>

lemma loop_start: "wsRecvFrame os em s = wsRecvLoop os em (loop_msg None) (loop_frag None) s" "length (acc_bytes None) \<le> MAX_BYTES"
  by (simp_all add: wsRecvFrame_def loop_frag_def acc_bytes_def)

text \<open>A connection that delivers a fragmented message with a ping between the fragments, cut across the frames.\<close>

definition demo_sock :: seg_sock where
  "demo_sock = \<lparr>seg_in = [[0x02], [0x02, 0x41], [0x42, 0x89, 0x01, 0x50, 0x80, 0x01], [0x43, 0x99]],
     seg_out = [], seg_accept = [0, 0], seg_random = [1, 2, 3, 4]\<rparr>"

definition demo_frames :: "raw_frame list" where
  "demo_frames = [\<lparr>raw_fin = False, raw_op = 2, raw_data = [0x41, 0x42]\<rparr>, control_frame 9 [0x50],
     \<lparr>raw_fin = True, raw_op = 0, raw_data = [0x43]\<rparr>]"

definition demo_bytes :: "bytes list" where
  "demo_bytes = [[0x02, 0x02, 0x41, 0x42], [0x89, 0x01, 0x50], [0x80, 0x01, 0x43]]"

lemma demo_run:
  "wsRecvFrame seg_os False demo_sock =
     Some (\<lparr>ws_opcode = 2, ws_payload = [0x41, 0x42, 0x43], isClose = False, isValid = True\<rparr>,
       \<lparr>seg_in = [[0x99]], seg_out = [0x8A, 0x81, 1, 2, 3, 4, 0x51], seg_accept = [], seg_random = []\<rparr>)"
  by code_simp

lemma demo_wire: "list_all2 (frame_wire False) demo_frames demo_bytes"
  using frame_wireI [of "demo_frames ! 0" 2 "[]" "[]" False] frame_wireI [of "demo_frames ! 1" 1 "[]" "[]" False]
    frame_wireI [of "demo_frames ! 2" 1 "[]" "[]" False]
  by (simp add: demo_frames_def demo_bytes_def len_wire_def)

lemma demo_receive:
  "receive None demo_frames = Some (Deliver [0x41, 0x42, 0x43], [control_frame 10 [0x50]], [])"
  by (simp add: demo_frames_def accept_frame_def answer_def legal_def in_order_def acc_bytes_def MAX_BYTES_def)

text \<open>C4: wsRecvFrame implements the receiver of RFC 6455: over a reliable connection that delivers the
  bytes of a sequence of frames, cut into segments in any way, it returns what the specification \<open>receive\<close>
  says of them: the payloads of a binary message's fragments in order, with control frames between them;
  a close frame; or an invalid result for anything forbidden. The pings and the close frame are
  answered, with frames masked the other way round, and the frames after the result stay unread.\<close>

theorem wsRecvFrame_refines_receive:
  assumes "reliable_socket os input sent"
    and "receive None fs = Some (v, replies, rest)" and "list_all2 (frame_wire em) fs bss" and "input s = concat bss @ ts"
  shows "\<exists>fr s' rbs. wsRecvFrame os em s = Some (fr, s') \<and> verdict_frame v fr
       \<and> list_all2 (frame_wire (\<not> em)) replies rbs \<and> sent s' = sent s @ concat rbs
       \<and> (v \<noteq> Reject \<longrightarrow> input s' = concat (drop (length fs - length rest) bss) @ ts)"
  using reliable_socket.wsRecvLoop_receive [OF assms loop_start(2)] by (simp only: loop_start(1))

theorem wsRecvFrame_refines_receive_witness:
  "\<exists>fr s' rbs. wsRecvFrame seg_os False demo_sock = Some (fr, s') \<and> verdict_frame (Deliver [0x41, 0x42, 0x43]) fr
     \<and> list_all2 (frame_wire True) [control_frame 10 [0x50]] rbs \<and> seg_out s' = concat rbs \<and> concat (seg_in s') = [0x99]"
  using wsRecvFrame_refines_receive [OF seg.reliable_socket_axioms demo_receive demo_wire, of demo_sock "[0x99]"]
  by (simp add: demo_sock_def demo_bytes_def demo_frames_def)



text \<open>C29: wsRecvFrame returns on every connection whose stream of bytes is finite, and what it returns, valid
  or not, never holds more than one mebibyte.\<close>

theorem wsRecvFrame_returns:
  assumes "stream_socket os input sent"
  shows "\<exists>fr s'. wsRecvFrame os em s = Some (fr, s') \<and> length (ws_payload fr) \<le> 1048576"
  using stream_socket.wsRecvLoop_terminates [OF assms loop_start(2)] by (simp only: loop_start(1) MAX_BYTES_def)

theorem wsRecvFrame_returns_witness:
  "\<exists>fr s'. wsRecvFrame seg_os True demo_sock = Some (fr, s') \<and> length (ws_payload fr) \<le> 1048576"
  using wsRecvFrame_returns [OF seg.stream_socket_axioms] by blast

text \<open>C19: What one side sends as a binary message of at most one mebibyte the other side receives, in both
  directions (the client masks, the server does not), over reliable connections: the send succeeds, and
  the receiver whose stream begins with the bytes sent returns exactly the message, sends nothing and
  leaves the rest of the stream unread.\<close>

theorem send_receive:
  assumes "reliable_socket os1 input1 sent1" and "reliable_socket os2 input2 sent2"
    and "length data \<le> 1048576"
  shows "\<exists>bs s1'. (if masked then wsSendBinaryMasked os1 data s1 else wsSendBinary os1 data s1) = (True, s1')
      \<and> sent1 s1' = sent1 s1 @ bs
      \<and> (\<forall>s2 ts. input2 s2 = bs @ ts \<longrightarrow>
           (\<exists>s2'. wsRecvFrame os2 masked s2 =
                Some (\<lparr>ws_opcode = 2, ws_payload = data, isClose = False, isValid = True\<rparr>, s2')
              \<and> input2 s2' = ts \<and> sent2 s2' = sent2 s2))"
proof -
  obtain bs s0 where bs: "frame_wire masked (binary_frame data) bs" "length bs < 2 ^ 31" "sent1 s0 = sent1 s1"
    "(if masked then wsSendBinaryMasked os1 data s1 else wsSendBinary os1 data s1) = sendAll os1 bs s0"
    by (rule stream_socket.wsSend_frame [OF reliable_socket.axioms(1) [OF assms(1)], of data masked s1])
      (use assms(3) in simp_all)
  obtain s1' where s1': "sendAll os1 bs s0 = (True, s1')" "sent1 s1' = sent1 s0 @ bs"
    by (rule reliable_socket.sendAll_live [OF assms(1) bs(2)])
  have rc: "receive None [binary_frame data] = Some (Deliver data, [], [])"
    using assms(3) by (simp add: accept_frame_def answer_def legal_def in_order_def acc_bytes_def MAX_BYTES_def)
  have "\<exists>s2'. wsRecvFrame os2 masked s2 = Some (\<lparr>ws_opcode = 2, ws_payload = data, isClose = False, isValid = True\<rparr>, s2')
      \<and> input2 s2' = ts \<and> sent2 s2' = sent2 s2" if "input2 s2 = bs @ ts" for s2 ts
    using reliable_socket.wsRecvLoop_receive [OF assms(2) rc _ _ loop_start(2), of masked "[bs]" s2 ts] bs(1) that
    by (simp add: loop_start(1) conj_commute)
  then show ?thesis using bs(3,4) s1' by (intro exI [of _ bs] exI [of _ s1']) simp
qed

theorem send_receive_witness:
  "\<exists>bs s1'. wsSendBinaryMasked seg_os [7, 8, 9] demo_sock = (True, s1') \<and> seg_out s1' = bs
     \<and> (\<exists>s2'. wsRecvFrame seg_os True \<lparr>seg_in = map (\<lambda>b. [b]) bs, seg_out = [], seg_accept = [], seg_random = []\<rparr> =
          Some (\<lparr>ws_opcode = 2, ws_payload = [7, 8, 9], isClose = False, isValid = True\<rparr>, s2')
        \<and> concat (seg_in s2') = [] \<and> seg_out s2' = [])"
proof -
  have c: "concat (map (\<lambda>b. [b]) bs) = bs @ []" for bs :: bytes by simp
  obtain bs s1' where r: "wsSendBinaryMasked seg_os [7, 8, 9] demo_sock = (True, s1')" "seg_out s1' = seg_out demo_sock @ bs"
    "\<And>s2 ts. concat (seg_in s2) = bs @ ts \<Longrightarrow>
       \<exists>s2'. wsRecvFrame seg_os True s2 = Some (\<lparr>ws_opcode = 2, ws_payload = [7, 8, 9], isClose = False, isValid = True\<rparr>, s2')
         \<and> concat (seg_in s2') = ts \<and> seg_out s2' = seg_out s2"
    using send_receive [OF seg.reliable_socket_axioms seg.reliable_socket_axioms, of "[7, 8, 9]" True demo_sock]
    by (simp only: if_True) (simp, blast)
  from r(3) [of "\<lparr>seg_in = map (\<lambda>b. [b]) bs, seg_out = [], seg_accept = [], seg_random = []\<rparr>" "[]"] r(1,2) c
  show ?thesis by (simp add: demo_sock_def)
qed

end
