(* ===== verification/Ws_Server.thy ===== *)
theory Ws_Server
  imports Server_Messages Send_Frame Ws_Receive
begin

text \<open>
  \<open>handleClient\<close> of \<open>server/ws_server.cpp\<close>: the receive loop and the four background threads of one
  session, as a transition system. Each thread has a program counter; a step is one access to the shared
  variables, one call of the system, one write of \<open>sendAll\<close>, or one frame that \<open>wsRecvFrame\<close> reads. Steps of
  different threads interleave in every order, and the clock, the sleeps, the frames of the peer and the network are free.
\<close>

section \<open>The code\<close>

datatype bg = PingT | TimeT | KissT | TimeoutT

datatype thread = MainT | BgT bg

text \<open>
  A background thread: the loop condition, the sleep, the test after it, the timeout test, a call of
  \<open>sendFrame\<close>, \<open>active = false\<close>, the shutdown of the socket, and its end.
\<close>

datatype bpc = BWhile | BSleep | BCheck | BTest | BCall call | BFail | BShutdown | BDone

text \<open>
  The receive loop: the loop condition; in \<open>wsRecvFrame\<close>, the fragments that it has assembled when it reads the
  next frame, and the rest of a reply to a ping or close frame with the fragments to go on with (\<open>None\<close> after a close frame); a
  binary message to handle; a call of \<open>sendFrame\<close> with what comes after it; and the cleanup: \<open>active = false\<close>,
  the closing of the socket, the joins.
\<close>

datatype mpc = MWhile | MRecv fragments | MReply bytes "fragments option" | MHandle bytes | MCall call bool | MAfter bool
  | MCleanup | MClose | MJoin "bg list" | MDone

text \<open>\<open>sv_input\<close>: the frames that the peer will have sent until the connection ends.\<close>

record server = "thread chan" +
  sv_input :: "raw_frame list"
  sv_lastPong :: i64
  sv_language :: bytes
  sv_shutdown :: bool
  sv_main :: mpc
  sv_bg :: "bg \<Rightarrow> bpc"

definition server_init :: "i64 \<Rightarrow> raw_frame list \<Rightarrow> server" where
  "server_init now peer = \<lparr>ch_active = True, ch_lock = None, ch_sends = [], ch_closed = False, sv_input = peer,
     sv_lastPong = now, sv_language = str ''unknown'', sv_shutdown = False, sv_main = MWhile, sv_bg = (\<lambda>_. BWhile)\<rparr>"

definition server_frames :: "bytes \<Rightarrow> bytes set" where
  "server_frames data = {binary_bytes data}"

text \<open>What \<open>std::put_time\<close> makes of the time: printable characters.\<close>

definition iso_text :: "bytes \<Rightarrow> bool" where
  "iso_text t \<longleftrightarrow> length t \<le> 64 \<and> (\<forall>c \<in> set t. 32 \<le> unat c \<and> unat c < 127)"

fun bg_message :: "bg \<Rightarrow> i64 \<Rightarrow> bytes \<Rightarrow> Message option" where
  "bg_message PingT now t = Some (ping_message now)"
| "bg_message TimeT now t = Some (time_message now t)"
| "bg_message KissT now t = Some kiss_message"
| "bg_message TimeoutT now t = None"

text \<open>The difference of two clock readings; it wraps where C++ leaves the overflow undefined.\<close>

definition expired :: "i64 \<Rightarrow> i64 \<Rightarrow> bool" where
  "expired now lastPong \<longleftrightarrow> sint (now - lastPong) > int SESSION_TIMEOUT_MS"

abbreviation set_bg :: "bg \<Rightarrow> bpc \<Rightarrow> server \<Rightarrow> server" where
  "set_bg b pc s \<equiv> s\<lparr>sv_bg := (sv_bg s)(b := pc)\<rparr>"

text \<open>The receive loop after a message: what it does with the reaction.\<close>

definition after_reaction :: "reaction \<Rightarrow> server \<Rightarrow> server" where
  "after_reaction rc s =
     s\<lparr>sv_language := rc_language rc,
       sv_lastPong := (case rc_pong rc of None \<Rightarrow> sv_lastPong s | Some t \<Rightarrow> t),
       sv_main := (case rc_reply rc of
           None \<Rightarrow> MAfter (rc_stop rc)
         | Some m \<Rightarrow> (case encode m of Inl _ \<Rightarrow> MCleanup | Inr d \<Rightarrow> MCall (Acquire d) (rc_stop rc)))\<rparr>"

text \<open>The steps of a background thread.\<close>

inductive bg_step :: "bg \<Rightarrow> server \<Rightarrow> server \<Rightarrow> bool" for b :: bg where
  bg_while: "sv_bg s b = BWhile \<Longrightarrow> bg_step b s (set_bg b (if ch_active s then BSleep else BDone) s)"
| bg_sleep: "sv_bg s b = BSleep \<Longrightarrow> bg_step b s (set_bg b BCheck s)"
| bg_break: "sv_bg s b = BCheck \<Longrightarrow> \<not> ch_active s \<Longrightarrow> bg_step b s (set_bg b BDone s)"
| bg_send: "sv_bg s b = BCheck \<Longrightarrow> ch_active s \<Longrightarrow> iso_text t \<Longrightarrow> bg_message b now t = Some m \<Longrightarrow> encode m = Inr d \<Longrightarrow>
    bg_step b s (set_bg b (BCall (Acquire d)) s)"
| bg_timeout: "sv_bg s b = BCheck \<Longrightarrow> ch_active s \<Longrightarrow> b = TimeoutT \<Longrightarrow> bg_step b s (set_bg b BTest s)"
| bg_test: "sv_bg s b = BTest \<Longrightarrow> bg_step b s (set_bg b (if expired now (sv_lastPong s) then BFail else BWhile) s)"
| bg_call: "sv_bg s b = BCall c \<Longrightarrow> call_step server_frames (BgT b) s c s1 (Inl c') \<Longrightarrow> bg_step b s (set_bg b (BCall c') s1)"
| bg_return: "sv_bg s b = BCall c \<Longrightarrow> call_step server_frames (BgT b) s c s1 (Inr r) \<Longrightarrow>
    bg_step b s (set_bg b (if r then BWhile else BFail) s1)"
| bg_fail: "sv_bg s b = BFail \<Longrightarrow> bg_step b s (set_bg b (if b = TimeoutT then BShutdown else BDone) (s\<lparr>ch_active := False\<rparr>))"
| bg_shutdown: "sv_bg s b = BShutdown \<Longrightarrow> bg_step b s (set_bg b BDone (s\<lparr>sv_shutdown := True\<rparr>))"

text \<open>
  The steps of the receive loop. \<open>wsRecvFrame\<close> takes one frame after the other, as \<open>accept_frame\<close> says (the specification that it is proved to refine), until it has a
  message or has to give up; it does not test \<open>active\<close> meanwhile, and it writes its replies to control frames without the mutex.
  A frame that is not well-formed, the end of the connection and every failure of \<open>recv\<close> are \<open>main_end\<close>.
\<close>

inductive main_step :: "server \<Rightarrow> server \<Rightarrow> bool" where
  main_while: "sv_main s = MWhile \<Longrightarrow> main_step s (s\<lparr>sv_main := (if ch_active s then MRecv None else MCleanup)\<rparr>)"
| main_message: "sv_main s = MRecv acc \<Longrightarrow> sv_input s = f # fs \<Longrightarrow> accept_frame acc f = Inl (Deliver p) \<Longrightarrow>
    main_step s (s\<lparr>sv_input := fs, sv_main := MHandle p\<rparr>)"
| main_reject: "sv_main s = MRecv acc \<Longrightarrow> sv_input s = f # fs \<Longrightarrow> accept_frame acc f = Inl Reject \<Longrightarrow>
    main_step s (s\<lparr>sv_input := fs, sv_main := MCleanup\<rparr>)"
| main_closed: "sv_main s = MRecv acc \<Longrightarrow> sv_input s = f # fs \<Longrightarrow> accept_frame acc f = Inl (Closed p) \<Longrightarrow>
    main_step s (s\<lparr>sv_input := fs, sv_main := MReply (control_bytes 0x08 p False []) None\<rparr>)"
| main_ping: "sv_main s = MRecv acc \<Longrightarrow> sv_input s = f # fs \<Longrightarrow> accept_frame acc f = Inr acc' \<Longrightarrow> raw_op f = 0x09 \<Longrightarrow>
    main_step s (s\<lparr>sv_input := fs, sv_main := MReply (control_bytes 0x0A (raw_data f) False []) (Some acc')\<rparr>)"
| main_more: "sv_main s = MRecv acc \<Longrightarrow> sv_input s = f # fs \<Longrightarrow> accept_frame acc f = Inr acc' \<Longrightarrow> raw_op f \<noteq> 0x09 \<Longrightarrow>
    main_step s (s\<lparr>sv_input := fs, sv_main := MRecv acc'\<rparr>)"
| main_end: "sv_main s = MRecv acc \<Longrightarrow> main_step s (s\<lparr>sv_main := MCleanup\<rparr>)"
| main_reply: "sv_main s = MReply bs nxt \<Longrightarrow> 0 < k \<Longrightarrow> k \<le> length bs \<Longrightarrow>
    main_step s (s\<lparr>ch_sends := ch_sends s @ [(Control_Reply, Some (take k bs))],
      sv_main := (if k < length bs then MReply (drop k bs) nxt else case nxt of None \<Rightarrow> MCleanup | Some acc \<Rightarrow> MRecv acc)\<rparr>)"
| main_reply_fail: "sv_main s = MReply bs nxt \<Longrightarrow>
    main_step s (s\<lparr>ch_sends := ch_sends s @ [(Control_Reply, None)], sv_main := MCleanup\<rparr>)"
| main_handle: "sv_main s = MHandle p \<Longrightarrow> serve_payload now (sv_language s) p = Inr rc \<Longrightarrow> main_step s (after_reaction rc s)"
| main_throw: "sv_main s = MHandle p \<Longrightarrow> serve_payload now (sv_language s) p = Inl e \<Longrightarrow> main_step s (s\<lparr>sv_main := MCleanup\<rparr>)"
| main_call: "sv_main s = MCall c stop \<Longrightarrow> call_step server_frames MainT s c s1 (Inl c') \<Longrightarrow>
    main_step s (s1\<lparr>sv_main := MCall c' stop\<rparr>)"
| main_return: "sv_main s = MCall c stop \<Longrightarrow> call_step server_frames MainT s c s1 (Inr r) \<Longrightarrow>
    main_step s (s1\<lparr>sv_main := MAfter stop\<rparr>)"
| main_after: "sv_main s = MAfter stop \<Longrightarrow> main_step s (s\<lparr>ch_active := (ch_active s \<and> \<not> stop), sv_main := MWhile\<rparr>)"
| main_cleanup: "sv_main s = MCleanup \<Longrightarrow> main_step s (s\<lparr>ch_active := False, sv_main := MClose\<rparr>)"
| main_close: "sv_main s = MClose \<Longrightarrow> main_step s (s\<lparr>ch_closed := True, sv_main := MJoin [PingT, TimeT, KissT, TimeoutT]\<rparr>)"
| main_join: "sv_main s = MJoin (b # bs) \<Longrightarrow> sv_bg s b = BDone \<Longrightarrow> main_step s (s\<lparr>sv_main := MJoin bs\<rparr>)"
| main_done: "sv_main s = MJoin [] \<Longrightarrow> main_step s (s\<lparr>sv_main := MDone\<rparr>)"

inductive server_step :: "server \<Rightarrow> server \<Rightarrow> bool" where
  step_bg: "bg_step b s s' \<Longrightarrow> server_step s s'"
| step_main: "main_step s s' \<Longrightarrow> server_step s s'"

inductive server_reach :: "server \<Rightarrow> bool" where
  reach_start: "server_reach (server_init now peer)"
| reach_step: "server_reach s \<Longrightarrow> server_step s s' \<Longrightarrow> server_reach s'"

section \<open>The calls in progress\<close>

fun server_calls :: "server \<Rightarrow> thread \<Rightarrow> call option" where
  "server_calls s MainT = (case sv_main s of MCall c _ \<Rightarrow> Some c | _ \<Rightarrow> None)"
| "server_calls s (BgT b) = (case sv_bg s b of BCall c \<Rightarrow> Some c | _ \<Rightarrow> None)"

lemma server_calls_main: "server_calls (s\<lparr>sv_main := pc\<rparr>) = (server_calls s)(MainT := (case pc of MCall c _ \<Rightarrow> Some c | _ \<Rightarrow> None))"
proof
  fix t show "server_calls (s\<lparr>sv_main := pc\<rparr>) t = ((server_calls s)(MainT := (case pc of MCall c _ \<Rightarrow> Some c | _ \<Rightarrow> None))) t"
    by (cases t) simp_all
qed

lemma server_calls_bg: "server_calls (set_bg b pc s) = (server_calls s)(BgT b := (case pc of BCall c \<Rightarrow> Some c | _ \<Rightarrow> None))"
proof
  fix t show "server_calls (set_bg b pc s) t = ((server_calls s)(BgT b := (case pc of BCall c \<Rightarrow> Some c | _ \<Rightarrow> None))) t"
    by (cases t) simp_all
qed

lemma server_calls_chan:
  "sv_main s' = sv_main s \<Longrightarrow> sv_bg s' = sv_bg s \<Longrightarrow> server_calls s' = server_calls s"
proof
  fix t assume "sv_main s' = sv_main s" "sv_bg s' = sv_bg s"
  then show "server_calls s' t = server_calls s t" by (cases t) simp_all
qed

lemma call_step_server:
  "call_step frames t (s :: server) c s' r \<Longrightarrow>
     sv_main s' = sv_main s \<and> sv_bg s' = sv_bg s \<and> sv_input s' = sv_input s \<and> sv_language s' = sv_language s
       \<and> sv_lastPong s' = sv_lastPong s"
  by (erule call_stepE) simp_all

lemma server_calls_after_bg:
  "call_step frames t s c s1 r \<Longrightarrow>
     server_calls (s1\<lparr>sv_bg := (sv_bg s1)(b := pc)\<rparr>) = (server_calls s)(BgT b := (case pc of BCall c \<Rightarrow> Some c | _ \<Rightarrow> None))"
  unfolding server_calls_bg using call_step_server [of frames t s c s1 r] server_calls_chan [of s1 s] by simp

lemma server_calls_after_main:
  "call_step frames t s c s1 r \<Longrightarrow>
     server_calls (s1\<lparr>sv_main := pc\<rparr>) = (server_calls s)(MainT := (case pc of MCall c _ \<Rightarrow> Some c | _ \<Rightarrow> None))"
  unfolding server_calls_main using call_step_server [of frames t s c s1 r] server_calls_chan [of s1 s] by simp

section \<open>The messages of the server\<close>

fun from_server :: "Body \<Rightarrow> bool" where
  "from_server (Bonjour _) = True"
| "from_server (EchoResponse _ _) = True"
| "from_server (KissRequest _ _ _ _) = True"
| "from_server (Ping _) = True"
| "from_server (TimeNotification _ _) = True"
| "from_server (HashResponse _ _) = True"
| "from_server (Error _ _) = True"
| "from_server _ = False"

text \<open>Bytes that decode to such a message.\<close>

definition server_ok :: "bytes \<Rightarrow> bool" where
  "server_ok d \<longleftrightarrow> (\<exists>b. from_server b \<and> decodeMessage d (length d) = Inr (message_of b))"

lemma sendable_server_ok: "sendable b \<Longrightarrow> from_server b \<Longrightarrow> encode (message_of b) = Inr d \<Longrightarrow> server_ok d"
  unfolding sendable_def server_ok_def by auto

lemma iso_ok: "iso_text t \<Longrightarrow> string_ok t \<and> length t \<le> 64"
  unfolding iso_text_def by (auto intro!: ascii_ok)

lemma bg_message_ok:
  assumes "iso_text t" and "bg_message b now t = Some m"
  obtains d where "encode m = Inr d" "server_ok d"
proof -
  obtain x where x: "m = message_of x" "from_server x" "sendable x"
  proof (cases b)
    case PingT
    then show thesis using assms
      by (intro that [of "Ping now"]) (simp_all add: ping_message_def sendableI)
  next
    case TimeT
    then show thesis using assms iso_ok [of t]
      by (intro that [of "TimeNotification now t"]) (simp_all add: time_message_def enc_string_def sendableI)
  next
    case KissT
    then show thesis using assms
      by (intro that [of "KissRequest (str ''Linux'') (str ''unknown'') (str ''unknown'') (str ''x86_64'')"])
        (simp_all add: kiss_message_def enc_string_def ascii_ok sendableI)
  qed (use assms in simp)
  then show thesis using that sendable_server_ok by (auto simp: sendable_def)
qed

lemma respond_from_server: "respond now lang b = Some b' \<Longrightarrow> from_server b'"
  by (cases b) auto

lemma reaction_ok:
  assumes "serve_payload now lang p = Inr rc" and "length p \<le> LIMIT" and "string_ok lang" "length lang \<le> LIMIT"
  shows "string_ok (rc_language rc)" "length (rc_language rc) \<le> LIMIT"
    "rc_reply rc = Some m \<Longrightarrow> \<exists>d. encode m = Inr d \<and> server_ok d"
proof -
  have "string_ok (rc_language rc) \<and> length (rc_language rc) \<le> LIMIT
      \<and> (\<forall>m. rc_reply rc = Some m \<longrightarrow> (\<exists>d. encode m = Inr d \<and> server_ok d))"
  proof (cases "decodeMessage p (length p)")
    case (Inl e)
    then obtain w where w: "rc = \<lparr>rc_reply = Some (message_of (Error (if w = ''unknown message type'' then 2 else 1) (str w))),
        rc_language = lang, rc_pong = None, rc_stop = (w \<noteq> ''unknown message type'')\<rparr>" "\<And>c. sendable (Error c (str w))"
      using serve_rejected [OF Inl, of now lang] assms(1) by (metis sum.inject(2))
    then obtain d where "encode (message_of (Error (if w = ''unknown message type'' then 2 else 1) (str w))) = Inr d"
      unfolding sendable_def by blast
    with w assms(3,4) sendable_server_ok [OF w(2)] show ?thesis by auto
  next
    case (Inr x)
    then obtain b where b: "x = message_of b" using decodeMessage_body by blast
    note d = serve_decoded [OF Inr [unfolded b] assms(2-4)]
    have rc: "rc = reaction_to now lang b" using d(1) assms(1) by simp
    have "\<exists>d. encode m = Inr d \<and> server_ok d" if m: "rc_reply rc = Some m" for m
    proof -
      obtain b' where b': "respond now lang b = Some b'" "m = message_of b'" using m by (auto simp: rc reaction_to_def)
      then show ?thesis
        using d(2) [OF b'(1)] respond_from_server [OF b'(1)] sendable_server_ok by (auto simp: sendable_def)
    qed
    then show ?thesis using d(3,4) by (simp add: rc reaction_to_def)
  qed
  then show "string_ok (rc_language rc)" "length (rc_language rc) \<le> LIMIT"
    "rc_reply rc = Some m \<Longrightarrow> \<exists>d. encode m = Inr d \<and> server_ok d" by simp_all
qed

section \<open>The invariant\<close>

fun finishing :: "mpc \<Rightarrow> bool" where
  "finishing MClose = True"
| "finishing (MJoin _) = True"
| "finishing MDone = True"
| "finishing _ = False"

definition server_inv :: "server \<Rightarrow> bool" where
  "server_inv s \<longleftrightarrow> chan_inv server_frames server_ok s (server_calls s)
     \<and> string_ok (sv_language s) \<and> length (sv_language s) \<le> LIMIT
     \<and> (\<forall>p. sv_main s = MHandle p \<longrightarrow> length p \<le> LIMIT)
     \<and> (finishing (sv_main s) \<longrightarrow> \<not> ch_active s)"

lemma server_frames_proper: "\<forall>d. [] \<notin> server_frames d"
  by (auto simp: server_frames_def binary_bytes_def Let_def split: if_splits)

lemma server_inv_init: "server_inv (server_init now peer)"
proof -
  have "server_calls (server_init now peer) t = None" for t by (cases t) (simp_all add: server_init_def)
  then show ?thesis
    by (auto simp: server_inv_def chan_inv_def exclusive_def sendable_calls_def pending_def server_init_def ascii_ok LIMIT_def
        intro!: streamI [of _ "[]" "[]"])
qed

text \<open>The parts of a state that the invariant reads besides the program counters.\<close>

definition same_chan :: "server \<Rightarrow> server \<Rightarrow> bool" where
  "same_chan s s' \<longleftrightarrow> ch_lock s' = ch_lock s \<and> ch_sends s' = ch_sends s \<and> ch_closed s' = ch_closed s \<and> (ch_active s' \<longrightarrow> ch_active s)
     \<and> sv_language s' = sv_language s \<and> sv_main s' = sv_main s \<and> sv_bg s' = sv_bg s"

lemma bg_quiet:
  assumes "server_inv s" and "server_calls s (BgT b) = None" and "\<forall>c. pc \<noteq> BCall c" and "same_chan s s1"
  shows "server_inv (set_bg b pc s1)"
proof -
  have s1: "server_calls s1 = server_calls s" using assms(4) by (intro server_calls_chan) (simp_all add: same_chan_def)
  have "server_calls (set_bg b pc s1) = server_calls s"
    unfolding server_calls_bg s1 using assms(2,3) by (cases pc) auto
  moreover have "chan_inv server_frames server_ok (set_bg b pc s1) (server_calls s)"
    by (rule chan_inv_cong [of _ _ s]) (use assms(1,4) in \<open>simp_all add: server_inv_def same_chan_def\<close>)
  ultimately show ?thesis using assms(1,4) by (simp add: server_inv_def same_chan_def) blast
qed

lemma bg_begin:
  assumes "server_inv s" and "server_calls s (BgT b) = None" and "server_ok d"
  shows "server_inv (set_bg b (BCall (Acquire d)) s)"
proof -
  have "server_calls (set_bg b (BCall (Acquire d)) s) = (server_calls s)(BgT b := Some (Acquire d))"
    by (simp add: server_calls_bg)
  moreover have "chan_inv server_frames server_ok s ((server_calls s)(BgT b := Some (Acquire d)))"
    using assms by (intro chan_inv_begin) (simp_all add: server_inv_def)
  moreover from this have "chan_inv server_frames server_ok (set_bg b (BCall (Acquire d)) s) ((server_calls s)(BgT b := Some (Acquire d)))"
    by (rule chan_inv_cong) simp_all
  ultimately show ?thesis using assms(1) by (simp add: server_inv_def)
qed

lemma server_call_chan:
  assumes "server_inv s" and "server_calls s t = Some c" and "call_step server_frames t s c s1 r"
    and "server_calls s' = (server_calls s)(t := (case r of Inl c' \<Rightarrow> Some c' | Inr _ \<Rightarrow> None))"
    and "ch_lock s' = ch_lock s1" "ch_sends s' = ch_sends s1" "ch_closed s' = ch_closed s1" "ch_active s' = ch_active s1"
  shows "chan_inv server_frames server_ok s' (server_calls s')"
proof -
  have "chan_inv server_frames server_ok s (server_calls s)" using assms(1) by (simp add: server_inv_def)
  from chan_inv_call [OF this assms(2,3) server_frames_proper]
  show ?thesis unfolding assms(4) by (rule chan_inv_cong) (simp_all add: assms(5-8))
qed

lemma bg_call_inv:
  assumes "server_inv s" and "sv_bg s b = BCall c" and "call_step server_frames (BgT b) s c s1 r"
    and "(case pc of BCall c \<Rightarrow> Some c | _ \<Rightarrow> None) = (case r of Inl c' \<Rightarrow> Some c' | Inr _ \<Rightarrow> None)"
  shows "server_inv (set_bg b pc s1)"
proof -
  have "chan_inv server_frames server_ok (set_bg b pc s1) (server_calls (set_bg b pc s1))"
    by (rule server_call_chan [OF assms(1) _ assms(3)])
      (use assms(2) in \<open>simp_all add: server_calls_after_bg [OF assms(3)] assms(4)\<close>)
  then show ?thesis using assms(1) call_step_server [OF assms(3)] call_step_active [OF assms(3)]
    by (simp add: server_inv_def)
qed

lemma main_quiet:
  assumes "server_inv s" and "server_calls s MainT = None" and "\<forall>c stop. pc \<noteq> MCall c stop"
    and "ch_lock s1 = ch_lock s" "ch_active s1 \<Longrightarrow> ch_active s" "sv_bg s1 = sv_bg s" "sv_main s1 = sv_main s"
    and "same_messages (ch_sends s) (ch_sends s1) \<and> ch_closed s1 = ch_closed s \<or> ch_sends s1 = ch_sends s \<and> ch_closed s1"
    and "\<forall>p. pc = MHandle p \<longrightarrow> length p \<le> LIMIT" "finishing pc \<Longrightarrow> \<not> ch_active s1"
    and "string_ok (sv_language s1)" "length (sv_language s1) \<le> LIMIT"
  shows "server_inv (s1\<lparr>sv_main := pc\<rparr>)"
proof -
  have s1: "server_calls s1 = server_calls s" using assms(6,7) by (intro server_calls_chan)
  have calls: "server_calls (s1\<lparr>sv_main := pc\<rparr>) = server_calls s"
    unfolding server_calls_main s1 using assms(2,3) by (cases pc) auto
  have inv: "chan_inv server_frames server_ok s (server_calls s)" using assms(1) by (simp add: server_inv_def)
  have "chan_inv server_frames server_ok (s1\<lparr>sv_main := pc\<rparr>) (server_calls s)"
    using assms(8)
  proof
    assume "same_messages (ch_sends s) (ch_sends s1) \<and> ch_closed s1 = ch_closed s"
    then show ?thesis by (intro chan_inv_cong [OF inv]) (use assms(4,5) in simp_all)
  next
    assume "ch_sends s1 = ch_sends s \<and> ch_closed s1"
    then show ?thesis by (intro chan_inv_close [OF inv]) (use assms(4,5) in simp_all)
  qed
  then show ?thesis using assms(9-12) by (simp add: server_inv_def calls)
qed

lemma main_begin:
  assumes "server_inv s" and "server_calls s MainT = None" and "server_ok d"
    and "ch_lock s1 = ch_lock s" "ch_active s1 = ch_active s" "sv_bg s1 = sv_bg s" "sv_main s1 = sv_main s" "ch_sends s1 = ch_sends s"
    "ch_closed s1 = ch_closed s"
    and "string_ok (sv_language s1)" "length (sv_language s1) \<le> LIMIT"
  shows "server_inv (s1\<lparr>sv_main := MCall (Acquire d) stop\<rparr>)"
proof -
  have "server_calls (s1\<lparr>sv_main := MCall (Acquire d) stop\<rparr>) = (server_calls s)(MainT := Some (Acquire d))"
    using assms(6,7) server_calls_chan [of s1 s] by (simp add: server_calls_main)
  moreover have "chan_inv server_frames server_ok s ((server_calls s)(MainT := Some (Acquire d)))"
    using assms(1-3) by (intro chan_inv_begin) (simp_all add: server_inv_def)
  moreover from this have "chan_inv server_frames server_ok (s1\<lparr>sv_main := MCall (Acquire d) stop\<rparr>) ((server_calls s)(MainT := Some (Acquire d)))"
    by (rule chan_inv_cong) (simp_all add: assms(4,5,8,9))
  ultimately show ?thesis using assms(10,11) by (simp add: server_inv_def)
qed

lemma main_call_inv:
  assumes "server_inv s" and "sv_main s = MCall c stop" and "call_step server_frames MainT s c s1 r"
    and "(case pc of MCall c _ \<Rightarrow> Some c | _ \<Rightarrow> None) = (case r of Inl c' \<Rightarrow> Some c' | Inr _ \<Rightarrow> None)"
    and "pc \<in> {MCall c' stop, MAfter stop}"
  shows "server_inv (s1\<lparr>sv_main := pc\<rparr>)"
proof -
  have "chan_inv server_frames server_ok (s1\<lparr>sv_main := pc\<rparr>) (server_calls (s1\<lparr>sv_main := pc\<rparr>))"
    by (rule server_call_chan [OF assms(1) _ assms(3)])
      (use assms(2) in \<open>simp_all add: server_calls_after_main [OF assms(3)] assms(4)\<close>)
  then show ?thesis using assms(1,5) call_step_server [OF assms(3)] by (auto simp: server_inv_def)
qed

lemma main_handle_inv:
  assumes "server_inv s" and "sv_main s = MHandle p" and "serve_payload now (sv_language s) p = Inr rc"
  shows "server_inv (after_reaction rc s)"
proof -
  have "length p \<le> LIMIT" "string_ok (sv_language s)" "length (sv_language s) \<le> LIMIT"
    using assms(1,2) by (simp_all add: server_inv_def)
  note ok = reaction_ok [OF assms(3) this]
  let ?s1 = "s\<lparr>sv_language := rc_language rc, sv_lastPong := (case rc_pong rc of None \<Rightarrow> sv_lastPong s | Some t \<Rightarrow> t)\<rparr>"
  show ?thesis
  proof (cases "rc_reply rc")
    case None
    then have "after_reaction rc s = ?s1\<lparr>sv_main := MAfter (rc_stop rc)\<rparr>" by (simp add: after_reaction_def)
    moreover have "server_inv (?s1\<lparr>sv_main := MAfter (rc_stop rc)\<rparr>)"
      using assms(2) ok(1,2) by (intro main_quiet [OF assms(1)]) simp_all
    ultimately show ?thesis by simp
  next
    case (Some m)
    then obtain d where d: "encode m = Inr d" "server_ok d" using ok(3) by blast
    then have "after_reaction rc s = ?s1\<lparr>sv_main := MCall (Acquire d) (rc_stop rc)\<rparr>"
      using Some by (simp add: after_reaction_def)
    moreover have "server_inv (?s1\<lparr>sv_main := MCall (Acquire d) (rc_stop rc)\<rparr>)"
      using assms(2) ok(1,2) d(2) by (intro main_begin [OF assms(1)]) simp_all
    ultimately show ?thesis by simp
  qed
qed

end
