(* ===== verification/Thread_Runs.thy ===== *)
theory Thread_Runs
  imports Main
begin

text \<open>
  Runs of threads that share a flag \<open>active\<close>. The locale \<open>stopping\<close> is the contract of the two
  programs: nothing sets the flag again, every step brings the threads nearer to their ends once it
  is clear, and a reachable state in which no thread can go on is the end of the session. Then no run
  goes on for ever after the flag has been cleared, and every complete run that clears it ends. The server's and the client's
  sessions are its instances.
\<close>

text \<open>A complete run goes on as long as some thread can.\<close>

definition complete :: "('s \<Rightarrow> 's \<Rightarrow> bool) \<Rightarrow> (nat \<Rightarrow> 's) \<Rightarrow> bool" where
  "complete step run \<longleftrightarrow> (\<forall>i. step (run i) (run (Suc i)) \<or> (\<nexists>s'. step (run i) s') \<and> run (Suc i) = run i)"

lemma complete_from: "\<exists>run. complete step run \<and> run 0 = s"
proof -
  have "\<exists>run. \<forall>i. (i = 0 \<longrightarrow> run i = s) \<and>
      (step (run i) (run (Suc i)) \<or> (\<nexists>s'. step (run i) s') \<and> run (Suc i) = run i)"
    using dependent_nat_choice [of "\<lambda>i x. i = 0 \<longrightarrow> x = s"
      "\<lambda>i x y. step x y \<or> (\<nexists>s'. step x s') \<and> y = x"] by (metis old.nat.distinct(2))
  then show ?thesis unfolding complete_def by blast
qed

lemma complete_Cons: "complete step run \<Longrightarrow> step s (run 0) \<Longrightarrow> complete step (case_nat s run)"
  by (auto simp: complete_def split: nat.splits)

text \<open>
  What is left to do: the frames that the peer sends, the parts of the receive loop, and those of the other threads. A
  later number may grow when an earlier one shrinks.
\<close>

type_synonym work = "nat \<times> nat \<times> nat \<times> nat"

abbreviation less_work :: "(work \<times> work) set" where
  "less_work \<equiv> less_than <*lex*> less_than <*lex*> less_than <*lex*> less_than"

locale stopping =
  fixes step :: "'s \<Rightarrow> 's \<Rightarrow> bool"
    and active :: "'s \<Rightarrow> bool"
    and reach :: "'s \<Rightarrow> bool"
    and work :: "'s \<Rightarrow> work"
    and over :: "'s \<Rightarrow> bool"
  assumes step_active: "step s s' \<Longrightarrow> active s' \<Longrightarrow> active s"
    and step_work: "step s s' \<Longrightarrow> \<not> active s \<Longrightarrow> (work s', work s) \<in> less_work"
    and step_reach: "reach s \<Longrightarrow> step s s' \<Longrightarrow> reach s'"
    and stuck_over: "reach s \<Longrightarrow> \<nexists>s'. step s s' \<Longrightarrow> over s"
begin

lemma wf_inactive: "wf {(s', s). step s s' \<and> \<not> active s}"
proof (rule wf_subset)
  show "wf (inv_image less_work work)" by (intro wf_inv_image wf_lex_prod wf_less_than)
  show "{(s', s). step s s' \<and> \<not> active s} \<subseteq> inv_image less_work work" using step_work by auto
qed

lemma no_infinite_run: "\<not> active (run 0) \<Longrightarrow> \<exists>i::nat. \<not> step (run i) (run (Suc i))"
proof (rule ccontr)
  assume off: "\<not> active (run 0)" and "\<nexists>i. \<not> step (run i) (run (Suc i))"
  then have run: "step (run i) (run (Suc i))" for i by blast
  have "\<not> active (run i)" for i by (induction i) (use off run step_active in blast)+
  then show False using wf_inactive run unfolding wf_iff_no_infinite_down_chain by blast
qed

lemma complete_reach: "complete step run \<Longrightarrow> reach (run 0) \<Longrightarrow> reach (run i)"
  by (induction i) (auto simp: complete_def intro: step_reach)

lemma run_over:
  assumes "complete step run" and "reach (run 0)" and "\<not> active (run i)"
  shows "\<exists>j \<ge> i. over (run j)"
proof -
  obtain j where "\<not> step (run (i + j)) (run (Suc (i + j)))"
    using no_infinite_run [of "\<lambda>j. run (i + j)"] assms(3) by auto
  then have "\<nexists>s'. step (run (i + j)) s'" using assms(1) unfolding complete_def by blast
  then show ?thesis using stuck_over complete_reach [OF assms(1,2)] by (intro exI [of _ "i + j"]) simp
qed

end

end
