(* ===== verification/Server_Runs.thy ===== *)
theory Server_Runs
  imports Ws_Server Thread_Runs
begin

text \<open>
  The runs of a server session, with every interleaving of its threads and every peer. One thread at a time writes
  messages, and these messages are whole frames unless a write fails. Once the session has been made inactive, at
  most the message in progress is still sent, no run goes on for ever unless the peer sends frames for ever, and no thread is
  stuck before all of them have ended. The replies to control frames, which are written without the mutex, can tear a message apart.
\<close>

section \<open>Every step keeps the invariant\<close>

lemma bg_step_inv:
  assumes "bg_step b s s'" and inv: "server_inv s"
  shows "server_inv s'"
  using assms(1)
proof cases
  case bg_while
  show ?thesis unfolding bg_while(1) by (rule bg_quiet [OF inv]) (simp_all add: same_chan_def bg_while(2))
next
  case bg_sleep
  show ?thesis unfolding bg_sleep(1) by (rule bg_quiet [OF inv]) (simp_all add: same_chan_def bg_sleep(2))
next
  case bg_break
  show ?thesis unfolding bg_break(1) by (rule bg_quiet [OF inv]) (simp_all add: same_chan_def bg_break(2))
next
  case (bg_send t now m d)
  have "server_ok d" using bg_message_ok [OF bg_send(4,5)] bg_send(6) by auto
  then show ?thesis unfolding bg_send(1) by (intro bg_begin [OF inv]) (simp_all add: bg_send(2))
next
  case bg_timeout
  show ?thesis unfolding bg_timeout(1) by (rule bg_quiet [OF inv]) (simp_all add: same_chan_def bg_timeout(2))
next
  case (bg_test now)
  show ?thesis unfolding bg_test(1) by (rule bg_quiet [OF inv]) (simp_all add: same_chan_def bg_test(2))
next
  case (bg_call c s1 c')
  show ?thesis unfolding bg_call(1) by (rule bg_call_inv [OF inv bg_call(2,3)]) simp
next
  case (bg_return c s1 r)
  show ?thesis unfolding bg_return(1) by (rule bg_call_inv [OF inv bg_return(2,3)]) simp
next
  case bg_fail
  show ?thesis unfolding bg_fail(1)
    by (rule bg_quiet [OF inv]) (simp_all add: same_chan_def bg_fail(2))
next
  case bg_shutdown
  show ?thesis unfolding bg_shutdown(1)
    by (rule bg_quiet [OF inv]) (simp_all add: same_chan_def bg_shutdown(2))
qed

text \<open>The receive loop moves on without touching anything but the frames of the peer.\<close>

lemma main_move:
  assumes "server_inv s" and "server_calls s MainT = None"
    and "case pc of MCall _ _ \<Rightarrow> False | MHandle p \<Rightarrow> length p \<le> LIMIT | _ \<Rightarrow> finishing pc \<longrightarrow> \<not> ch_active s"
  shows "server_inv (s\<lparr>sv_input := fs, sv_main := pc\<rparr>)" "server_inv (s\<lparr>sv_main := pc\<rparr>)"
proof -
  have l: "string_ok (sv_language s)" "length (sv_language s) \<le> LIMIT" using assms(1) by (simp_all add: server_inv_def)
  have pc: "\<forall>c stop. pc \<noteq> MCall c stop" "\<forall>p. pc = MHandle p \<longrightarrow> length p \<le> LIMIT" "finishing pc \<Longrightarrow> \<not> ch_active s"
    using assms(3) by (auto split: mpc.splits)
  show "server_inv (s\<lparr>sv_input := fs, sv_main := pc\<rparr>)"
    by (rule main_quiet [OF assms(1,2) pc(1), of "s\<lparr>sv_input := fs\<rparr>"]) (use l pc in simp_all)
  show "server_inv (s\<lparr>sv_main := pc\<rparr>)"
    by (rule main_quiet [OF assms(1,2) pc(1), of s]) (use l pc in simp_all)
qed

lemma main_step_inv:
  assumes "main_step s s'" and inv: "server_inv s"
  shows "server_inv s'"
proof -
  have lang: "string_ok (sv_language s)" "length (sv_language s) \<le> LIMIT"
    and off: "finishing (sv_main s) \<Longrightarrow> \<not> ch_active s"
    using inv by (simp_all add: server_inv_def)
  note quiet = main_quiet [OF inv]
  show ?thesis using assms(1)
  proof cases
    case (main_message acc f fs p)
    then have "length p \<le> LIMIT" using deliver_size [OF main_message(4)] by (simp add: LIMIT_def MAX_BYTES_def)
    then show ?thesis using main_move(1) [OF inv] main_message by simp
  next
    case (main_reply bs nxt k)
    let ?pc = "if k < length bs then MReply (drop k bs) nxt else case nxt of None \<Rightarrow> MCleanup | Some acc \<Rightarrow> MRecv acc"
    have "\<forall>c stop. ?pc \<noteq> MCall c stop" "\<forall>p. ?pc \<noteq> MHandle p" "\<not> finishing ?pc" by (auto split: option.splits)
    then show ?thesis
      using lang quiet [of ?pc "s\<lparr>ch_sends := ch_sends s @ [(Control_Reply, Some (take k bs))]\<rparr>"] main_reply by simp
  next
    case (main_reply_fail bs nxt)
    then show ?thesis using lang quiet [of MCleanup "s\<lparr>ch_sends := ch_sends s @ [(Control_Reply, None)]\<rparr>"] by simp
  next
    case (main_handle p now rc)
    then show ?thesis using main_handle_inv [OF inv] by simp
  next
    case (main_call c stop s1 c')
    show ?thesis unfolding main_call(1) by (rule main_call_inv [OF inv main_call(2,3), of _ c']) simp_all
  next
    case (main_return c stop s1 r)
    show ?thesis unfolding main_return(1) by (rule main_call_inv [OF inv main_return(2,3)]) simp_all
  next
    case (main_after stop)
    then show ?thesis using lang quiet [of MWhile "s\<lparr>ch_active := (ch_active s \<and> \<not> stop)\<rparr>"] by simp
  next
    case main_cleanup
    then show ?thesis using lang quiet [of MClose "s\<lparr>ch_active := False\<rparr>"] by simp
  next
    case main_close
    then show ?thesis using off lang quiet [of "MJoin [PingT, TimeT, KissT, TimeoutT]" "s\<lparr>ch_closed := True\<rparr>"] by simp
  qed (use off in \<open>simp_all add: main_move [OF inv]\<close>)
qed

lemma server_step_inv: "server_step s s' \<Longrightarrow> server_inv s \<Longrightarrow> server_inv s'"
  by (erule server_step.cases) (auto intro: bg_step_inv main_step_inv)

lemma reach_inv: "server_reach s \<Longrightarrow> server_inv s"
  by (induction rule: server_reach.induct) (auto intro: server_inv_init server_step_inv)

lemma server_messages: "server_reach s \<Longrightarrow> message_stream server_frames server_ok (ch_sends s)"
  using reach_inv [of s] stream_messages [of server_frames server_ok s "pending s (server_calls s)"] by (simp add: server_inv_def chan_inv_def)

section \<open>The replies to control frames\<close>

definition is_reply :: "bytes \<Rightarrow> bool" where
  "is_reply f \<longleftrightarrow> (\<exists>opc p. (opc = 0x08 \<or> opc = 0x0A) \<and> length p \<le> 125 \<and> f = control_bytes opc p False [])"

fun past_loop :: "mpc \<Rightarrow> bool" where
  "past_loop pc \<longleftrightarrow> pc = MCleanup \<or> finishing pc"

fun reply_left :: "mpc \<Rightarrow> bytes option" where
  "reply_left (MReply bs _) = Some bs"
| "reply_left _ = None"

definition reply_inv :: "server \<Rightarrow> bool" where
  "reply_inv s \<longleftrightarrow> Closing_Frame \<notin> fst ` set (ch_sends s)
     \<and> reply_stream is_reply (ch_sends s) (reply_left (sv_main s)) (past_loop (sv_main s))"

lemma is_reply_proper: "is_reply f \<Longrightarrow> f \<noteq> []"
  by (auto simp: is_reply_def control_bytes_def Let_def)

lemma reply_bg:
  assumes "bg_step b s s'" and "reply_inv s"
  shows "reply_inv s'"
proof -
  have "sv_main s' = sv_main s" "ch_sends s' = ch_sends s \<or> (\<exists>x. ch_sends s' = ch_sends s @ [(Message_Frame, x)])"
    using assms(1) by (auto elim!: bg_step.cases dest: call_step_server call_step_sends)
  then show ?thesis using assms(2) by (auto simp: reply_inv_def)
qed

text \<open>The loop moves on, with no reply in progress before and after.\<close>

lemma reply_move:
  assumes "reply_inv s" and "reply_left (sv_main s) = None" "reply_left (sv_main s') = None"
    and "past_loop (sv_main s) \<Longrightarrow> past_loop (sv_main s')"
    and "ch_sends s' = ch_sends s \<or> (\<exists>x. ch_sends s' = ch_sends s @ [(Message_Frame, x)])"
  shows "reply_inv s'"
  using assms reply_stream_over [of is_reply "ch_sends s" "past_loop (sv_main s)"] by (auto simp: reply_inv_def)

lemma reply_main:
  assumes "main_step s s'" and inv: "reply_inv s"
  shows "reply_inv s'"
  using assms(1)
proof cases
  case (main_closed acc f fs p)
  then have "is_reply (control_bytes 0x08 p False [])" using control_size(1) [OF main_closed(4)] by (auto simp: is_reply_def)
  then show ?thesis using inv main_closed by (simp add: reply_inv_def reply_stream_begin is_reply_proper)
next
  case (main_ping acc f fs acc')
  then have "is_reply (control_bytes 0x0A (raw_data f) False [])" using control_size(2) [OF main_ping(4,5)] by (auto simp: is_reply_def)
  then show ?thesis using inv main_ping by (simp add: reply_inv_def reply_stream_begin is_reply_proper)
next
  case (main_reply bs nxt k)
  then have "reply_stream is_reply (ch_sends s) (Some bs) False" using inv by (simp add: reply_inv_def)
  from reply_stream_write [OF this main_reply(4), of "past_loop (sv_main s')"]
  show ?thesis using inv main_reply by (auto simp: reply_inv_def split: option.split if_splits)
next
  case (main_reply_fail bs nxt)
  then have "reply_stream is_reply (ch_sends s) (Some bs) False" using inv by (simp add: reply_inv_def)
  from reply_stream_fail [OF this] show ?thesis using inv main_reply_fail by (simp add: reply_inv_def)
next
  case (main_handle p now rc)
  then show ?thesis
    by (intro reply_move [OF inv]) (auto simp: after_reaction_def split: option.splits sum.splits)
next
  case (main_call c stop s1 c')
  then show ?thesis using call_step_sends [OF main_call(3)] by (intro reply_move [OF inv]) simp_all
next
  case (main_return c stop s1 r)
  then show ?thesis using call_step_sends [OF main_return(3)] by (intro reply_move [OF inv]) simp_all
qed (auto intro!: reply_move [OF inv])

lemma reach_replies: "server_reach s \<Longrightarrow> reply_inv s"
proof (induction rule: server_reach.induct)
  case (reach_start now peer)
  show ?case by (simp add: reply_inv_def server_init_def)
next
  case (reach_step s s')
  then show ?case using reply_bg reply_main by (blast elim: server_step.cases)
qed

section \<open>After the session has been made inactive\<close>

definition finishes_frame :: "server \<Rightarrow> server \<Rightarrow> bool" where
  "finishes_frame s s' \<longleftrightarrow> (\<exists>k j. sent_by Message_Frame (ch_sends s') = sent_by Message_Frame (ch_sends s) @ take k (unsent s (server_calls s))
     \<and> unsent s' (server_calls s') = take j (drop k (unsent s (server_calls s))))"

lemma finishes_same:
  "same_messages (ch_sends s) (ch_sends s') \<Longrightarrow> unsent s' (server_calls s') = unsent s (server_calls s) \<Longrightarrow> finishes_frame s s'"
  unfolding finishes_frame_def same_messages_def by (intro exI [of _ 0] exI [of _ "length (unsent s (server_calls s))"]) simp

lemma finishes_trans:
  assumes "finishes_frame s s'" "finishes_frame s' s''"
  shows "finishes_frame s s''"
proof -
  let ?out = "\<lambda>s. sent_by Message_Frame (ch_sends s)" and ?u = "\<lambda>s. unsent s (server_calls s)"
  obtain k j k' j' where 1: "?out s' = ?out s @ take k (?u s)" "?u s' = take j (drop k (?u s))"
    "?out s'' = ?out s' @ take k' (?u s')" "?u s'' = take j' (drop k' (?u s'))"
    using assms unfolding finishes_frame_def by blast
  let ?k = "k + min k' j"
  have "?out s'' = ?out s @ take ?k (?u s)" using 1 by (simp add: take_add min.commute)
  moreover have "?u s'' = take (min j' (j - k')) (drop ?k (?u s))"
    using 1 by (cases "k' \<le> j") (simp_all add: drop_take add.commute)
  ultimately show ?thesis unfolding finishes_frame_def by blast
qed

lemma quiet_finishes:
  assumes "ch_lock s' = ch_lock s" "ch_closed s' = ch_closed s" "same_messages (ch_sends s) (ch_sends s')" "server_calls s' = server_calls s"
  shows "finishes_frame s s'"
  by (rule finishes_same) (simp_all add: assms(3,4) unsent_cong [OF assms(1,2)])

lemma quiet_finishes_bg:
  assumes "server_calls s (BgT b) = None" and "\<forall>c. pc \<noteq> BCall c" and "same_chan s s1"
  shows "finishes_frame s (set_bg b pc s1)"
proof -
  have s1: "server_calls s1 = server_calls s" using assms(3) by (intro server_calls_chan) (simp_all add: same_chan_def)
  have "server_calls (set_bg b pc s1) = server_calls s"
    unfolding server_calls_bg s1 using assms(1,2) by (cases pc) auto
  then show ?thesis using assms(3) by (intro quiet_finishes) (simp_all add: same_chan_def)
qed

lemma call_finishes:
  assumes "exclusive s (server_calls s)" "\<not> ch_active s" "server_calls s t = Some c" "call_step server_frames t s c s1 r"
    and "server_calls s' = (server_calls s)(t := (case r of Inl c' \<Rightarrow> Some c' | Inr _ \<Rightarrow> None))"
    and "ch_lock s' = ch_lock s1" "ch_closed s' = ch_closed s1" "ch_sends s' = ch_sends s1"
  shows "finishes_frame s s'"
  using unsent_call [OF assms(1,3,4,2)] unsent_cong [OF assms(6,7)] assms(5,8) by (auto simp: finishes_frame_def)

lemma bg_finishes:
  assumes "bg_step b s s'" and "exclusive s (server_calls s)" "\<not> ch_active s"
  shows "finishes_frame s s'"
  using assms(1)
proof cases
  case (bg_call c s1 c')
  show ?thesis unfolding bg_call(1)
    by (rule call_finishes [OF assms(2,3) _ bg_call(3)]) (simp_all add: bg_call(2) server_calls_after_bg [OF bg_call(3)])
next
  case (bg_return c s1 r)
  show ?thesis unfolding bg_return(1)
    by (rule call_finishes [OF assms(2,3) _ bg_return(3)]) (simp_all add: bg_return(2) server_calls_after_bg [OF bg_return(3)])
next
  case bg_fail
  show ?thesis unfolding bg_fail(1) by (rule quiet_finishes_bg) (simp_all add: bg_fail(2) same_chan_def)
next
  case bg_shutdown
  show ?thesis unfolding bg_shutdown(1) by (rule quiet_finishes_bg) (simp_all add: bg_shutdown(2) same_chan_def)
qed (use assms(3) in \<open>simp_all add: quiet_finishes_bg same_chan_def\<close>)

lemma quiet_finishes_main:
  assumes "server_calls s MainT = None" and "\<forall>c stop. pc \<noteq> MCall c stop"
    and "ch_lock s1 = ch_lock s" "ch_closed s1 = ch_closed s" "same_messages (ch_sends s) (ch_sends s1)" "sv_bg s1 = sv_bg s" "sv_main s1 = sv_main s"
  shows "finishes_frame s (s1\<lparr>sv_main := pc\<rparr>)"
proof -
  have s1: "server_calls s1 = server_calls s" using assms(6,7) by (intro server_calls_chan)
  have "server_calls (s1\<lparr>sv_main := pc\<rparr>) = server_calls s"
    unfolding server_calls_main s1 using assms(1,2) by (cases pc) auto
  then show ?thesis using assms(3-5) by (intro quiet_finishes) simp_all
qed

lemma move_finishes:
  assumes "server_calls s MainT = None" and "\<forall>c stop. pc \<noteq> MCall c stop"
  shows "finishes_frame s (s\<lparr>sv_input := fs, sv_main := pc\<rparr>)" "finishes_frame s (s\<lparr>sv_main := pc\<rparr>)"
  using quiet_finishes_main [OF assms, of "s\<lparr>sv_input := fs\<rparr>"] quiet_finishes_main [OF assms, of s] by simp_all

lemma begin_finishes:
  assumes "exclusive s (server_calls s)" "server_calls s MainT = None" "server_calls s' = (server_calls s)(MainT := Some (Acquire d))"
    and "ch_lock s' = ch_lock s" "ch_closed s' = ch_closed s" "ch_sends s' = ch_sends s"
  shows "finishes_frame s s'"
proof -
  have "ch_lock s \<noteq> Some MainT" using assms(1,2) by (auto simp: exclusive_def)
  then have "unsent s' (server_calls s') = unsent s (server_calls s)"
    using assms(3-5) by (auto simp: unsent_def pending_def split: option.splits)
  then show ?thesis using assms(6) by (intro finishes_same) simp_all
qed

lemma handle_finishes:
  assumes "sv_main s = MHandle p" and ex: "exclusive s (server_calls s)"
  shows "finishes_frame s (after_reaction rc s)"
proof -
  let ?s1 = "s\<lparr>sv_language := rc_language rc, sv_lastPong := (case rc_pong rc of None \<Rightarrow> sv_lastPong s | Some t \<Rightarrow> t)\<rparr>"
  have after: "after_reaction rc s = ?s1\<lparr>sv_main := sv_main (after_reaction rc s)\<rparr>" by (simp add: after_reaction_def)
  have same: "server_calls ?s1 = server_calls s" by (rule server_calls_chan) simp_all
  have calls: "server_calls (after_reaction rc s) =
      (server_calls s)(MainT := (case sv_main (after_reaction rc s) of MCall c _ \<Rightarrow> Some c | _ \<Rightarrow> None))"
    by (subst after) (simp only: server_calls_main same)
  show ?thesis
  proof (cases "\<exists>d. sv_main (after_reaction rc s) = MCall (Acquire d) (rc_stop rc)")
    case True
    then obtain d where d: "sv_main (after_reaction rc s) = MCall (Acquire d) (rc_stop rc)" by blast
    show ?thesis
      by (rule begin_finishes [OF ex]) (use calls d in \<open>simp_all add: assms(1) after_reaction_def\<close>)
  next
    case False
    then have "\<forall>c stop. sv_main (after_reaction rc s) \<noteq> MCall c stop"
      by (auto simp: after_reaction_def split: option.splits sum.splits)
    then show ?thesis by (subst after, intro quiet_finishes_main) (simp_all add: assms(1))
  qed
qed

lemma main_finishes:
  assumes "main_step s s'" and ex: "exclusive s (server_calls s)" and off: "\<not> ch_active s"
  shows "finishes_frame s s'"
  using assms(1)
proof cases
  case (main_reply bs nxt k)
  let ?pc = "if k < length bs then MReply (drop k bs) nxt else case nxt of None \<Rightarrow> MCleanup | Some acc \<Rightarrow> MRecv acc"
  have "\<forall>c stop. ?pc \<noteq> MCall c stop" by (auto split: option.splits)
  then show ?thesis
    using main_reply quiet_finishes_main [of s ?pc "s\<lparr>ch_sends := ch_sends s @ [(Control_Reply, Some (take k bs))]\<rparr>"] by simp
next
  case (main_reply_fail bs nxt)
  then show ?thesis using quiet_finishes_main [of s MCleanup "s\<lparr>ch_sends := ch_sends s @ [(Control_Reply, None)]\<rparr>"] by simp
next
  case (main_handle p now rc)
  then show ?thesis using handle_finishes [OF _ ex] by simp
next
  case (main_call c stop s1 c')
  show ?thesis unfolding main_call(1)
    by (rule call_finishes [OF ex off _ main_call(3)]) (simp_all add: main_call(2) server_calls_after_main [OF main_call(3)])
next
  case (main_return c stop s1 r)
  show ?thesis unfolding main_return(1)
    by (rule call_finishes [OF ex off _ main_return(3)]) (simp_all add: main_return(2) server_calls_after_main [OF main_return(3)])
next
  case (main_after stop)
  then show ?thesis using quiet_finishes_main [of s MWhile "s\<lparr>ch_active := (ch_active s \<and> \<not> stop)\<rparr>"] by simp
next
  case main_cleanup
  then show ?thesis using quiet_finishes_main [of s MClose "s\<lparr>ch_active := False\<rparr>"] by simp
next
  case main_close
  then have "ch_sends s' = ch_sends s" "unsent s' (server_calls s') = []" by (simp_all add: unsent_def)
  then show ?thesis unfolding finishes_frame_def by (intro exI [of _ 0]) simp
qed (simp_all add: move_finishes)

lemma bg_active: "bg_step b s s' \<Longrightarrow> ch_active s' \<Longrightarrow> ch_active s"
  by (erule bg_step.cases) (auto dest: call_step_active)

lemma main_active: "main_step s s' \<Longrightarrow> ch_active s' \<Longrightarrow> ch_active s"
  by (erule main_step.cases) (auto simp: after_reaction_def dest: call_step_active)

lemma server_active: "server_step s s' \<Longrightarrow> ch_active s' \<Longrightarrow> ch_active s"
  by (erule server_step.cases) (blast dest: bg_active main_active)+

lemma server_finishes:
  assumes "server_step s s'" and "server_inv s" "\<not> ch_active s"
  shows "finishes_frame s s'"
proof -
  have "exclusive s (server_calls s)" using assms(2) by (simp add: server_inv_def chan_inv_def)
  then show ?thesis using assms(1,3) by (auto elim!: server_step.cases intro: bg_finishes main_finishes)
qed

lemma run_finishes:
  assumes "(server_step)\<^sup>*\<^sup>* s s'" and "server_inv s" "\<not> ch_active s"
  shows "finishes_frame s s' \<and> server_inv s' \<and> \<not> ch_active s'"
  using assms
proof (induction rule: rtranclp_induct)
  case (step s' s'')
  then show ?case using finishes_trans server_finishes server_step_inv server_active by blast
qed (simp add: finishes_same)

section \<open>The end of a session\<close>

text \<open>How far the receive loop and the background threads are from their ends, once the session is inactive.\<close>

fun main_phase :: "mpc \<Rightarrow> nat" where
  "main_phase (MReply _ _) = 9"
| "main_phase (MRecv _) = 8"
| "main_phase (MHandle _) = 7"
| "main_phase (MCall _ _) = 6"
| "main_phase (MAfter _) = 5"
| "main_phase MWhile = 4"
| "main_phase MCleanup = 3"
| "main_phase MClose = 2"
| "main_phase (MJoin _) = 1"
| "main_phase MDone = 0"

fun main_left :: "mpc \<Rightarrow> nat" where
  "main_left (MReply bs _) = length bs"
| "main_left (MCall c _) = call_rank c"
| "main_left (MJoin bs) = length bs"
| "main_left _ = 0"

fun bg_left :: "bpc \<Rightarrow> nat" where
  "bg_left BDone = 0"
| "bg_left BShutdown = 1"
| "bg_left BWhile = 1"
| "bg_left BCheck = 1"
| "bg_left BSleep = 2"
| "bg_left BFail = 2"
| "bg_left BTest = 3"
| "bg_left (BCall c) = call_rank c + 2"

definition all_bg :: "bg list" where
  "all_bg = [PingT, TimeT, KissT, TimeoutT]"

lemma all_bg: "b \<in> set all_bg" "distinct all_bg"
  by (cases b) (simp_all add: all_bg_def)

definition steps_left :: "server \<Rightarrow> work" where
  "steps_left s =
     (length (sv_input s), main_phase (sv_main s), main_left (sv_main s), (\<Sum>b\<leftarrow>all_bg. bg_left (sv_bg s b)))"

lemma bg_sum:
  assumes "bg_left pc < bg_left (f b)"
  shows "(\<Sum>x\<leftarrow>all_bg. bg_left ((f(b := pc)) x)) < (\<Sum>x\<leftarrow>all_bg. bg_left (f x))"
  using assms by (cases b) (simp_all add: all_bg_def)

lemma bg_left_step:
  assumes "bg_step b s s'" and "\<not> ch_active s"
  shows "sv_main s' = sv_main s \<and> sv_input s' = sv_input s \<and> (\<exists>pc. sv_bg s' = (sv_bg s)(b := pc) \<and> bg_left pc < bg_left (sv_bg s b))"
  using assms(1)
proof cases
  case (bg_call c s1 c')
  then show ?thesis using call_rank_step [OF bg_call(3) assms(2)] call_step_server [OF bg_call(3)]
    by (intro conjI exI [of _ "BCall c'"]) simp_all
next
  case (bg_return c s1 r)
  have "0 < call_rank c" by (cases c) simp_all
  then show ?thesis using bg_return call_step_server [OF bg_return(3)]
    by (intro conjI exI [of _ "if r then BWhile else BFail"]) simp_all
qed (use assms(2) in \<open>auto split: if_splits\<close>)

lemma main_left_step:
  assumes "main_step s s'" and "\<not> ch_active s"
  shows "sv_bg s' = sv_bg s \<and> ((length (sv_input s'), main_phase (sv_main s'), main_left (sv_main s')),
    (length (sv_input s), main_phase (sv_main s), main_left (sv_main s))) \<in> less_than <*lex*> less_than <*lex*> less_than"
  using assms(1)
proof cases
  case (main_reply bs nxt k)
  then show ?thesis by (auto split: option.splits)
next
  case (main_handle p now rc)
  then show ?thesis by (auto simp: after_reaction_def split: option.splits sum.splits)
next
  case (main_call c stop s1 c')
  then show ?thesis using call_rank_step [OF main_call(3) assms(2)] call_step_server [OF main_call(3)] by simp
next
  case (main_return c stop s1 r)
  then show ?thesis using call_step_server [OF main_return(3)] by simp
qed (use assms(2) in auto)

lemma left_step:
  assumes "server_step s s'" and "\<not> ch_active s"
  shows "(steps_left s', steps_left s) \<in> less_work"
  using assms(1)
proof cases
  case (step_bg b)
  then show ?thesis using bg_left_step [OF _ assms(2)] bg_sum by (fastforce simp: steps_left_def)
next
  case step_main
  then show ?thesis using main_left_step [OF _ assms(2)] by (auto simp: steps_left_def)
qed

text \<open>No thread waits for ever: the holder of the mutex can go on.\<close>

lemma call_can_step:
  assumes "exclusive s (server_calls s)" and "server_calls s t = Some c"
  shows "\<exists>s'. server_step s s'"
proof -
  have "\<forall>d. server_frames d \<noteq> {}" by (simp add: server_frames_def)
  from some_call_steps [OF assms this] obtain u c' s1 r
    where u: "server_calls s u = Some c'" and st: "call_step server_frames u s c' s1 r" by blast
  show ?thesis
  proof (cases u)
    case MainT
    then obtain stop where "sv_main s = MCall c' stop" using u by (auto split: mpc.splits)
    then show ?thesis using st MainT main_call [of s c' stop s1] main_return [of s c' stop s1] step_main by (cases r) blast+
  next
    case (BgT b)
    then have "sv_bg s b = BCall c'" using u by (auto split: bpc.splits)
    then show ?thesis using st BgT bg_call [of s b c' s1] bg_return [of s b c' s1] step_bg by (cases r) blast+
  qed
qed

lemma bg_can_step:
  assumes "exclusive s (server_calls s)" and "sv_bg s b \<noteq> BDone"
  shows "\<exists>s'. server_step s s'"
proof (cases "sv_bg s b")
  case (BCall c)
  then show ?thesis using call_can_step [OF assms(1), of "BgT b" c] by simp
next
  case BCheck
  show ?thesis
  proof (cases "ch_active s \<and> b \<noteq> TimeoutT")
    case True
    obtain m where m: "bg_message b 0 [] = Some m" using True by (cases b) auto
    have "iso_text []" by (simp add: iso_text_def)
    then show ?thesis using bg_message_ok [OF _ m] bg_send [OF BCheck _ _ m] True step_bg by metis
  next
    case False
    then show ?thesis using bg_break [OF BCheck] bg_timeout [OF BCheck] step_bg by metis
  qed
qed (use assms(2) in \<open>auto intro: step_bg bg_while bg_sleep bg_test bg_fail bg_shutdown\<close>)

lemma main_can_step:
  assumes "exclusive s (server_calls s)" and "sv_main s \<noteq> MDone"
  shows "\<exists>s'. server_step s s'"
proof (cases "sv_main s")
  case (MCall c stop)
  then show ?thesis using call_can_step [OF assms(1), of MainT c] by simp
next
  case (MHandle p)
  then show ?thesis using main_handle [OF MHandle] main_throw [OF MHandle] step_main
    by (cases "serve_payload 0 (sv_language s) p") blast+
next
  case (MJoin bs)
  then show ?thesis
  proof (cases bs)
    case (Cons b bs')
    with MJoin show ?thesis using bg_can_step [OF assms(1), of b] main_join [of s b bs'] step_main by metis
  qed (use main_done step_main in blast)
next
  case (MRecv acc)
  then show ?thesis using main_end step_main by blast
next
  case (MReply bs nxt)
  then show ?thesis using main_reply_fail step_main by blast
qed (use assms(2) in \<open>auto intro: step_main main_while main_after main_cleanup main_close\<close>)

text \<open>The joins: a thread that has been joined has ended.\<close>

definition joined :: "server \<Rightarrow> bool" where
  "joined s \<longleftrightarrow> (case sv_main s of
       MJoin bs \<Rightarrow> ch_closed s \<and> (\<forall>b. b \<notin> set bs \<longrightarrow> sv_bg s b = BDone)
     | MDone \<Rightarrow> ch_closed s \<and> (\<forall>b. sv_bg s b = BDone)
     | _ \<Rightarrow> True)"

lemma bg_moves:
  "bg_step b s s' \<Longrightarrow> sv_bg s b \<noteq> BDone \<and> (\<forall>x. x \<noteq> b \<longrightarrow> sv_bg s' x = sv_bg s x) \<and> sv_main s' = sv_main s \<and> ch_closed s' = ch_closed s"
  by (erule bg_step.cases) (auto dest: call_step_server call_step_active)

lemma joined_bg: "bg_step b s s' \<Longrightarrow> joined s \<Longrightarrow> joined s'"
  using bg_moves [of b s s'] by (fastforce simp: joined_def split: mpc.splits)

lemma joined_main:
  assumes "main_step s s'" and "joined s"
  shows "joined s'"
  using assms(1)
proof cases
  case main_close
  have "b \<in> set [PingT, TimeT, KissT, TimeoutT]" for b by (cases b) simp_all
  then show ?thesis by (simp add: main_close(1) joined_def)
next
  case (main_join b bs)
  then show ?thesis using assms(2) by (auto simp: joined_def)
qed (use assms(2) in \<open>auto simp: joined_def after_reaction_def split: option.splits sum.splits\<close>)

lemma reach_joined: "server_reach s \<Longrightarrow> joined s"
proof (induction rule: server_reach.induct)
  case (reach_start now)
  show ?case by (simp add: joined_def server_init_def)
next
  case (reach_step s s')
  then show ?case using joined_bg joined_main by (blast elim: server_step.cases)
qed

definition session_over :: "server \<Rightarrow> bool" where
  "session_over s \<longleftrightarrow> sv_main s = MDone \<and> (\<forall>b. sv_bg s b = BDone) \<and> ch_closed s \<and> \<not> ch_active s \<and> ch_lock s = None"

lemma stuck_session:
  assumes "server_reach s" and "\<nexists>s'. server_step s s'"
  shows "session_over s"
proof -
  have inv: "exclusive s (server_calls s)" "finishing (sv_main s) \<longrightarrow> \<not> ch_active s"
    using reach_inv [OF assms(1)] by (simp_all add: server_inv_def chan_inv_def)
  then have m: "sv_main s = MDone" using main_can_step assms(2) by blast
  then have d: "\<forall>b. sv_bg s b = BDone" "ch_closed s" using reach_joined [OF assms(1)] by (simp_all add: joined_def)
  have "server_calls s t = None" for t using m d(1) by (cases t) simp_all
  then have "ch_lock s = None" using inv(1) by (cases "ch_lock s") (auto simp: exclusive_def)
  then show ?thesis using m d inv(2) by (simp add: session_over_def)
qed

interpretation sv: stopping "server_step" ch_active "server_reach" steps_left session_over
  by unfold_locales (rule server_active, assumption+, erule (1) left_step, erule (1) reach_step, erule (1) stuck_session)


section \<open>What a session sends\<close>

lemma server_frame_simps:
  "piece server_frames server_ok = (\<lambda>q. \<exists>d. server_ok d \<and> prefix q (binary_bytes d))"
  "entire server_frames server_ok = (\<lambda>q. \<exists>d. server_ok d \<and> q = binary_bytes d)"
  "begun server_frames server_ok p \<longleftrightarrow> p = [] \<or> (\<exists>d. server_ok d \<and> strict_prefix p (binary_bytes d))"
  by (auto simp: piece_def entire_def begun_def server_frames_def fun_eq_iff)

lemma server_replies:
  "server_reach s \<Longrightarrow> \<exists>cs q. sent_by Control_Reply (ch_sends s) = concat cs @ q \<and> list_all is_reply cs
     \<and> (q = [] \<or> (\<exists>f. is_reply f \<and> strict_prefix q f))"
  using reach_replies [of s] reply_stream_parts [of is_reply "ch_sends s"] unfolding reply_inv_def by blast

text \<open>A step makes at most one call of \<open>send\<close>, so that every part of the calls so far was all of them once.\<close>

lemma server_sends: "server_step s s' \<Longrightarrow> ch_sends s' = ch_sends s \<or> (\<exists>e. ch_sends s' = ch_sends s @ [e])"
proof (erule server_step.cases)
  show "bg_step b sa s'' \<Longrightarrow> s = sa \<Longrightarrow> s' = s'' \<Longrightarrow> ?thesis" for b sa s''
    by (erule bg_step.cases) (auto dest: call_step_sends)
  show "main_step sa s'' \<Longrightarrow> s = sa \<Longrightarrow> s' = s'' \<Longrightarrow> ?thesis" for sa s''
    by (erule main_step.cases) (auto simp: after_reaction_def dest: call_step_sends)
qed

lemma server_earlier: "server_reach s \<Longrightarrow> prefix log (ch_sends s) \<Longrightarrow> \<exists>s0. server_reach s0 \<and> ch_sends s0 = log"
proof (induction arbitrary: log rule: server_reach.induct)
  case (reach_start now peer)
  then show ?case using server_reach.reach_start [of now peer] by (auto simp: server_init_def)
next
  case (reach_step s s')
  show ?case using server_sends [OF reach_step(2)] reach_step server_reach.reach_step by (metis prefix_snoc)
qed

lemma server_undisturbed:
  assumes "server_reach s"
  shows "\<exists>ds p. list_all server_ok ds \<and> all_sent (undisturbed (ch_sends s)) = concat (map binary_bytes ds) @ p
    \<and> (p = [] \<or> (\<exists>d. server_ok d \<and> strict_prefix p (binary_bytes d)))"
proof -
  let ?log = "undisturbed (ch_sends s)"
  obtain s0 where s0: "server_reach s0" "ch_sends s0 = ?log" using server_earlier [OF assms undisturbed(3)] by blast
  obtain qs p where q: "sent_by Message_Frame ?log = concat qs @ p" "list_all (entire server_frames server_ok) qs"
    "begun server_frames server_ok p"
    using server_messages [OF s0(1)] undisturbed(2) unfolding s0(2) message_stream_def by blast
  have "all_sent ?log = sent_by Message_Frame ?log"
    using unreplied [OF undisturbed(1)] reach_replies [OF s0(1)] unfolding s0(2) reply_inv_def by blast
  moreover obtain ds where "list_all2 (\<lambda>d f. server_ok d \<and> f \<in> server_frames d) ds qs" using entire_data [OF q(2)] by blast
  then have "list_all server_ok ds \<and> qs = map binary_bytes ds" by (induction rule: list_all2_induct) (simp_all add: server_frames_def)
  ultimately show ?thesis using q unfolding server_frame_simps by auto
qed

section \<open>Reachable states\<close>

text \<open>The ping thread of a new session, up to the writes of its first frame, while the loop waits for the peer.\<close>

definition first_ping :: bytes where
  "first_ping = (case encode (ping_message 0) of Inr d \<Rightarrow> d | Inl _ \<Rightarrow> [])"

lemma encode_first_ping: "encode (ping_message 0) = Inr first_ping"
  unfolding first_ping_def by code_simp

lemma first_ping_frame: "binary_bytes first_ping = 0x82 # tl (binary_bytes first_ping)" "tl (binary_bytes first_ping) \<noteq> []"
  unfolding first_ping_def by code_simp+

lemma first_ping_ok: "server_ok first_ping"
proof -
  have t: "iso_text []" by (simp add: iso_text_def)
  show ?thesis using bg_message_ok [OF t, of PingT 0 "ping_message 0"] encode_first_ping by auto
qed

definition pinging :: "raw_frame list \<Rightarrow> send_log \<Rightarrow> call \<Rightarrow> server" where
  "pinging peer log c = (server_init 0 peer)\<lparr>ch_lock := Some (BgT PingT), ch_sends := log, sv_main := MRecv None,
     sv_bg := (\<lambda>_. BWhile)(PingT := BCall c)\<rparr>"

lemma pinging_reach: "server_reach (pinging peer [] (Write (binary_bytes first_ping)))"
proof -
  let ?i = "server_init 0 peer"
  let ?s = "\<lambda>pc. ?i\<lparr>sv_main := MRecv None, sv_bg := (\<lambda>_. BWhile)(PingT := pc)\<rparr>"
  have bg: "server_reach s \<Longrightarrow> bg_step PingT s s' \<Longrightarrow> server_reach s'" for s s'
    using reach_step step_bg by blast
  have "main_step ?i (?s BWhile)"
    using main_while [of ?i] by (simp add: server_init_def fun_upd_idem)
  then have "server_reach (?s BWhile)" using reach_start reach_step step_main by blast
  then have "server_reach (?s BSleep)" by (rule bg) (use bg_while [of "?s BWhile" PingT] in \<open>simp add: server_init_def\<close>)
  then have "server_reach (?s BCheck)" by (rule bg) (use bg_sleep [of "?s BSleep" PingT] in \<open>simp add: server_init_def\<close>)
  then have "server_reach (?s (BCall (Acquire first_ping)))"
    by (rule bg) (use bg_send [of "?s BCheck" PingT "[]" 0 "ping_message 0" first_ping] encode_first_ping in \<open>simp add: server_init_def iso_text_def\<close>)
  then have "server_reach (pinging peer [] (Test first_ping))"
    by (rule bg) (use bg_call [of "?s (BCall (Acquire first_ping))" PingT, OF _ lock] in \<open>simp add: server_init_def pinging_def\<close>)
  then show ?thesis
    by (rule bg) (use bg_call [of "pinging peer [] (Test first_ping)" PingT, OF _ test_on]
      in \<open>simp add: server_init_def server_frames_def pinging_def\<close>)
qed

lemma pinging_write:
  assumes "0 < k" "k \<le> length bs"
  shows "bg_step PingT (pinging peer log (Write bs))
    (pinging peer (log @ [(Message_Frame, Some (take k bs))]) (if k = length bs then Release True else Write (drop k bs)))"
  using bg_call [of "pinging peer log (Write bs)" PingT, OF _ write_some [OF _ assms]]
  by (simp add: pinging_def server_init_def)

lemma pinged_reach: "server_reach (pinging peer [(Message_Frame, Some (binary_bytes first_ping))] (Release True))"
proof -
  have "0 < length (binary_bytes first_ping)" using first_ping_frame(1) by (cases "binary_bytes first_ping") simp_all
  then show ?thesis
    using reach_step [OF pinging_reach [of peer] step_bg [OF pinging_write]] by force
qed

text \<open>The peer may hang up whenever the loop waits for it.\<close>

lemma hang_up:
  assumes "server_reach s" and "sv_main s = MRecv acc"
  shows "server_reach (s\<lparr>ch_active := False, sv_main := MClose\<rparr>)"
    "server_reach (s\<lparr>ch_active := False, ch_closed := True, sv_main := MJoin [PingT, TimeT, KissT, TimeoutT]\<rparr>)"
proof -
  have m: "server_reach s \<Longrightarrow> main_step s s' \<Longrightarrow> server_reach s'" for s s'
    using reach_step step_main by blast
  have "server_reach (s\<lparr>sv_main := MCleanup\<rparr>)" using m [OF assms(1) main_end [OF assms(2)]] .
  from m [OF this main_cleanup] show 1: "server_reach (s\<lparr>ch_active := False, sv_main := MClose\<rparr>)" by simp
  from m [OF this main_close]
  show "server_reach (s\<lparr>ch_active := False, ch_closed := True, sv_main := MJoin [PingT, TimeT, KissT, TimeoutT]\<rparr>)" by simp
qed

text \<open>A ping frame of the peer, answered between the first byte of the server's own frame and the rest.\<close>

definition torn :: "send_log" where
  "torn = [(Message_Frame, Some [0x82]), (Control_Reply, Some [0x8A, 0]), (Message_Frame, Some (tl (binary_bytes first_ping)))]"

lemma torn_reach: "server_reach (pinging [] torn (Release True))"
proof -
  let ?f = "binary_bytes first_ping" and ?g = "control_frame 0x09 []"
  let ?l1 = "[(Message_Frame, Some [0x82])] :: send_log"
  let ?l2 = "?l1 @ [(Control_Reply, Some [0x8A, 0])]"
  have f: "?f = 0x82 # tl ?f" "tl ?f \<noteq> []" using first_ping_frame .
  have l: "0 < length (tl ?f)" unfolding length_greater_0_conv by (rule f(2))
  have "bg_step PingT (pinging [?g] [] (Write ?f)) (pinging [?g] ?l1 (Write (tl ?f)))"
    using pinging_write [of 1 ?f "[?g]" "[]"] f by (cases ?f) simp_all
  then have 1: "server_reach (pinging [?g] ?l1 (Write (tl ?f)))" using pinging_reach reach_step step_bg by blast
  let ?s = "(pinging [] ?l1 (Write (tl ?f)))\<lparr>sv_main := MReply [0x8A, 0] (Some None)\<rparr>"
  have "accept_frame None ?g = Inr None"
    by (simp add: accept_frame_def answer_def legal_def in_order_def acc_bytes_def MAX_BYTES_def)
  then have "main_step (pinging [?g] ?l1 (Write (tl ?f))) ?s"
    using main_ping [of "pinging [?g] ?l1 (Write (tl ?f))" None ?g "[]" None]
    by (simp add: pinging_def server_init_def control_bytes_def)
  then have 2: "server_reach ?s" using 1 reach_step step_main by blast
  have "main_step ?s (pinging [] ?l2 (Write (tl ?f)))"
    using main_reply [of ?s "[0x8A, 0]" "Some None" 2] by (simp add: pinging_def server_init_def)
  then have 3: "server_reach (pinging [] ?l2 (Write (tl ?f)))" using 2 reach_step step_main by blast
  have "bg_step PingT (pinging [] ?l2 (Write (tl ?f))) (pinging [] torn (Release True))"
    using pinging_write [OF l order_refl, of "[]" ?l2] by (simp add: torn_def)
  then show ?thesis using 3 reach_step step_bg by blast
qed

lemma torn_refused:
  "case wsRecvFrame seg_os False \<lparr>seg_in = [all_sent torn], seg_out = [], seg_accept = [], seg_random = []\<rparr> of
     Some (fr, c) \<Rightarrow> \<not> isValid fr | None \<Rightarrow> False"
  by code_simp

section \<open>Properties of the server sessions\<close>

text \<open>C3: in every reachable state of a session, with any peer and whatever the order in which its threads run, the bytes that the
  session's messages put on the connection are pieces of binary frames of messages that only a server sends and that decode,
  then a proper part of one more; the pieces are whole frames as long as no write of a message has failed. The bytes of
  the replies to control frames are whole pongs and close frames, then a part of one more. As long as no control frame has
  been answered, the peer sees the messages' bytes and nothing else; a reply may fall anywhere between two of their writes.\<close>

theorem server_stream:
  assumes "server_reach s"
  shows "(\<exists>qs p. sent_by Message_Frame (ch_sends s) = concat qs @ p
        \<and> list_all (\<lambda>q. \<exists>d. server_ok d \<and> prefix q (binary_bytes d)) qs
        \<and> (p = [] \<or> (\<exists>d. server_ok d \<and> strict_prefix p (binary_bytes d)))
        \<and> (\<not> send_failed Message_Frame (ch_sends s) \<longrightarrow> list_all (\<lambda>q. \<exists>d. server_ok d \<and> q = binary_bytes d) qs))
    \<and> (\<exists>cs q. sent_by Control_Reply (ch_sends s) = concat cs @ q \<and> list_all is_reply cs
        \<and> (q = [] \<or> (\<exists>f. is_reply f \<and> strict_prefix q f)))
    \<and> (\<not> replied (ch_sends s) \<longrightarrow> ch_out s = sent_by Message_Frame (ch_sends s))"
proof -
  have "\<not> replied (ch_sends s) \<longrightarrow> ch_out s = sent_by Message_Frame (ch_sends s)"
    using unreplied reach_replies [OF assms] by (simp add: reply_inv_def)
  then show ?thesis
    using server_messages [OF assms] server_replies [OF assms] unfolding message_stream_def server_frame_simps by blast
qed

theorem server_stream_witness:
  "\<exists>s. server_reach s \<and> ch_out s = binary_bytes first_ping \<and> ch_out s = sent_by Message_Frame (ch_sends s)
    \<and> (\<exists>qs p. ch_out s = concat qs @ p \<and> list_all (\<lambda>q. \<exists>d. server_ok d \<and> q = binary_bytes d) qs)"
proof -
  let ?s = "pinging [] [(Message_Frame, Some (binary_bytes first_ping))] (Release True)"
  have s: "ch_out ?s = binary_bytes first_ping" "\<not> replied (ch_sends ?s)" "\<not> send_failed Message_Frame (ch_sends ?s)"
    by (simp_all add: pinging_def all_sent_def replied_def send_failed_def)
  have r: "server_reach ?s" by (rule pinged_reach)
  have m: "ch_out ?s = sent_by Message_Frame (ch_sends ?s)" using server_stream [OF r] s(2) by blast
  have "\<exists>qs p. sent_by Message_Frame (ch_sends ?s) = concat qs @ p \<and> list_all (\<lambda>q. \<exists>d. server_ok d \<and> q = binary_bytes d) qs"
    using server_stream [OF r] s(3) by blast
  then have "\<exists>qs p. ch_out ?s = concat qs @ p \<and> list_all (\<lambda>q. \<exists>d. server_ok d \<and> q = binary_bytes d) qs" unfolding m .
  with r s(1) m show ?thesis by (intro exI [of _ ?s] conjI)
qed

text \<open>C13: two threads of a session never write at the same time: a thread that is inside \<open>sendFrame\<close>
  past the mutex is the one that the mutex names, in every reachable state.\<close>

theorem server_exclusion:
  assumes "server_reach s" and "server_calls s t = Some c" "holding c" and "server_calls s t' = Some c'" "holding c'"
  shows "t = t' \<and> ch_lock s = Some t"
proof -
  have "exclusive s (server_calls s)" using reach_inv [OF assms(1)] by (simp add: server_inv_def chan_inv_def)
  then show ?thesis using assms exclusive_only by (metis option.inject)
qed

theorem server_exclusion_witness:
  "server_calls (pinging [] [] (Write (binary_bytes first_ping))) (BgT PingT) = Some (Write (binary_bytes first_ping))
   \<and> ch_lock (pinging [] [] (Write (binary_bytes first_ping))) = Some (BgT PingT)"
proof -
  have c: "server_calls (pinging [] [] (Write (binary_bytes first_ping))) (BgT PingT) = Some (Write (binary_bytes first_ping))"
    by (simp add: pinging_def)
  show ?thesis using server_exclusion [OF pinging_reach c _ c] c by simp
qed

text \<open>C15: once \<open>active\<close> has been cleared, the messages that a session still sends are at most the rest of the one frame that is
  being written, however its threads go on and whatever the peer sends (replies to control frames are not messages and not counted).\<close>

theorem server_last_frame:
  assumes "server_reach s" and "\<not> ch_active s" and "server_step\<^sup>*\<^sup>* s s'"
  shows "\<exists>k. sent_by Message_Frame (ch_sends s') = sent_by Message_Frame (ch_sends s)
    @ take k (case pending s (server_calls s) of None \<Rightarrow> [] | Some bs \<Rightarrow> bs)"
proof -
  obtain k where "sent_by Message_Frame (ch_sends s') = sent_by Message_Frame (ch_sends s) @ take k (unsent s (server_calls s))"
    using run_finishes [OF assms(3) reach_inv [OF assms(1)] assms(2)] by (auto simp: finishes_frame_def)
  then show ?thesis by (intro exI [of _ "if ch_closed s then 0 else k"]) (simp add: unsent_def)
qed

theorem server_last_frame_witness:
  "\<exists>s s'. server_reach s \<and> \<not> ch_active s \<and> server_step s s' \<and> ch_out s = [] \<and> ch_out s' = [0x82]
    \<and> (\<exists>k. sent_by Message_Frame (ch_sends s') = sent_by Message_Frame (ch_sends s)
        @ take k (case pending s (server_calls s) of None \<Rightarrow> [] | Some bs \<Rightarrow> bs))"
proof -
  let ?f = "binary_bytes first_ping" and ?stop = "\<lambda>s. s\<lparr>ch_active := False, sv_main := MClose\<rparr> :: server"
  let ?s = "?stop (pinging [] [] (Write ?f))" and ?s' = "?stop (pinging [] [(Message_Frame, Some [0x82])] (Write (tl ?f)))"
  have r: "server_reach ?s" by (rule hang_up(1) [OF pinging_reach]) (simp add: pinging_def)
  have off: "\<not> ch_active ?s" "ch_out ?s = []" "ch_out ?s' = [0x82]" by (simp_all add: pinging_def all_sent_def)
  have "bg_step PingT ?s ?s'"
    using bg_call [of ?s PingT, OF _ write_some [where k = 1]] first_ping_frame by (cases ?f) (simp_all add: pinging_def server_init_def)
  then have st: "server_step ?s ?s'" by (rule step_bg)
  show ?thesis using server_last_frame [OF r off(1) r_into_rtranclp [of server_step, OF st]] r off st by blast
qed

text \<open>C28: no run of a session goes on for ever after \<open>active\<close> has been cleared, with any peer that sends finitely many frames, of
  any kind: \<open>sv_input\<close> lists them, control frames and empty fragments included. What is left of every thread is a bounded number of steps.\<close>

theorem server_terminates:
  "\<not> (\<exists>run. \<not> ch_active (run 0) \<and> (\<forall>i::nat. server_step (run i) (run (Suc i))))"
  using sv.no_infinite_run by blast

text \<open>C14: no deadlock. In every reachable state some thread can go on, or the session is over: the
  receive loop has returned, every background thread has ended, the socket is closed and the mutex is free.\<close>

theorem server_progress:
  assumes "server_reach s"
  shows "(\<exists>s'. server_step s s') \<or>
    (sv_main s = MDone \<and> (\<forall>b. sv_bg s b = BDone) \<and> ch_closed s \<and> \<not> ch_active s \<and> ch_lock s = None)"
  using stuck_session [OF assms] by (auto simp: session_over_def)

theorem server_progress_witness:
  "(\<exists>s'. server_step (server_init 0 []) s') \<and> sv_main (server_init 0 []) = MWhile"
  using server_progress [OF reach_start, of 0 "[]"] by (auto simp: server_init_def)

text \<open>C8: every run of a session that clears \<open>active\<close> ends, with all background threads joined and the
  socket closed. The peer sends any finite sequence of frames, control frames and empty fragments included, before the connection
  ends, and the calls of the system return: a run is a sequence of steps that goes on as long as some thread can step.\<close>

theorem server_ends:
  assumes "complete server_step run" and "run 0 = server_init now peer" and "\<not> ch_active (run i)"
  shows "\<exists>j \<ge> i. sv_main (run j) = MDone \<and> (\<forall>b. sv_bg (run j) b = BDone) \<and> ch_closed (run j) \<and> ch_lock (run j) = None"
proof -
  have "server_reach (run 0)" unfolding assms(2) by (rule reach_start)
  from sv.run_over [OF assms(1) this assms(3)] show ?thesis unfolding session_over_def by blast
qed

theorem server_ends_witness:
  "\<exists>run. complete server_step run \<and> run 0 = server_init 0 [control_frame 0x09 []]
    \<and> (\<exists>j \<ge> 3. sv_main (run j) = MDone \<and> (\<forall>b. sv_bg (run j) b = BDone))"
proof -
  let ?i = "server_init 0 [control_frame 0x09 []]"
  let ?s = "\<lambda>pc. ?i\<lparr>sv_main := pc\<rparr>" and ?c = "?i\<lparr>ch_active := False, sv_main := MClose\<rparr>"
  obtain run where run: "complete server_step run" "run 0 = ?c" using complete_from [of server_step ?c] by blast
  have 1: "server_step (?s MCleanup) ?c" using main_cleanup [of "?s MCleanup"] step_main by simp
  have 2: "server_step (?s (MRecv None)) (?s MCleanup)" using main_end [of "?s (MRecv None)" None] step_main by simp
  have 3: "server_step ?i (?s (MRecv None))"
    using main_while [of ?i] step_main by (simp add: server_init_def)
  let ?run = "case_nat ?i (case_nat (?s (MRecv None)) (case_nat (?s MCleanup) run))"
  have c: "complete server_step ?run" by (intro complete_Cons run) (simp_all add: 1 2 3 run(2))
  have "\<not> ch_active (?run 3)" by (simp add: run(2) numeral_3_eq_3)
  moreover have start: "?run 0 = ?i" by simp
  ultimately have "\<exists>j \<ge> 3. sv_main (?run j) = MDone \<and> (\<forall>b. sv_bg (?run j) b = BDone)"
    using server_ends [OF c start] by blast
  with c start show ?thesis by blast
qed

text \<open>C40: the socket is closed before the background threads are joined, so that a thread may still be
  about to write to the closed descriptor.\<close>

theorem server_writes_after_close:
  "\<exists>s bs. server_reach s \<and> ch_closed s \<and> sv_bg s PingT = BCall (Write bs) \<and> bs \<noteq> []"
proof -
  have "binary_bytes first_ping \<noteq> []" using first_ping_frame(1) by auto
  then show ?thesis using hang_up(2) [OF pinging_reach [of "[]"]] by (fastforce simp: pinging_def)
qed

text \<open>C39: \<open>wsRecvFrame\<close> answers control frames without the mutex. In some run a session writes one whole message, no write
  fails, and the pong to the peer's ping falls between two writes of the message's frame, with bytes on both sides of it; the client's
  \<open>wsRecvFrame\<close> rejects the bytes that arrive.\<close>

theorem server_pong_interleaves:
  "\<exists>s d k. server_reach s \<and> server_ok d \<and> 0 < k \<and> k < length (binary_bytes d)
    \<and> sent_by Message_Frame (ch_sends s) = binary_bytes d \<and> (\<forall>w. \<not> send_failed w (ch_sends s))
    \<and> ch_out s = take k (binary_bytes d) @ control_bytes 0x0A [] False [] @ drop k (binary_bytes d)
    \<and> (case wsRecvFrame seg_os False \<lparr>seg_in = [ch_out s], seg_out = [], seg_accept = [], seg_random = []\<rparr> of
         Some (fr, c) \<Rightarrow> \<not> isValid fr | None \<Rightarrow> False)"
proof -
  let ?s = "pinging [] torn (Release True)" and ?f = "binary_bytes first_ping"
  obtain b f where f: "?f = 0x82 # b # f" using first_ping_frame by (metis list.exhaust)
  have log: "ch_sends ?s = torn" by (simp add: pinging_def)
  have "sent_by Message_Frame torn = ?f" "\<forall>w. \<not> send_failed w torn"
    "all_sent torn = take 1 ?f @ control_bytes 0x0A [] False [] @ drop 1 ?f" "1 < length ?f"
    by (simp_all add: torn_def f sent_by_def send_failed_def all_sent_def control_bytes_def)
  then show ?thesis
    using torn_reach torn_refused first_ping_ok by (intro exI [of _ ?s] exI [of _ first_ping] exI [of _ 1]) (simp add: log)
qed

end
