(* ===== verification/Ws_Client.thy ===== *)
theory Ws_Client
  imports Client_Messages Send_Frame Ws_Receive
begin

text \<open>
  \<open>tryConnect\<close> of \<open>client/ws_client.cpp\<close> once the connection is open: HELLO, the thread that sends random
  numbers, the receive loop and the cleanup, as a transition system in the style of the server's
  sessions. Frames to the server are masked with any key.
\<close>

section \<open>The code\<close>

datatype cthread = MainC | RandomC

text \<open>The random thread: not started, the loop condition, the sleep, the test after it, a call of \<open>sendFrame\<close>, \<open>randomId++\<close>,
  \<open>active = false\<close>, its end.\<close>

datatype rpc = RIdle | RWhile | RSleep | RCheck | RCall call | RNext | RFail | RDone

text \<open>
  The main thread: HELLO, the start of the thread, the loop condition; in \<open>wsRecvFrame\<close>, the fragments that it has assembled
  when it reads the next frame, and the rest of a reply to a ping or close frame with the fragments to go on with (\<open>None\<close> after a
  close frame); a binary message to handle, the answer, \<open>active = false\<close>, and the cleanup: \<open>active = false\<close>, the
  join, DISCONNECT, the close frame, the closing of the socket.
\<close>

datatype cpc = CHello call | CSpawn | CWhile | CRecv fragments | CReply bytes "fragments option" | CHandle bytes | CCall call
  | CAfter bool | CCleanup | CJoin | CBye call | CLast | CControl bytes | CClose | CDone

text \<open>\<open>cl_input\<close>: the frames that the server will have sent until the connection ends.\<close>

record client = "cthread chan" +
  cl_input :: "raw_frame list"
  cl_randomId :: i64
  cl_main :: cpc
  cl_random :: rpc

definition client_frames :: "bytes \<Rightarrow> bytes set" where
  "client_frames data = {masked_bytes key data |key. length key = 4}"

definition client_init :: "bytes \<Rightarrow> raw_frame list \<Rightarrow> client" where
  "client_init hello peer = \<lparr>ch_active = True, ch_lock = None, ch_sends = [], ch_closed = False, cl_input = peer,
     cl_randomId = 1, cl_main = CHello (Acquire hello), cl_random = RIdle\<rparr>"

inductive random_step :: "client \<Rightarrow> client \<Rightarrow> bool" where
  r_while: "cl_random s = RWhile \<Longrightarrow> random_step s (s\<lparr>cl_random := (if ch_active s then RSleep else RDone)\<rparr>)"
| r_sleep: "cl_random s = RSleep \<Longrightarrow> random_step s (s\<lparr>cl_random := RCheck\<rparr>)"
| r_break: "cl_random s = RCheck \<Longrightarrow> \<not> ch_active s \<Longrightarrow> random_step s (s\<lparr>cl_random := RDone\<rparr>)"
| r_send: "cl_random s = RCheck \<Longrightarrow> ch_active s \<Longrightarrow> encode (random_message (cl_randomId s) num) = Inr d \<Longrightarrow>
    random_step s (s\<lparr>cl_random := RCall (Acquire d)\<rparr>)"
| r_call: "cl_random s = RCall c \<Longrightarrow> call_step client_frames RandomC s c s1 (Inl c') \<Longrightarrow> random_step s (s1\<lparr>cl_random := RCall c'\<rparr>)"
| r_return: "cl_random s = RCall c \<Longrightarrow> call_step client_frames RandomC s c s1 (Inr r) \<Longrightarrow>
    random_step s (s1\<lparr>cl_random := (if r then RNext else RFail)\<rparr>)"
| r_next: "cl_random s = RNext \<Longrightarrow> random_step s (s\<lparr>cl_randomId := cl_randomId s + 1, cl_random := RWhile\<rparr>)"
| r_fail: "cl_random s = RFail \<Longrightarrow> random_step s (s\<lparr>ch_active := False, cl_random := RDone\<rparr>)"

text \<open>Where a call of \<open>sendFrame\<close> by the main thread stands, what comes after it, and the same place with the call further on.\<close>

fun main_call_of :: "cpc \<Rightarrow> (call \<times> (call \<Rightarrow> cpc) \<times> cpc) option" where
  "main_call_of (CHello c) = Some (c, CHello, CSpawn)"
| "main_call_of (CCall c) = Some (c, CCall, CWhile)"
| "main_call_of (CBye c) = Some (c, CBye, CLast)"
| "main_call_of _ = None"

text \<open>
  The steps of the main thread. \<open>wsRecvFrame\<close> takes one frame after the other, as \<open>accept_frame\<close> says (the specification that it is proved to refine); it
  writes its replies to control frames without the mutex, masked with any key. A frame that is not well-formed, the end of the connection and
  every failure of \<open>recv\<close> are \<open>c_end\<close>.
\<close>

inductive cmain_step :: "client \<Rightarrow> client \<Rightarrow> bool" where
  c_call: "main_call_of (cl_main s) = Some (c, at, after) \<Longrightarrow> call_step client_frames MainC s c s1 (Inl c') \<Longrightarrow>
    cmain_step s (s1\<lparr>cl_main := at c'\<rparr>)"
| c_return: "main_call_of (cl_main s) = Some (c, at, after) \<Longrightarrow> call_step client_frames MainC s c s1 (Inr r) \<Longrightarrow>
    cmain_step s (s1\<lparr>cl_main := after\<rparr>)"
| c_spawn: "cl_main s = CSpawn \<Longrightarrow> cmain_step s (s\<lparr>cl_random := RWhile, cl_main := CWhile\<rparr>)"
| c_while: "cl_main s = CWhile \<Longrightarrow> cmain_step s (s\<lparr>cl_main := (if ch_active s then CRecv None else CCleanup)\<rparr>)"
| c_message: "cl_main s = CRecv acc \<Longrightarrow> cl_input s = f # fs \<Longrightarrow> accept_frame acc f = Inl (Deliver p) \<Longrightarrow>
    cmain_step s (s\<lparr>cl_input := fs, cl_main := CHandle p\<rparr>)"
| c_reject: "cl_main s = CRecv acc \<Longrightarrow> cl_input s = f # fs \<Longrightarrow> accept_frame acc f = Inl Reject \<Longrightarrow>
    cmain_step s (s\<lparr>cl_input := fs, cl_main := CCleanup\<rparr>)"
| c_closed: "cl_main s = CRecv acc \<Longrightarrow> cl_input s = f # fs \<Longrightarrow> accept_frame acc f = Inl (Closed p) \<Longrightarrow> length key = 4 \<Longrightarrow>
    cmain_step s (s\<lparr>cl_input := fs, cl_main := CReply (control_bytes 0x08 p True key) None\<rparr>)"
| c_ping: "cl_main s = CRecv acc \<Longrightarrow> cl_input s = f # fs \<Longrightarrow> accept_frame acc f = Inr acc' \<Longrightarrow> raw_op f = 0x09 \<Longrightarrow> length key = 4 \<Longrightarrow>
    cmain_step s (s\<lparr>cl_input := fs, cl_main := CReply (control_bytes 0x0A (raw_data f) True key) (Some acc')\<rparr>)"
| c_more: "cl_main s = CRecv acc \<Longrightarrow> cl_input s = f # fs \<Longrightarrow> accept_frame acc f = Inr acc' \<Longrightarrow> raw_op f \<noteq> 0x09 \<Longrightarrow>
    cmain_step s (s\<lparr>cl_input := fs, cl_main := CRecv acc'\<rparr>)"
| c_end: "cl_main s = CRecv acc \<Longrightarrow> cmain_step s (s\<lparr>cl_main := CCleanup\<rparr>)"
| c_reply: "cl_main s = CReply bs nxt \<Longrightarrow> 0 < k \<Longrightarrow> k \<le> length bs \<Longrightarrow>
    cmain_step s (s\<lparr>ch_sends := ch_sends s @ [(Control_Reply, Some (take k bs))],
      cl_main := (if k < length bs then CReply (drop k bs) nxt else case nxt of None \<Rightarrow> CCleanup | Some acc \<Rightarrow> CRecv acc)\<rparr>)"
| c_reply_fail: "cl_main s = CReply bs nxt \<Longrightarrow>
    cmain_step s (s\<lparr>ch_sends := ch_sends s @ [(Control_Reply, None)], cl_main := CCleanup\<rparr>)"
| c_quiet: "cl_main s = CHandle p \<Longrightarrow> client_payload p = (None, stop) \<Longrightarrow> cmain_step s (s\<lparr>cl_main := CAfter stop\<rparr>)"
| c_answer: "cl_main s = CHandle p \<Longrightarrow> client_payload p = (Some m, stop) \<Longrightarrow> encode m = Inr d \<Longrightarrow>
    cmain_step s (s\<lparr>cl_main := CCall (Acquire d)\<rparr>)"
| c_throw: "cl_main s = CHandle p \<Longrightarrow> client_payload p = (Some m, stop) \<Longrightarrow> encode m = Inl e \<Longrightarrow>
    cmain_step s (s\<lparr>cl_main := CCleanup\<rparr>)"
| c_after: "cl_main s = CAfter stop \<Longrightarrow> cmain_step s (s\<lparr>ch_active := (ch_active s \<and> \<not> stop), cl_main := CWhile\<rparr>)"
| c_cleanup: "cl_main s = CCleanup \<Longrightarrow> cmain_step s (s\<lparr>ch_active := False, cl_main := CJoin\<rparr>)"
| c_join: "cl_main s = CJoin \<Longrightarrow> cl_random s = RDone \<Longrightarrow> encode bye_message = Inr d \<Longrightarrow>
    cmain_step s (s\<lparr>cl_main := CBye (Acquire d)\<rparr>)"
| c_last: "cl_main s = CLast \<Longrightarrow> length key = 4 \<Longrightarrow> cmain_step s (s\<lparr>cl_main := CControl (control_bytes 0x08 [] True key)\<rparr>)"
| c_last_write: "cl_main s = CControl bs \<Longrightarrow> 0 < k \<Longrightarrow> k \<le> length bs \<Longrightarrow>
    cmain_step s (s\<lparr>ch_sends := ch_sends s @ [(Closing_Frame, Some (take k bs))],
      cl_main := (if k < length bs then CControl (drop k bs) else CClose)\<rparr>)"
| c_last_fail: "cl_main s = CControl bs \<Longrightarrow> cmain_step s (s\<lparr>ch_sends := ch_sends s @ [(Closing_Frame, None)], cl_main := CClose\<rparr>)"
| c_close: "cl_main s = CClose \<Longrightarrow> cmain_step s (s\<lparr>ch_closed := True, cl_main := CDone\<rparr>)"

inductive client_step :: "client \<Rightarrow> client \<Rightarrow> bool" where
  step_random: "random_step s s' \<Longrightarrow> client_step s s'"
| step_cmain: "cmain_step s s' \<Longrightarrow> client_step s s'"

inductive client_reach :: "client \<Rightarrow> bool" where
  creach_start: "encode hello_message = Inr d \<Longrightarrow> client_reach (client_init d peer)"
| creach_step: "client_reach s \<Longrightarrow> client_step s s' \<Longrightarrow> client_reach s'"

section \<open>The calls in progress\<close>

fun client_calls :: "client \<Rightarrow> cthread \<Rightarrow> call option" where
  "client_calls s MainC = map_option fst (main_call_of (cl_main s))"
| "client_calls s RandomC = (case cl_random s of RCall c \<Rightarrow> Some c | _ \<Rightarrow> None)"

lemma client_calls_eq:
  "client_calls s = (\<lambda>_. None)(MainC := map_option fst (main_call_of (cl_main s)),
     RandomC := (case cl_random s of RCall c \<Rightarrow> Some c | _ \<Rightarrow> None))"
proof
  fix t show "client_calls s t = ((\<lambda>_. None)(MainC := map_option fst (main_call_of (cl_main s)),
     RandomC := (case cl_random s of RCall c \<Rightarrow> Some c | _ \<Rightarrow> None))) t" by (cases t) simp_all
qed

lemma call_step_client:
  "call_step frames t (s :: client) c s' r \<Longrightarrow> cl_main s' = cl_main s \<and> cl_random s' = cl_random s \<and> cl_input s' = cl_input s"
  by (erule call_stepE) simp_all

lemma main_call_of_at: "main_call_of pc = Some (c, at, after) \<Longrightarrow> main_call_of (at c') = Some (c', at, after) \<and> main_call_of after = None"
  by (cases pc) auto

section \<open>The messages of the client\<close>

fun from_client :: "Body \<Rightarrow> bool" where
  "from_client (Hello _) = True"
| "from_client (KissResponse _ _ _) = True"
| "from_client (Pong _) = True"
| "from_client (RandomNumber _ _) = True"
| "from_client _ = False"

definition client_ok :: "bytes \<Rightarrow> bool" where
  "client_ok d \<longleftrightarrow> (\<exists>b. from_client b \<and> decodeMessage d (length d) = Inr (message_of b))"

lemma sendable_client_ok: "sendable b \<Longrightarrow> from_client b \<Longrightarrow> encode (message_of b) = Inr d \<Longrightarrow> client_ok d"
  unfolding sendable_def client_ok_def by auto

lemma own_ok: "encode hello_message = Inr d \<Longrightarrow> client_ok d" "encode (random_message i n) = Inr d \<Longrightarrow> client_ok d"
  using sendable_client_ok [OF own_sendable(1)] sendable_client_ok [OF own_sendable(2)] by (simp_all add: own_messages)

lemma answer_from_client: "client_respond b = Some b' \<Longrightarrow> from_client b'"
  by (cases b) auto

lemma answer_ok:
  assumes "client_payload p = (Some m, stop)"
  shows "\<not> stop \<and> (\<exists>d. encode m = Inr d \<and> client_ok d)"
proof (cases "decodeMessage p (length p)")
  case (Inr x)
  then obtain b where b: "decodeMessage p (length p) = Inr (message_of b)" using decodeMessage_body by blast
  then obtain b' where b': "client_respond b = Some b'" "m = message_of b'" "stop = is_disconnect b"
    using client_decoded [OF b] assms by (cases "client_respond b") auto
  then obtain d where "encode m = Inr d" using client_respond_sendable [OF b'(1)] unfolding sendable_def by auto
  moreover have "\<not> stop" using b'(1,3) by (cases b) auto
  ultimately show ?thesis
    using sendable_client_ok [OF client_respond_sendable [OF b'(1)] answer_from_client [OF b'(1)]] b'(2) by blast
qed (use assms in \<open>simp add: client_payload_def\<close>)

section \<open>Control flow\<close>

fun after_cleanup :: "cpc \<Rightarrow> bool" where
  "after_cleanup CJoin = True"
| "after_cleanup (CBye _) = True"
| "after_cleanup CLast = True"
| "after_cleanup (CControl _) = True"
| "after_cleanup CClose = True"
| "after_cleanup CDone = True"
| "after_cleanup _ = False"

fun before_spawn :: "cpc \<Rightarrow> bool" where
  "before_spawn (CHello _) = True"
| "before_spawn CSpawn = True"
| "before_spawn _ = False"

fun leaving :: "cpc \<Rightarrow> bool" where
  "leaving (CControl _) = True"
| "leaving CClose = True"
| "leaving CDone = True"
| "leaving _ = False"

lemma leaving_late: "leaving pc \<Longrightarrow> after_cleanup pc \<and> pc \<noteq> CJoin \<and> main_call_of pc = None"
  by (cases pc) auto

text \<open>
  After the cleanup \<open>active\<close> stays clear, after the join the random thread has ended, and the call that
  should send DISCONNECT fails its test of \<open>active\<close>.
\<close>

definition flow :: "client \<Rightarrow> bool" where
  "flow s \<longleftrightarrow> (after_cleanup (cl_main s) \<longrightarrow> \<not> ch_active s)
     \<and> (after_cleanup (cl_main s) \<longrightarrow> cl_main s \<noteq> CJoin \<longrightarrow> cl_random s = RDone)
     \<and> (cl_random s = RIdle \<longleftrightarrow> before_spawn (cl_main s))
     \<and> (cl_main s = CDone \<longleftrightarrow> ch_closed s)
     \<and> (\<forall>c. cl_main s = CBye c \<longrightarrow> (\<forall>bs. c \<noteq> Write bs) \<and> c \<noteq> Release True)"

lemma bye_step:
  assumes "call_step frames t s c s1 (Inl c')" and "\<not> ch_active s" and "\<forall>bs. c \<noteq> Write bs" "c \<noteq> Release True"
  shows "(\<forall>bs. c' \<noteq> Write bs) \<and> c' \<noteq> Release True"
  using assms(1) by cases (use assms(2-4) in auto)

lemma flow_random: "random_step s s' \<Longrightarrow> flow s \<Longrightarrow> flow s'"
  by (erule random_step.cases) (auto simp: flow_def dest: call_step_client call_step_active)

lemma flow_main:
  assumes "cmain_step s s'" and "flow s"
  shows "flow s'"
  using assms(1)
proof cases
  case (c_call c at after s1 c')
  then show ?thesis
    using assms(2) call_step_client [OF c_call(3)] call_step_active [OF c_call(3)] bye_step [OF c_call(3)]
    by (cases "cl_main s") (auto simp: flow_def)
next
  case (c_return c at after s1 r)
  then show ?thesis
    using assms(2) call_step_client [OF c_return(3)] call_step_active [OF c_return(3)]
    by (cases "cl_main s") (auto simp: flow_def)
qed (use assms(2) in \<open>auto simp: flow_def split: if_splits option.splits\<close>)

lemma client_flow: "client_reach s \<Longrightarrow> flow s"
proof (induction rule: client_reach.induct)
  case (creach_start d peer)
  then show ?case by (simp add: flow_def client_init_def)
next
  case (creach_step s s')
  then show ?case using flow_random flow_main by (blast elim: client_step.cases)
qed

end
