(* ===== verification/Client_Runs.thy ===== *)
theory Client_Runs
  imports Ws_Client Thread_Runs
begin

text \<open>
  The runs of a client session, with every interleaving of the main thread and the random thread and every server. The messages are masked frames
  that decode to messages of the client, whole frames unless a write fails, and after them comes the close
  frame; the DISCONNECT message is never sent. Every run that clears \<open>active\<close> ends, unless the server sends frames for ever.
\<close>

section \<open>The messages\<close>

text \<open>The client closes its socket when no call of \<open>sendFrame\<close> can follow, so the invariant holds as if it stayed open.\<close>

definition client_inv :: "client \<Rightarrow> bool" where
  "client_inv s \<longleftrightarrow> chan_inv client_frames client_ok (s\<lparr>ch_closed := False\<rparr>) (client_calls s)"

lemma client_frames_proper: "\<forall>d. [] \<notin> client_frames d"
  by (auto simp: client_frames_def masked_bytes_def Let_def split: if_splits)

lemma client_inv_init: "encode hello_message = Inr d \<Longrightarrow> client_inv (client_init d peer)"
  using own_ok(1) [of d]
  by (auto simp: client_inv_def chan_inv_def exclusive_def sendable_calls_def pending_def client_init_def client_calls_eq
      intro!: streamI [of _ "[]" "[]"])

text \<open>Steps that leave the calls and the messages alone.\<close>

lemma client_quiet:
  assumes "client_inv s" and "client_calls s' = client_calls s" and "ch_lock s' = ch_lock s" "ch_active s' \<Longrightarrow> ch_active s"
    and "same_messages (ch_sends s) (ch_sends s')"
  shows "client_inv s'"
  unfolding client_inv_def assms(2)
  by (rule chan_inv_cong [of _ _ "s\<lparr>ch_closed := False\<rparr>"]) (use assms(1,3-5) in \<open>simp_all add: client_inv_def\<close>)

lemma client_begin:
  assumes "client_inv s" and "client_calls s t = None" "ch_active s \<Longrightarrow> client_ok d"
    and "client_calls s' = (client_calls s)(t := Some (Acquire d))" "ch_lock s' = ch_lock s" "ch_active s' = ch_active s" "ch_sends s' = ch_sends s"
  shows "client_inv s'"
proof -
  have "chan_inv client_frames client_ok (s\<lparr>ch_closed := False\<rparr>) (client_calls s')"
    unfolding assms(4) by (rule chan_inv_begin) (use assms(1-3) in \<open>simp_all add: client_inv_def\<close>)
  then show ?thesis unfolding client_inv_def by (rule chan_inv_cong) (simp_all add: assms(5-7))
qed

lemma client_call_inv:
  assumes "client_inv s" and "\<not> ch_closed s" and "client_calls s t = Some c" "call_step client_frames t s c s1 r"
    and "client_calls s' = (client_calls s)(t := (case r of Inl c' \<Rightarrow> Some c' | Inr _ \<Rightarrow> None))" "ch_lock s' = ch_lock s1" "ch_active s' = ch_active s1"
    "ch_sends s' = ch_sends s1"
  shows "client_inv s'"
proof -
  have "s\<lparr>ch_closed := False\<rparr> = s" using assms(2) by simp
  then have "chan_inv client_frames client_ok s (client_calls s)" using assms(1) by (simp add: client_inv_def)
  from chan_inv_call [OF this assms(3,4) client_frames_proper]
  have "chan_inv client_frames client_ok s1 (client_calls s')" unfolding assms(5) .
  then show ?thesis unfolding client_inv_def
    by (rule chan_inv_cong) (use call_step_active [OF assms(4)] assms(2) in \<open>simp_all add: assms(6-8)\<close>)
qed

lemma random_step_inv:
  assumes "random_step s s'" and inv: "client_inv s" and "flow s"
  shows "client_inv s'"
proof -
  have open_sock: "\<not> ch_closed s" if "cl_random s \<noteq> RDone" using assms(3) that by (auto simp: flow_def)
  show ?thesis using assms(1)
  proof cases
    case (r_send num d)
    show ?thesis unfolding r_send(1)
      by (rule client_begin [OF inv, of RandomC d])
        (use r_send own_ok(2) in \<open>simp_all add: client_calls_eq fun_upd_twist\<close>)
  next
    case (r_call c s1 c')
    show ?thesis unfolding r_call(1)
      by (rule client_call_inv [OF inv _ _ r_call(3)])
        (use r_call(2) open_sock call_step_client [OF r_call(3)] in \<open>simp_all add: client_calls_eq\<close>)
  next
    case (r_return c s1 r)
    show ?thesis unfolding r_return(1)
      by (rule client_call_inv [OF inv _ _ r_return(3)])
        (use r_return(2) open_sock call_step_client [OF r_return(3)] in \<open>simp_all add: client_calls_eq\<close>)
  qed (auto intro!: client_quiet [OF inv] simp: client_calls_eq)
qed

lemma cmain_step_inv:
  assumes "cmain_step s s'" and inv: "client_inv s" and "flow s"
  shows "client_inv s'"
proof -
  have open_sock: "\<not> ch_closed s" if "cl_main s \<noteq> CDone" using assms(3) that by (simp add: flow_def)
  show ?thesis using assms(1)
  proof cases
    case (c_call c at after s1 c')
    have "\<not> ch_closed s" using open_sock c_call(2) by (cases "cl_main s") simp_all
    then show ?thesis unfolding c_call(1)
      by (intro client_call_inv [OF inv _ _ c_call(3)])
        (use c_call(2) call_step_client [OF c_call(3)] main_call_of_at [OF c_call(2)] in \<open>auto simp: client_calls_eq fun_upd_twist\<close>)
  next
    case (c_return c at after s1 r)
    have "\<not> ch_closed s" using open_sock c_return(2) by (cases "cl_main s") simp_all
    then show ?thesis unfolding c_return(1)
      by (intro client_call_inv [OF inv _ _ c_return(3)])
        (use c_return(2) call_step_client [OF c_return(3)] main_call_of_at [OF c_return(2)] in \<open>auto simp: client_calls_eq fun_upd_twist\<close>)
  next
    case (c_answer p m stop d)
    then have "client_ok d" using answer_ok by fastforce
    then show ?thesis unfolding c_answer(1)
      by (intro client_begin [OF inv, of MainC d]) (simp_all add: c_answer(2) client_calls_eq fun_upd_twist)
  next
    case (c_join d)
    then have "\<not> ch_active s" using assms(3) by (simp add: flow_def)
    then show ?thesis unfolding c_join(1)
      by (intro client_begin [OF inv, of MainC d]) (simp_all add: c_join(2) client_calls_eq fun_upd_twist)
  next
    case c_spawn
    then show ?thesis using assms(3) by (intro client_quiet [OF inv]) (auto simp: client_calls_eq flow_def)
  next
    case (c_reply bs nxt k)
    then show ?thesis by (intro client_quiet [OF inv]) (auto simp: client_calls_eq split: option.split)
  qed (auto intro!: client_quiet [OF inv] simp: client_calls_eq)
qed

lemma creach_inv: "client_reach s \<Longrightarrow> client_inv s"
proof (induction rule: client_reach.induct)
  case (creach_step s s')
  note ih = creach_step(3) client_flow [OF creach_step(1)]
  show ?case using creach_step(2) by cases (use ih random_step_inv cmain_step_inv in blast)+
qed (rule client_inv_init)

section \<open>The replies and the close frame\<close>

definition is_masked_reply :: "bytes \<Rightarrow> bool" where
  "is_masked_reply f \<longleftrightarrow> (\<exists>opc p key. (opc = 0x08 \<or> opc = 0x0A) \<and> length p \<le> 125 \<and> length key = 4 \<and> f = control_bytes opc p True key)"

definition is_close :: "bytes \<Rightarrow> bool" where
  "is_close f \<longleftrightarrow> (\<exists>key. length key = 4 \<and> f = control_bytes 0x08 [] True key)"

fun masked_reply_left :: "cpc \<Rightarrow> bytes option" where
  "masked_reply_left (CReply bs _) = Some bs"
| "masked_reply_left _ = None"

fun left_loop :: "cpc \<Rightarrow> bool" where
  "left_loop pc \<longleftrightarrow> pc = CCleanup \<or> after_cleanup pc"

text \<open>What has been written of the close frame.\<close>

fun close_part :: "cpc \<Rightarrow> bytes \<Rightarrow> bool" where
  "close_part (CControl bs) q \<longleftrightarrow> bs \<noteq> [] \<and> is_close (q @ bs)"
| "close_part CClose q \<longleftrightarrow> (\<exists>f. is_close f \<and> prefix q f)"
| "close_part CDone q \<longleftrightarrow> (\<exists>f. is_close f \<and> prefix q f)"
| "close_part _ q \<longleftrightarrow> q = []"

definition side_inv :: "client \<Rightarrow> bool" where
  "side_inv s \<longleftrightarrow> reply_stream is_masked_reply (ch_sends s) (masked_reply_left (cl_main s)) (left_loop (cl_main s))
     \<and> close_part (cl_main s) (sent_by Closing_Frame (ch_sends s))
     \<and> (\<not> replied (ch_sends s) \<longrightarrow> ch_out s = sent_by Message_Frame (ch_sends s) @ sent_by Closing_Frame (ch_sends s))"

lemma proper_controls: "is_masked_reply f \<Longrightarrow> f \<noteq> []" "is_close f \<Longrightarrow> f \<noteq> []"
  by (auto simp: is_masked_reply_def is_close_def control_bytes_def Let_def)

lemma close_part_early: "\<not> leaving pc \<Longrightarrow> close_part pc q \<longleftrightarrow> q = []"
  by (cases pc) auto

lemma close_part_late: "close_part pc q \<Longrightarrow> q = [] \<or> leaving pc \<and> (\<exists>f. is_close f \<and> prefix q f)"
  by (cases "(pc, q)" rule: close_part.cases) auto

lemma side_move:
  assumes "side_inv s"
    and "cl_main s' = cl_main s \<or> masked_reply_left (cl_main s) = None \<and> masked_reply_left (cl_main s') = None
      \<and> (left_loop (cl_main s) \<longrightarrow> left_loop (cl_main s')) \<and> \<not> leaving (cl_main s) \<and> \<not> leaving (cl_main s')"
    and "ch_sends s' = ch_sends s \<or> \<not> leaving (cl_main s) \<and> (\<exists>x. ch_sends s' = ch_sends s @ [(Message_Frame, x)])"
  shows "side_inv s'"
proof -
  have parts: "reply_stream is_masked_reply (ch_sends s) (masked_reply_left (cl_main s')) (left_loop (cl_main s'))
      \<and> close_part (cl_main s') (sent_by Closing_Frame (ch_sends s))"
    using assms(1,2) reply_stream_over [of is_masked_reply "ch_sends s" "left_loop (cl_main s)"]
    by (auto simp: side_inv_def close_part_early)
  have "sent_by Closing_Frame (ch_sends s) = []" if "\<not> leaving (cl_main s)"
    using assms(1) that by (simp add: side_inv_def close_part_early)
  then show ?thesis using assms(1,3) parts by (auto simp: side_inv_def)
qed

lemma side_random:
  assumes "random_step s s'" and "side_inv s" and "flow s"
  shows "side_inv s'"
proof (rule side_move [OF assms(2)])
  have "cl_random s \<noteq> RDone" using assms(1) by (auto elim: random_step.cases)
  then have "\<not> leaving (cl_main s)" using assms(3) leaving_late by (auto simp: flow_def)
  moreover have "cl_main s' = cl_main s" "ch_sends s' = ch_sends s \<or> (\<exists>x. ch_sends s' = ch_sends s @ [(Message_Frame, x)])"
    using assms(1) by (auto elim!: random_step.cases dest: call_step_client call_step_sends)
  ultimately show "ch_sends s' = ch_sends s \<or> \<not> leaving (cl_main s) \<and> (\<exists>x. ch_sends s' = ch_sends s @ [(Message_Frame, x)])"
    "cl_main s' = cl_main s \<or> masked_reply_left (cl_main s) = None \<and> masked_reply_left (cl_main s') = None
      \<and> (left_loop (cl_main s) \<longrightarrow> left_loop (cl_main s')) \<and> \<not> leaving (cl_main s) \<and> \<not> leaving (cl_main s')" by blast+
qed

lemma side_reply:
  assumes "side_inv s" and "cl_main s = CReply bs nxt"
  shows "k \<le> length bs \<Longrightarrow> side_inv (s\<lparr>ch_sends := ch_sends s @ [(Control_Reply, Some (take k bs))],
      cl_main := (if k < length bs then CReply (drop k bs) nxt else case nxt of None \<Rightarrow> CCleanup | Some acc \<Rightarrow> CRecv acc)\<rparr>)" (is "_ \<Longrightarrow> side_inv ?s1")
    and "side_inv (s\<lparr>ch_sends := ch_sends s @ [(Control_Reply, None)], cl_main := CCleanup\<rparr>)"
proof -
  have r: "reply_stream is_masked_reply (ch_sends s) (Some bs) False" using assms by (simp add: side_inv_def)
  show "side_inv ?s1" if k: "k \<le> length bs"
    using reply_stream_write [OF r k, of "left_loop (cl_main ?s1)"] assms by (auto simp: side_inv_def split: option.split)
  show "side_inv (s\<lparr>ch_sends := ch_sends s @ [(Control_Reply, None)], cl_main := CCleanup\<rparr>)"
    using reply_stream_fail [OF r] assms by (simp add: side_inv_def)
qed

lemma side_close:
  assumes "side_inv s" and "cl_main s = CControl bs"
  shows "k \<le> length bs \<Longrightarrow> side_inv (s\<lparr>ch_sends := ch_sends s @ [(Closing_Frame, Some (take k bs))],
      cl_main := (if k < length bs then CControl (drop k bs) else CClose)\<rparr>)"
    and "side_inv (s\<lparr>ch_sends := ch_sends s @ [(Closing_Frame, None)], cl_main := CClose\<rparr>)"
proof -
  have q: "is_close (sent_by Closing_Frame (ch_sends s) @ bs)" using assms by (simp add: side_inv_def)
  then have p: "\<exists>f. is_close f \<and> prefix (sent_by Closing_Frame (ch_sends s)) f" by (intro exI [of _ "sent_by Closing_Frame (ch_sends s) @ bs"]) simp
  show "side_inv (s\<lparr>ch_sends := ch_sends s @ [(Closing_Frame, Some (take k bs))],
      cl_main := (if k < length bs then CControl (drop k bs) else CClose)\<rparr>)" if "k \<le> length bs"
    using assms q that by (cases "k < length bs") (auto simp: side_inv_def)
  show "side_inv (s\<lparr>ch_sends := ch_sends s @ [(Closing_Frame, None)], cl_main := CClose\<rparr>)"
    using assms p by (simp add: side_inv_def)
qed

lemma side_main:
  assumes "cmain_step s s'" and inv: "side_inv s"
  shows "side_inv s'"
  using assms(1)
proof cases
  case (c_call c at after s1 c')
  then show ?thesis using call_step_sends [OF c_call(3)] by (intro side_move [OF inv]; cases "cl_main s") auto
next
  case (c_return c at after s1 r)
  then show ?thesis using call_step_sends [OF c_return(3)] by (intro side_move [OF inv]; cases "cl_main s") auto
next
  case (c_closed acc f fs p key)
  then have "is_masked_reply (control_bytes 0x08 p True key)" using control_size(1) [OF c_closed(4)] by (auto simp: is_masked_reply_def)
  then show ?thesis using inv c_closed by (simp add: side_inv_def reply_stream_begin proper_controls)
next
  case (c_ping acc f fs acc' key)
  then have "is_masked_reply (control_bytes 0x0A (raw_data f) True key)"
    using control_size(2) [OF c_ping(4,5)] by (auto simp: is_masked_reply_def)
  then show ?thesis using inv c_ping by (simp add: side_inv_def reply_stream_begin proper_controls)
next
  case (c_reply bs nxt k)
  then show ?thesis using side_reply(1) [OF inv] by simp
next
  case (c_reply_fail bs nxt)
  then show ?thesis using side_reply(2) [OF inv] by simp
next
  case (c_last key)
  then have "is_close (control_bytes 0x08 [] True key)" by (auto simp: is_close_def)
  then show ?thesis using inv c_last by (simp add: side_inv_def proper_controls)
next
  case (c_last_write bs k)
  then show ?thesis using side_close(1) [OF inv] by simp
next
  case (c_last_fail bs)
  then show ?thesis using side_close(2) [OF inv] by simp
next
  case c_close
  then show ?thesis using inv by (simp add: side_inv_def)
qed (auto intro!: side_move [OF inv])

lemma creach_side: "client_reach s \<Longrightarrow> side_inv s"
proof (induction rule: client_reach.induct)
  case (creach_start d peer)
  show ?case by (simp add: side_inv_def client_init_def)
next
  case (creach_step s s')
  note ih = creach_step(3) client_flow [OF creach_step(1)]
  show ?case using creach_step(2) by cases (use ih side_random side_main in blast)+
qed

section \<open>What a session sends\<close>

lemma client_frame_simps:
  "piece client_frames client_ok = (\<lambda>q. \<exists>d key. client_ok d \<and> length key = 4 \<and> prefix q (masked_bytes key d))"
  "entire client_frames client_ok = (\<lambda>q. \<exists>d key. client_ok d \<and> length key = 4 \<and> q = masked_bytes key d)"
  "begun client_frames client_ok p \<longleftrightarrow> p = [] \<or> (\<exists>d key. client_ok d \<and> length key = 4 \<and> strict_prefix p (masked_bytes key d))"
  by (auto simp: piece_def entire_def begun_def client_frames_def fun_eq_iff)

lemma client_messages:
  assumes "client_reach s"
  shows "\<exists>qs p. sent_by Message_Frame (ch_sends s) = concat qs @ p \<and> list_all (piece client_frames client_ok) qs
    \<and> begun client_frames client_ok p \<and> (sent_by Closing_Frame (ch_sends s) = [] \<or> p = [])
    \<and> (\<not> send_failed Message_Frame (ch_sends s) \<longrightarrow> list_all (entire client_frames client_ok) qs)"
proof -
  let ?s = "s\<lparr>ch_closed := False\<rparr>"
  have "stream client_frames client_ok ?s (pending ?s (client_calls s))"
    using creach_inv [OF assms] by (simp add: client_inv_def chan_inv_def)
  then obtain qs p where st: "sent_by Message_Frame (ch_sends s) = concat qs @ p" "list_all (piece client_frames client_ok) qs"
    "\<not> send_failed Message_Frame (ch_sends s) \<longrightarrow> list_all (entire client_frames client_ok) qs"
    "case pending ?s (client_calls s) of None \<Rightarrow> p = [] | Some bs \<Rightarrow> bs \<noteq> [] \<and> entire client_frames client_ok (p @ bs)"
    unfolding stream_def by auto
  have "begun client_frames client_ok p" using begun_pending [of False] st(4) by simp
  moreover have "p = []" if "sent_by Closing_Frame (ch_sends s) \<noteq> []"
  proof -
    have "leaving (cl_main s)" using creach_side [OF assms] that close_part_late by (auto simp: side_inv_def)
    then have "main_call_of (cl_main s) = None" "cl_random s = RDone"
      using leaving_late client_flow [OF assms] by (auto simp: flow_def)
    then have "client_calls s = (\<lambda>_. None)" by (auto simp: client_calls_eq)
    then show ?thesis using st(4) by (simp add: pending_def split: option.splits)
  qed
  ultimately show ?thesis using st(1-3) by blast
qed

lemma client_sides:
  assumes "client_reach s"
  shows "\<exists>cs q. sent_by Control_Reply (ch_sends s) = concat cs @ q \<and> list_all is_masked_reply cs
      \<and> (q = [] \<or> (\<exists>f. is_masked_reply f \<and> strict_prefix q f))"
    and "sent_by Closing_Frame (ch_sends s) = [] \<or> (\<exists>f. is_close f \<and> prefix (sent_by Closing_Frame (ch_sends s)) f)"
    and "\<not> replied (ch_sends s) \<Longrightarrow> ch_out s = sent_by Message_Frame (ch_sends s) @ sent_by Closing_Frame (ch_sends s)"
  using creach_side [OF assms] reply_stream_parts [of is_masked_reply "ch_sends s"] close_part_late
  unfolding side_inv_def by blast+

text \<open>A step makes at most one call of \<open>send\<close>, so that every part of the calls so far was all of them once.\<close>

lemma client_sends: "client_step s s' \<Longrightarrow> ch_sends s' = ch_sends s \<or> (\<exists>e. ch_sends s' = ch_sends s @ [e])"
proof (erule client_step.cases)
  show "random_step sa s'' \<Longrightarrow> s = sa \<Longrightarrow> s' = s'' \<Longrightarrow> ?thesis" for sa s''
    by (erule random_step.cases) (auto dest: call_step_sends)
  show "cmain_step sa s'' \<Longrightarrow> s = sa \<Longrightarrow> s' = s'' \<Longrightarrow> ?thesis" for sa s''
    by (erule cmain_step.cases) (auto dest: call_step_sends)
qed

lemma client_earlier: "client_reach s \<Longrightarrow> prefix log (ch_sends s) \<Longrightarrow> \<exists>s0. client_reach s0 \<and> ch_sends s0 = log"
proof (induction arbitrary: log rule: client_reach.induct)
  case (creach_start d peer)
  then show ?case using client_reach.creach_start [of d peer] by (auto simp: client_init_def)
next
  case (creach_step s s')
  show ?case using client_sends [OF creach_step(2)] creach_step client_reach.creach_step by (metis prefix_snoc)
qed

text \<open>Part of a message's frame, or part of the close frame.\<close>

definition part_of_frame :: "bytes \<Rightarrow> bool" where
  "part_of_frame p \<longleftrightarrow> p = [] \<or> (\<exists>d f. client_ok d \<and> f \<in> client_frames d \<and> strict_prefix p f) \<or> (\<exists>f. is_close f \<and> prefix p f)"

lemma client_undisturbed:
  assumes "client_reach s"
  shows "\<exists>ds fs p. list_all2 (\<lambda>d f. client_ok d \<and> f \<in> client_frames d) ds fs
    \<and> all_sent (undisturbed (ch_sends s)) = concat fs @ p \<and> part_of_frame p"
proof -
  let ?log = "undisturbed (ch_sends s)"
  obtain s0 where s0: "client_reach s0" "ch_sends s0 = ?log" using client_earlier [OF assms undisturbed(3)] by blast
  obtain qs p where q: "sent_by Message_Frame ?log = concat qs @ p" "list_all (entire client_frames client_ok) qs"
    "begun client_frames client_ok p" "sent_by Closing_Frame ?log = [] \<or> p = []"
    using client_messages [OF s0(1)] undisturbed(2) unfolding s0(2) by blast
  have "all_sent ?log = concat qs @ p @ sent_by Closing_Frame ?log"
    using client_sides(3) [OF s0(1)] undisturbed(1) q(1) unfolding s0(2) by simp
  moreover have "part_of_frame (p @ sent_by Closing_Frame ?log)"
    using client_sides(2) [OF s0(1)] q(3,4) unfolding s0(2) by (auto simp: part_of_frame_def begun_def entire_def)
  moreover obtain ds where "list_all2 (\<lambda>d f. client_ok d \<and> f \<in> client_frames d) ds qs"
    using entire_data [OF q(2)] by blast
  ultimately show ?thesis by blast
qed

section \<open>The end of a session\<close>

fun cmain_phase :: "cpc \<Rightarrow> nat" where
  "cmain_phase (CHello _) = 14"
| "cmain_phase CSpawn = 13"
| "cmain_phase (CReply _ _) = 12"
| "cmain_phase (CRecv _) = 11"
| "cmain_phase (CHandle _) = 10"
| "cmain_phase (CCall _) = 9"
| "cmain_phase (CAfter _) = 8"
| "cmain_phase CWhile = 7"
| "cmain_phase CCleanup = 6"
| "cmain_phase CJoin = 5"
| "cmain_phase (CBye _) = 4"
| "cmain_phase CLast = 3"
| "cmain_phase (CControl _) = 2"
| "cmain_phase CClose = 1"
| "cmain_phase CDone = 0"

fun cmain_left :: "cpc \<Rightarrow> nat" where
  "cmain_left (CReply bs _) = length bs"
| "cmain_left (CControl bs) = length bs"
| "cmain_left (CHello c) = call_rank c"
| "cmain_left (CCall c) = call_rank c"
| "cmain_left (CBye c) = call_rank c"
| "cmain_left _ = 0"

fun random_left :: "rpc \<Rightarrow> nat" where
  "random_left RIdle = 0"
| "random_left RDone = 0"
| "random_left RWhile = 1"
| "random_left RCheck = 1"
| "random_left RFail = 1"
| "random_left RSleep = 2"
| "random_left RNext = 2"
| "random_left (RCall c) = call_rank c + 2"

definition client_left :: "client \<Rightarrow> work" where
  "client_left s = (length (cl_input s), cmain_phase (cl_main s), cmain_left (cl_main s), random_left (cl_random s))"

lemma random_left_step:
  assumes "random_step s s'" and "\<not> ch_active s"
  shows "cl_main s' = cl_main s \<and> cl_input s' = cl_input s \<and> random_left (cl_random s') < random_left (cl_random s)"
  using assms(1)
proof cases
  case (r_call c s1 c')
  then show ?thesis using call_rank_step [OF r_call(3) assms(2)] call_step_client [OF r_call(3)] by simp
next
  case (r_return c s1 r)
  have "0 < call_rank c" by (cases c) simp_all
  then show ?thesis using r_return call_step_client [OF r_return(3)] by simp
qed (use assms(2) in auto)

lemma cmain_left_step:
  assumes "cmain_step s s'" and "\<not> ch_active s"
  shows "((length (cl_input s'), cmain_phase (cl_main s'), cmain_left (cl_main s')),
    (length (cl_input s), cmain_phase (cl_main s), cmain_left (cl_main s))) \<in> less_than <*lex*> less_than <*lex*> less_than"
  using assms(1)
proof cases
  case (c_call c at after s1 c')
  then show ?thesis using call_rank_step [OF c_call(3) assms(2)] call_step_client [OF c_call(3)] by (cases "cl_main s") auto
next
  case (c_return c at after s1 r)
  then show ?thesis using call_step_client [OF c_return(3)] by (cases "cl_main s") auto
next
  case (c_reply bs nxt k)
  then show ?thesis by (auto split: option.splits)
qed (use assms(2) in auto)

lemma client_left_step:
  assumes "client_step s s'" and "\<not> ch_active s"
  shows "(client_left s', client_left s) \<in> less_work"
  using assms(1)
proof cases
  case step_random
  then show ?thesis using random_left_step [OF _ assms(2)] by (auto simp: client_left_def)
next
  case step_cmain
  then show ?thesis using cmain_left_step [OF _ assms(2)] by (auto simp: client_left_def)
qed

lemma client_active: "client_step s s' \<Longrightarrow> ch_active s' \<Longrightarrow> ch_active s"
proof (erule client_step.cases)
  show "random_step sa s'' \<Longrightarrow> s' = s'' \<Longrightarrow> s = sa \<Longrightarrow> ch_active s' \<Longrightarrow> ch_active s" for sa s''
    by (erule random_step.cases) (auto dest: call_step_active)
  show "cmain_step sa s'' \<Longrightarrow> s' = s'' \<Longrightarrow> s = sa \<Longrightarrow> ch_active s' \<Longrightarrow> ch_active s" for sa s''
    by (erule cmain_step.cases) (auto dest: call_step_active)
qed

text \<open>No thread waits for ever.\<close>

lemma ccall_can_step:
  assumes "exclusive s (client_calls s)" and "client_calls s t = Some c"
  shows "\<exists>s'. client_step s s'"
proof -
  have "\<exists>key :: bytes. length key = 4" by (rule exI [of _ "replicate 4 0"]) simp
  then have "\<forall>d. client_frames d \<noteq> {}" by (auto simp: client_frames_def)
  from some_call_steps [OF assms this] obtain u c' s1 r
    where u: "client_calls s u = Some c'" and st: "call_step client_frames u s c' s1 r" by blast
  show ?thesis
  proof (cases u)
    case MainC
    then obtain at after where "main_call_of (cl_main s) = Some (c', at, after)" using u by auto
    then show ?thesis using st MainC c_call [of s c' at after s1] c_return [of s c' at after s1] step_cmain by (cases r) blast+
  next
    case RandomC
    then have "cl_random s = RCall c'" using u by (auto split: rpc.splits)
    then show ?thesis using st RandomC r_call [of s c' s1] r_return [of s c' s1] step_random by (cases r) blast+
  qed
qed

lemma random_can_step:
  assumes "exclusive s (client_calls s)" and "cl_random s \<noteq> RDone" "cl_random s \<noteq> RIdle"
  shows "\<exists>s'. client_step s s'"
proof (cases "cl_random s")
  case (RCall c)
  then show ?thesis using ccall_can_step [OF assms(1), of RandomC c] by simp
next
  case RCheck
  obtain d where "encode (random_message (cl_randomId s) 0) = Inr d"
    using own_sendable(2) by (auto simp: own_messages sendable_def)
  then show ?thesis using r_break [OF RCheck] r_send [OF RCheck] step_random by blast
qed (use assms(2,3) in \<open>auto intro: step_random r_while r_sleep r_next r_fail\<close>)

lemma cmain_can_step:
  assumes "exclusive s (client_calls s)" and "flow s" and "cl_main s \<noteq> CDone"
  shows "\<exists>s'. client_step s s'"
proof (cases "main_call_of (cl_main s)")
  case (Some x)
  then show ?thesis using ccall_can_step [OF assms(1), of MainC "fst x"] by simp
next
  case None
  show ?thesis
  proof (cases "cl_main s")
    case (CHandle p)
    obtain r stop where r: "client_payload p = (r, stop)" by fastforce
    show ?thesis
    proof (cases r)
      case None
      then show ?thesis using r c_quiet [OF CHandle] step_cmain by blast
    next
      case (Some m)
      then show ?thesis using r c_answer [OF CHandle] answer_ok step_cmain by blast
    qed
  next
    case CJoin
    obtain d where d: "encode bye_message = Inr d" using own_sendable(3) by (auto simp: own_messages sendable_def)
    show ?thesis
    proof (cases "cl_random s = RDone")
      case True
      then show ?thesis using c_join [OF CJoin _ d] step_cmain by blast
    next
      case False
      then show ?thesis using random_can_step [OF assms(1)] assms(2) CJoin by (simp add: flow_def)
    qed
  next
    case CLast
    then show ?thesis using c_last [of s "[0, 0, 0, 0]"] step_cmain by force
  next
    case (CReply bs cl)
    then show ?thesis using c_reply_fail step_cmain by blast
  next
    case (CControl bs)
    then show ?thesis using c_last_fail step_cmain by blast
  qed (use assms(3) None in \<open>auto intro: step_cmain c_spawn c_while c_end c_after c_cleanup c_close\<close>)
qed

definition client_over :: "client \<Rightarrow> bool" where
  "client_over s \<longleftrightarrow> cl_main s = CDone \<and> cl_random s = RDone \<and> ch_closed s \<and> \<not> ch_active s \<and> ch_lock s = None"

lemma stuck_client:
  assumes "client_reach s" and "\<nexists>s'. client_step s s'"
  shows "client_over s"
proof -
  have ex: "exclusive s (client_calls s)" using creach_inv [OF assms(1)] by (simp add: client_inv_def chan_inv_def exclusive_def)
  have fl: "flow s" using client_flow [OF assms(1)] .
  have m: "cl_main s = CDone" using cmain_can_step [OF ex fl] assms(2) by blast
  then have f: "cl_random s = RDone" "ch_closed s" "\<not> ch_active s" using fl by (simp_all add: flow_def)
  then have "client_calls s = (\<lambda>_. None)" using m by (auto simp: client_calls_eq)
  then have "ch_lock s = None" using ex by (cases "ch_lock s") (auto simp: exclusive_def)
  then show ?thesis using m f by (simp add: client_over_def)
qed

interpretation cl: stopping client_step ch_active client_reach client_left client_over
  by unfold_locales (rule client_active, assumption+, erule (1) client_left_step, erule (1) creach_step, erule (1) stuck_client)

section \<open>Reachable states\<close>

definition client_bytes :: "Message \<Rightarrow> bytes" where
  "client_bytes m = (case encode m of Inr d \<Rightarrow> d | Inl _ \<Rightarrow> [])"

lemma client_bytes: "encode hello_message = Inr (client_bytes hello_message)" "encode bye_message = Inr (client_bytes bye_message)"
  using own_sendable(1,3) by (auto simp: own_messages sendable_def client_bytes_def)

definition hello_frame :: bytes where
  "hello_frame = masked_bytes [0, 0, 0, 0] (client_bytes hello_message)"

lemma hello_frame: "hello_frame \<in> client_frames (client_bytes hello_message)" "0 < length hello_frame"
proof -
  show f: "hello_frame \<in> client_frames (client_bytes hello_message)"
    unfolding client_frames_def hello_frame_def by (rule CollectI, rule exI [of _ "[0, 0, 0, 0]"]) simp
  then show "0 < length hello_frame" using client_frames_proper by fastforce
qed

text \<open>A session that says HELLO, whose server hangs up at once, and that leaves; after the cleanup \<open>active\<close> is clear.\<close>

definition greeted :: "bool \<Rightarrow> cpc \<Rightarrow> rpc \<Rightarrow> client" where
  "greeted on pc r = (client_init (client_bytes hello_message) [])\<lparr>ch_active := on,
     ch_sends := [(Message_Frame, Some hello_frame)], cl_main := pc, cl_random := r\<rparr>"

lemma reach_main: "client_reach s \<Longrightarrow> cmain_step s s' \<Longrightarrow> client_reach s'"
  using creach_step step_cmain by blast

lemma greeted_reach: "client_reach (greeted True CSpawn RIdle)"
proof -
  let ?h = "client_bytes hello_message"
  let ?i = "\<lambda>x. (client_init ?h [])\<lparr>ch_lock := Some MainC, cl_main := CHello x\<rparr>"
  note call = c_call [where at = CHello and after = CSpawn] and defs = client_init_def greeted_def
  have "client_reach (client_init ?h [])" using creach_start client_bytes(1) by blast
  from reach_main [OF this call [OF _ lock]] have "client_reach (?i (Test ?h))" by (simp add: client_init_def)
  from reach_main [OF this call [OF _ test_on [where frames = client_frames and d = ?h, OF _ hello_frame(1)]]]
  have "client_reach (?i (Write hello_frame))" by (simp add: client_init_def)
  from reach_main [OF this call [OF _ write_some [OF _ hello_frame(2) order_refl]]]
  have "client_reach ((?i (Release True))\<lparr>ch_sends := [(Message_Frame, Some hello_frame)]\<rparr>)" by (simp add: client_init_def)
  from reach_main [OF this c_return [where at = CHello and after = CSpawn, OF _ unlock [where r = True]]]
  show ?thesis by (simp add: defs)
qed

lemma ending_reach: "client_reach (greeted False (CBye (Acquire (client_bytes bye_message))) RDone)"
proof -
  note defs = client_init_def greeted_def
  from reach_main [OF greeted_reach c_spawn] have "client_reach (greeted True CWhile RWhile)" by (simp add: defs)
  from reach_main [OF this c_while] have "client_reach (greeted True (CRecv None) RWhile)" by (simp add: defs)
  from reach_main [OF this c_end [where acc = None]] have "client_reach (greeted True CCleanup RWhile)" by (simp add: defs)
  from reach_main [OF this c_cleanup] have "client_reach (greeted False CJoin RWhile)" by (simp add: defs)
  from creach_step [OF this step_random [OF r_while]] have "client_reach (greeted False CJoin RDone)" by (simp add: defs)
  from reach_main [OF this c_join [OF _ _ client_bytes(2)]] show ?thesis by (simp add: defs)
qed

definition close_bytes :: bytes where
  "close_bytes = control_bytes 0x08 [] True [0, 0, 0, 0]"

lemma close_bytes_proper: "close_bytes \<noteq> []"
  by (simp add: close_bytes_def control_bytes_def)

lemma parted_reach:
  "client_reach ((greeted False CClose RDone)\<lparr>ch_sends := [(Message_Frame, Some hello_frame), (Closing_Frame, Some close_bytes)]\<rparr>)"
proof -
  let ?b = "client_bytes bye_message"
  note call = c_call [where at = CBye and after = CLast] and defs = client_init_def greeted_def
  have "client_reach ((greeted False (CBye (Test ?b)) RDone)\<lparr>ch_lock := Some MainC\<rparr>)"
    using reach_main [OF ending_reach call [OF _ lock]] by (simp add: defs)
  from reach_main [OF this call [OF _ test_off]]
  have "client_reach ((greeted False (CBye (Release False)) RDone)\<lparr>ch_lock := Some MainC\<rparr>)" by (simp add: defs)
  from reach_main [OF this c_return [where at = CBye and after = CLast, OF _ unlock [where r = False]]]
  have "client_reach (greeted False CLast RDone)" by (simp add: defs)
  from reach_main [OF this c_last [of _ "[0, 0, 0, 0]"]]
  have "client_reach (greeted False (CControl close_bytes) RDone)" by (simp add: defs close_bytes_def)
  from reach_main [OF this c_last_write [OF _ _ order_refl, of _ close_bytes]] close_bytes_proper
  show ?thesis by (simp add: defs)
qed

section \<open>Properties of the client sessions\<close>

text \<open>C6: in every reachable state of a client session, with any server and whatever the order in which its two threads run, the bytes that
  the session's messages put on the connection are pieces of masked frames of HELLO, PONG, KISS_RESPONSE and RANDOM_NUMBER messages that
  decode, then a proper part of one more; the pieces are whole frames as long as no write of a message has failed. The
  replies to control frames are whole masked pongs and close frames, then a part of one more, and the session's own close
  frame is written only when no message is in progress (one whose write failed stays incomplete). As long as no control frame has been answered, the server sees the messages' bytes, then those of
  the close frame, and nothing else.\<close>

theorem client_stream:
  assumes "client_reach s"
  shows "(\<exists>qs p. sent_by Message_Frame (ch_sends s) = concat qs @ p
        \<and> list_all (\<lambda>q. \<exists>d key. client_ok d \<and> length key = 4 \<and> prefix q (masked_bytes key d)) qs
        \<and> (p = [] \<or> (\<exists>d key. client_ok d \<and> length key = 4 \<and> strict_prefix p (masked_bytes key d)))
        \<and> (sent_by Closing_Frame (ch_sends s) = [] \<or> p = [])
        \<and> (\<not> send_failed Message_Frame (ch_sends s) \<longrightarrow>
             list_all (\<lambda>q. \<exists>d key. client_ok d \<and> length key = 4 \<and> q = masked_bytes key d) qs))
    \<and> (\<exists>cs q. sent_by Control_Reply (ch_sends s) = concat cs @ q \<and> list_all is_masked_reply cs
        \<and> (q = [] \<or> (\<exists>f. is_masked_reply f \<and> strict_prefix q f)))
    \<and> (sent_by Closing_Frame (ch_sends s) = [] \<or> (\<exists>f. is_close f \<and> prefix (sent_by Closing_Frame (ch_sends s)) f))
    \<and> (\<not> replied (ch_sends s) \<longrightarrow> ch_out s = sent_by Message_Frame (ch_sends s) @ sent_by Closing_Frame (ch_sends s))"
  using client_messages [OF assms] client_sides [OF assms] unfolding client_frame_simps by blast

theorem client_stream_witness:
  "\<exists>s. client_reach s \<and> ch_out s = hello_frame @ close_bytes \<and> close_bytes \<noteq> []
    \<and> (\<exists>qs. ch_out s = concat qs @ close_bytes \<and> list_all (\<lambda>q. \<exists>d key. client_ok d \<and> length key = 4 \<and> q = masked_bytes key d) qs)"
proof -
  let ?s = "(greeted False CClose RDone)\<lparr>ch_sends := [(Message_Frame, Some hello_frame), (Closing_Frame, Some close_bytes)]\<rparr>"
  have r: "client_reach ?s" by (rule parted_reach)
  have log: "\<not> replied (ch_sends ?s)" "\<not> send_failed Message_Frame (ch_sends ?s)" "sent_by Closing_Frame (ch_sends ?s) = close_bytes"
    "ch_out ?s = hello_frame @ close_bytes"
    by (simp_all add: replied_def send_failed_def sent_by_def all_sent_def)
  have m: "ch_out ?s = sent_by Message_Frame (ch_sends ?s) @ sent_by Closing_Frame (ch_sends ?s)"
    using client_stream [OF r] log(1) by blast
  have "\<exists>qs p. sent_by Message_Frame (ch_sends ?s) = concat qs @ p \<and> (sent_by Closing_Frame (ch_sends ?s) = [] \<or> p = [])
      \<and> list_all (\<lambda>q. \<exists>d key. client_ok d \<and> length key = 4 \<and> q = masked_bytes key d) qs"
    using client_stream [OF r] log(2) by blast
  then obtain qs where "sent_by Message_Frame (ch_sends ?s) = concat qs"
    "list_all (\<lambda>q. \<exists>d key. client_ok d \<and> length key = 4 \<and> q = masked_bytes key d) qs"
    unfolding log(3) using close_bytes_proper by auto
  with r log(4) close_bytes_proper m show ?thesis unfolding log(3) by (intro exI [of _ ?s]) auto
qed

text \<open>C27: the client never sends its DISCONNECT message: when it comes to send it, \<open>active\<close> has been cleared, and the
  call of \<open>sendFrame\<close> neither writes nor returns true.\<close>

theorem client_never_disconnects:
  assumes "client_reach s" and "cl_main s = CBye c"
  shows "c \<in> {Acquire (client_bytes bye_message), Test (client_bytes bye_message), Release False}"
proof -
  have "\<forall>c. cl_main s = CBye c \<longrightarrow> c \<in> {Acquire (client_bytes bye_message), Test (client_bytes bye_message), Release False}"
    using assms(1)
  proof (induction rule: client_reach.induct)
    case (creach_step s s')
    have fl: "flow s" using client_flow [OF creach_step(1)] .
    show ?case using creach_step(2)
    proof cases
      case step_random
      then have "cl_main s' = cl_main s" by (rule random_step.cases) (auto dest: call_step_client)
      then show ?thesis using creach_step(3) by simp
    next
      case step_cmain
      then show ?thesis
      proof cases
        case (c_call c at after s1 c')
        then show ?thesis using creach_step(3) fl by (cases "cl_main s") (auto simp: flow_def elim!: call_stepE)
      next
        case (c_return c at after s1 r)
        then show ?thesis by (cases "cl_main s") auto
      qed (use client_bytes(2) in \<open>auto split: option.splits if_splits\<close>)
    qed
  qed (simp add: client_init_def)
  then show ?thesis using assms(2) by blast
qed

theorem client_never_disconnects_witness:
  "\<exists>s c. client_reach s \<and> cl_main s = CBye c \<and> \<not> ch_active s
    \<and> c \<in> {Acquire (client_bytes bye_message), Test (client_bytes bye_message), Release False}"
proof -
  let ?s = "greeted False (CBye (Acquire (client_bytes bye_message))) RDone"
  have c: "cl_main ?s = CBye (Acquire (client_bytes bye_message))" "\<not> ch_active ?s" by (simp_all add: greeted_def)
  show ?thesis using client_never_disconnects [OF ending_reach c(1)] ending_reach c by blast
qed

text \<open>C26: every run of a client session that clears \<open>active\<close> ends: the random thread has been joined, the socket is
  closed and \<open>tryConnect\<close> has returned. The server sends any finite sequence of frames, control frames and empty fragments included, before
  the connection ends, and the calls of the system return: a run is a sequence of steps that goes on as long as some thread can step.\<close>

theorem client_ends:
  assumes "complete client_step run" and "client_reach (run 0)" and "\<not> ch_active (run i)"
  shows "\<exists>j \<ge> i. cl_main (run j) = CDone \<and> cl_random (run j) = RDone \<and> ch_closed (run j) \<and> ch_lock (run j) = None"
  using cl.run_over [OF assms] unfolding client_over_def by blast

theorem client_ends_witness:
  "\<exists>run j. complete client_step run \<and> client_reach (run 0) \<and> \<not> ch_active (run 0) \<and> cl_main (run 0) \<noteq> CDone
    \<and> cl_main (run j) = CDone \<and> cl_random (run j) = RDone"
proof -
  let ?s = "greeted False (CBye (Acquire (client_bytes bye_message))) RDone"
  obtain run where run: "complete client_step run" "run 0 = ?s" using complete_from [of client_step ?s] by blast
  have r: "client_reach (run 0)" unfolding run(2) by (rule ending_reach)
  have off: "\<not> ch_active (run 0)" "cl_main (run 0) \<noteq> CDone" by (simp_all add: run(2) greeted_def)
  show ?thesis using client_ends [OF run(1) r off(1)] run(1) r off by blast
qed

end
