(* ===== verification/Spec2Isabelle.thy ===== *)
theory Spec2Isabelle
  imports Hash_Vectors Programs Server_Runs Client_Runs Ws_Receive
begin

text \<open>
  A verification development of the C++ implementation of hello-websocket, the directory
  \<open>hello-websocket-cpp\<close>: a client and a server that exchange the messages of \<open>PROTOCOL.md\<close> over a WebSocket
  layer of their own. The program has four parts. \<open>common/codec.hpp\<close> is the message codec: byte
  writer and reader, UTF-8 validation, frames, the thirteen messages, SHA-256 for \<open>hashNumber\<close>. \<open>common/ws.hpp\<close> is the transport: SHA-1,
  Base64, the TCP helpers, WebSocket framing, and the two sides of the opening handshake. \<open>server/ws_server.cpp\<close> accepts connections and runs a session with five
  threads for each of them; \<open>client/ws_client.cpp\<close> connects and runs a session with two threads. The codec produces and consumes the
  payloads of the binary frames that the transport carries between the two sessions.

  \<^bold>\<open>How the code is modelled.\<close> A C++ integer of width \<open>w\<close> is a \<open>w\<close>-bit word, \<open>size_t\<close> a natural number where it only counts bytes in memory;
  a byte sequence is a list of 8-bit words; a struct or class is a record and a member function a function on it; an exception is the
  left value of a sum, and a read outside an array is the exception \<open>OutOfBounds\<close>, so that memory safety is a theorem. System calls are a parameter: a record of
  functions over an abstract state, with locales that state what POSIX documents of them and that are interpreted on an executable system (\<open>seg_os\<close>,
  \<open>seg_system\<close>) with segmented input and partial writes. Loops are recursive functions with a termination proof; the receive
  loop of \<open>wsRecvFrame\<close>, which depends on the peer, is a partial function, and its termination on finite streams is proved. Threads are
  program counters with inductive step relations; one step is one access to a shared variable, one system call, one partial write or one frame
  that \<open>wsRecvFrame\<close> reads. A log records the calls of \<open>send\<close> on the connection, by the part of the code that makes them.

  \<^bold>\<open>Theories.\<close>
  \<^item> \<open>HWS_Prelude\<close>: results, strings, decimal text, checked arrays, big-endian words, and the shared lemma collections.
  \<^item> \<open>Byte_Writer\<close>, \<open>Utf8\<close>, \<open>Byte_Reader\<close>, \<open>Ordered_Map\<close>: the classes \<open>ByteWriter\<close> and \<open>ByteReader\<close>, \<open>isValidUtf8\<close> and the use of \<open>std::map\<close>, with
    locales for the formats that a reader accepts; \<open>isValidUtf8\<close> accepts exactly the encodings of scalar values.
  \<^item> \<open>Frame_Codec\<close>, \<open>Message_Codec\<close>: the constants, \<open>encodeFrame\<close>, \<open>decodeFrame\<close>, \<open>Message::encode\<close> and \<open>decodeMessage\<close>; the decoder accepts exactly the
    wire format, never leaves the buffer, and inverts the encoder.
  \<^item> \<open>Hash_Blocks\<close>, \<open>Sha256\<close>, \<open>Sha1\<close>, \<open>Base64\<close>, \<open>Hash_Vectors\<close>: the two hash functions and Base64 against FIPS 180-4 and RFC 4648, with published test vectors.
  \<^item> \<open>Ws_Socket\<close>, \<open>Ws_Frame\<close>, \<open>Ws_Receive\<close>: \<open>recvAll\<close>, \<open>sendAll\<close>, \<open>recvHttpHeaders\<close>, the send functions and \<open>wsRecvFrame\<close>; over every stream connection
    the receiver refines a receiver of RFC 6455 frames.
  \<^item> \<open>Http_Header\<close>, \<open>Net_System\<close>, \<open>Ws_Handshake\<close>, \<open>Ws_Sessions\<close>: \<open>extractHeader\<close>, the remaining system calls, \<open>WSServer\<close> and \<open>WSClient\<close>; each side accepts only what it
    should and leaks no descriptor, and the two sides accept each other.
  \<^item> \<open>Server_Messages\<close>, \<open>Client_Messages\<close>: the messages that the programs send and their reactions to every payload; the server's answers are compared with \<open>PROTOCOL.md\<close>.
  \<^item> \<open>Send_Frame\<close>, \<open>Thread_Runs\<close>: the lambda \<open>sendFrame\<close> with its mutex, as steps that interleave with the other threads, and the contract
    of threads that stop when a flag is cleared; both are shared by the two programs.
  \<^item> \<open>Ws_Server\<close>, \<open>Server_Runs\<close>: \<open>handleClient\<close>. In every interleaving one thread at a time writes messages, and these are whole frames unless a
    write fails; after \<open>active\<close> has been cleared at most one message is finished, nothing deadlocks and every run ends. Replies to control frames bypass
    the mutex and can tear a message apart.
  \<^item> \<open>Ws_Client\<close>, \<open>Client_Runs\<close>: \<open>tryConnect\<close> after the handshake, with the same results, and the proof that DISCONNECT is never sent.
  \<^item> \<open>Programs\<close>: the two \<open>main\<close> functions.
  \<^item> This theory: the properties of both programs together. What one sends arrives at the other, neither
    rejects a message of the other, and the keep-alive works through both.

  \<^bold>\<open>Bounds and assumptions.\<close> \<open>accept_loop\<close> has the number of rounds as its argument, because \<open>while (true)\<close> never ends; its theorem holds for every number.
  \<open>wsRecvFrame\<close> needs no fuel. Messages are limited to one mebibyte as in the code (\<open>MAX_MESSAGE_SIZE\<close>). In the sessions
  the clock, the sleeps, the random numbers, the scheduling and the network are free: a step that depends on them may happen at any time with any outcome, a write
  may take any number of bytes or fail, also when later writes succeed, and what is written after the descriptor has been closed does not reach the peer. The peer is any finite sequence of well-formed frames,
  control frames and empty fragments included, that may be followed by anything else or by the end of the connection at any time. So a theorem that a run ends says that the threads do not wait for
  each other for ever and that no finite input keeps them going; that a blocked \<open>recv\<close> returns is left to the peer and the system, and a peer that sends pings or empty fragments without end keeps
  \<open>wsRecvFrame\<close>, which does not test \<open>active\<close>, busy without end. The stream theorems hold with every peer for the bytes of the messages; what the peer sees is these bytes as long as no
  control frame has been answered. Signed overflow of the clock difference in the timeout test, \<open>tolower\<close> of a negative character and the opcode that
  \<open>WSFrame\<close> leaves without a value are given a value in the model; C++ leaves them open.

  \<^bold>\<open>Not modelled.\<close> The output of \<open>log\<close> and the clock functions \<open>nowMs\<close>, \<open>gmtimeSafe\<close> and \<open>nowISO\<close> of \<open>codec.hpp\<close>, which only read the
  system's clock and write to standard output (the clock is a parameter, and the text of \<open>nowISO\<close> any printable text of at most 64 characters);
  \<open>hws_errno\<close> and \<open>hws_would_block\<close>, which nothing calls; the Winsock branches; the constructors of the random engines, whose bytes are a
  parameter; \<open>test/test_codec.cpp\<close>, build files, container files and scripts, which have no operations of the program; and the implementations in other languages.
\<close>

section \<open>Receiving a stream of messages\<close>

abbreviation binary_message :: "bytes \<Rightarrow> WSFrame" where
  "binary_message d \<equiv> \<lparr>ws_opcode = 2, ws_payload = d, isClose = False, isValid = True\<rparr>"

text \<open>The results of \<open>n\<close> calls of \<open>wsRecvFrame\<close>.\<close>

fun recv_frames :: "'s os \<Rightarrow> bool \<Rightarrow> nat \<Rightarrow> 's \<Rightarrow> (WSFrame list \<times> 's) option" where
  "recv_frames os em 0 s = Some ([], s)"
| "recv_frames os em (Suc n) s =
     (case wsRecvFrame os em s of None \<Rightarrow> None
      | Some (fr, s) \<Rightarrow> map_option (\<lambda>(frs, s). (fr # frs, s)) (recv_frames os em n s))"

lemma recv_binary:
  assumes "reliable_socket os input sent" and "frame_wire em (binary_frame d) bs" and "length d \<le> 1048576" and "input s = bs @ ts"
  shows "\<exists>s'. wsRecvFrame os em s = Some (binary_message d, s') \<and> input s' = ts"
proof -
  have "receive None [binary_frame d] = Some (Deliver d, [], [])"
    using assms(3) by (simp add: accept_frame_def answer_def legal_def in_order_def acc_bytes_def MAX_BYTES_def)
  from reliable_socket.wsRecvLoop_receive [OF assms(1) this _ _ loop_start(2), of em "[bs]" s ts] show ?thesis
    using assms(2,4) by (auto simp: loop_start(1))
qed

lemma recv_binaries:
  assumes "reliable_socket os input sent" and "list_all2 (\<lambda>d bs. frame_wire em (binary_frame d) bs) ds fs"
    and "\<forall>d \<in> set ds. length d \<le> 1048576" and "input s = concat fs @ ts"
  shows "\<exists>s'. recv_frames os em (length ds) s = Some (map binary_message ds, s') \<and> input s' = ts"
  using assms(2-4)
proof (induction arbitrary: s rule: list_all2_induct)
  case (Cons d ds bs fs)
  obtain s1 where s1: "wsRecvFrame os em s = Some (binary_message d, s1)" "input s1 = concat fs @ ts"
    using recv_binary [OF assms(1) Cons(1), of s "concat fs @ ts"] Cons.prems by auto
  then obtain s' where "recv_frames os em (length ds) s1 = Some (map binary_message ds, s')" "input s' = ts"
    using Cons.IH [of s1] Cons.prems(1) by auto
  then show ?case using s1(1) by simp
qed simp

text \<open>The first \<open>n\<close> messages of a stream arrive, if they are short enough for the receiver.\<close>

definition delivered :: "'s os \<Rightarrow> bool \<Rightarrow> 's \<Rightarrow> bytes list \<Rightarrow> bool" where
  "delivered os em s ds \<longleftrightarrow>
     (\<forall>n \<le> length ds. list_all (\<lambda>d. length d \<le> 1048576) (take n ds) \<longrightarrow>
        (\<exists>s'. recv_frames os em n s = Some (map binary_message (take n ds), s')))"

lemma stream_delivered:
  assumes "reliable_socket os input sent" and "prefix (concat fs) (input s)"
    and "list_all2 (\<lambda>d bs. length d \<le> 1048576 \<longrightarrow> frame_wire em (binary_frame d) bs) ds fs"
  shows "delivered os em s ds"
  unfolding delivered_def
proof (intro allI impI)
  fix n assume n: "n \<le> length ds" and small: "list_all (\<lambda>d. length d \<le> 1048576) (take n ds)"
  have "list_all2 (\<lambda>d bs. length d \<le> 1048576 \<longrightarrow> frame_wire em (binary_frame d) bs) (take n ds) (take n fs)"
    using assms(3) by (rule list_all2_takeI)
  with small have "list_all2 (\<lambda>d bs. frame_wire em (binary_frame d) bs) (take n ds) (take n fs)"
    by (auto simp: list_all2_conv_all_nth list_all_length)
  moreover have "concat fs = concat (take n fs) @ concat (drop n fs)" by (metis append_take_drop_id concat_append)
  then obtain more where "input s = concat (take n fs) @ concat (drop n fs) @ more"
    using assms(2) by (auto simp: prefix_def)
  moreover have "\<forall>d \<in> set (take n ds). length d \<le> 1048576" using small by (simp add: list_all_iff)
  ultimately show "\<exists>s'. recv_frames os em n s = Some (map binary_message (take n ds), s')"
    using recv_binaries [OF assms(1), of em "take n ds" "take n fs" s "concat (drop n fs) @ more"] n by auto
qed

section \<open>The two programs together\<close>

text \<open>C1: what the server sends arrives. In every reachable state of a session, take the calls of \<open>send\<close> before the first
  reply to a control frame and before the first failed write of a message (all of them if there has been neither; a client of this program sends no
  control frame but its close frame, after it has stopped reading): their bytes are frames of messages that decode, then a proper part of one
  more, and a client that reads what the server has sent over a reliable connection gets exactly these messages, one by each call of
  \<open>wsRecvFrame\<close>, up to the first one of more than one mebibyte.\<close>

theorem server_reaches_client:
  assumes "server_reach s" and "reliable_socket os input sent" and "input c = ch_out s"
  shows "\<exists>ds p. list_all server_ok ds \<and> all_sent (undisturbed (ch_sends s)) = concat (map binary_bytes ds) @ p
    \<and> (p = [] \<or> (\<exists>d. server_ok d \<and> strict_prefix p (binary_bytes d)))
    \<and> (\<not> replied (ch_sends s) \<and> \<not> send_failed Message_Frame (ch_sends s) \<longrightarrow> ch_out s = concat (map binary_bytes ds) @ p)
    \<and> delivered os False c ds"
proof -
  obtain ds p where ds: "list_all server_ok ds" "all_sent (undisturbed (ch_sends s)) = concat (map binary_bytes ds) @ p"
    "p = [] \<or> (\<exists>d. server_ok d \<and> strict_prefix p (binary_bytes d))"
    using server_undisturbed [OF assms(1)] by blast
  have "delivered os False c ds"
  proof (rule stream_delivered [OF assms(2)])
    show "prefix (concat (map binary_bytes ds)) (input c)"
      using all_sent_prefix [OF undisturbed(3)] append_prefixD unfolding assms(3) ds(2) [symmetric] by (metis ds(2))
    show "list_all2 (\<lambda>d bs. length d \<le> 1048576 \<longrightarrow> frame_wire False (binary_frame d) bs) ds (map binary_bytes ds)"
      using binary_bytes_frame(1) by (simp add: list_all2_conv_all_nth)
  qed
  then show ?thesis using ds undisturbed_all [of "ch_sends s"] by (intro exI [of _ ds] exI [of _ p]) auto
qed

theorem server_reaches_client_witness:
  "\<exists>s c ds p. server_reach s \<and> ch_out s = binary_bytes first_ping \<and> concat (seg_in c) = ch_out s
    \<and> list_all server_ok ds \<and> ch_out s = concat (map binary_bytes ds) @ p \<and> delivered seg_os False c ds"
proof -
  let ?s = "pinging [] [(Message_Frame, Some (binary_bytes first_ping))] (Release True)"
  let ?c = "\<lparr>seg_in = [binary_bytes first_ping], seg_out = [], seg_accept = [], seg_random = []\<rparr>"
  have o: "ch_out ?s = binary_bytes first_ping" "concat (seg_in ?c) = ch_out ?s" "\<not> replied (ch_sends ?s)" "\<not> send_failed Message_Frame (ch_sends ?s)"
    by (simp_all add: pinging_def all_sent_def replied_def send_failed_def)
  show ?thesis using server_reaches_client [OF pinged_reach seg.reliable_socket_axioms o(2)] pinged_reach o by blast
qed

text \<open>C7: what the client sends arrives: the same for the client's masked frames, the close frame at the end, and the server's receiver.\<close>

theorem client_reaches_server:
  assumes "client_reach s" and "reliable_socket os input sent" and "input c = ch_out s"
  shows "\<exists>ds fs p. list_all2 (\<lambda>d f. client_ok d \<and> f \<in> client_frames d) ds fs
    \<and> all_sent (undisturbed (ch_sends s)) = concat fs @ p \<and> part_of_frame p
    \<and> (\<not> replied (ch_sends s) \<and> \<not> send_failed Message_Frame (ch_sends s) \<longrightarrow> ch_out s = concat fs @ p)
    \<and> delivered os True c ds"
proof -
  obtain ds fs p where ds: "list_all2 (\<lambda>d f. client_ok d \<and> f \<in> client_frames d) ds fs"
    "all_sent (undisturbed (ch_sends s)) = concat fs @ p" "part_of_frame p"
    using client_undisturbed [OF assms(1)] by blast
  have "delivered os True c ds"
  proof (rule stream_delivered [OF assms(2)])
    show "prefix (concat fs) (input c)"
      using all_sent_prefix [OF undisturbed(3)] append_prefixD unfolding assms(3) ds(2) [symmetric] by (metis ds(2))
    show "list_all2 (\<lambda>d bs. length d \<le> 1048576 \<longrightarrow> frame_wire True (binary_frame d) bs) ds fs"
      using ds(1) by (rule list_all2_mono) (auto simp: client_frames_def intro!: masked_bytes_frame(1))
  qed
  then show ?thesis using ds undisturbed_all [of "ch_sends s"] by (intro exI [of _ ds] exI [of _ fs] exI [of _ p]) auto
qed

theorem client_reaches_server_witness:
  "\<exists>s c ds fs p. client_reach s \<and> ch_out s = hello_frame @ close_bytes \<and> concat (seg_in c) = ch_out s
    \<and> list_all2 (\<lambda>d f. client_ok d \<and> f \<in> client_frames d) ds fs \<and> ch_out s = concat fs @ p \<and> delivered seg_os True c ds"
proof -
  let ?s = "(greeted False CClose RDone)\<lparr>ch_sends := [(Message_Frame, Some hello_frame), (Closing_Frame, Some close_bytes)]\<rparr>"
  let ?c = "\<lparr>seg_in = [hello_frame @ close_bytes], seg_out = [], seg_accept = [], seg_random = []\<rparr>"
  have o: "ch_out ?s = hello_frame @ close_bytes" "concat (seg_in ?c) = ch_out ?s" "\<not> replied (ch_sends ?s)" "\<not> send_failed Message_Frame (ch_sends ?s)"
    by (simp_all add: all_sent_def replied_def send_failed_def)
  show ?thesis using client_reaches_server [OF parted_reach seg.reliable_socket_axioms o(2)] parted_reach o by blast
qed

text \<open>C12: the programs understand each other. The server takes every message that a client sends without stopping, and answers, if
  at all, with a message of a server that is no ERROR; the client takes every message that a server sends without
  stopping, and answers, if at all, with a message of a client.\<close>

theorem programs_understand:
  assumes "client_ok d" "length d \<le> 1048576" and "server_ok e" and "string_ok lang" "length lang \<le> 1048576"
  shows "(\<exists>rc. serve_payload now lang d = Inr rc \<and> \<not> rc_stop rc
        \<and> pred_option (\<lambda>m. \<exists>b. from_server b \<and> m = message_of b \<and> mtype m \<noteq> MSG_ERROR \<and> sendable b) (rc_reply rc))
    \<and> (\<exists>r. client_payload e = (r, False) \<and> pred_option (\<lambda>m. \<exists>b. from_client b \<and> m = message_of b \<and> sendable b) r)"
proof
  obtain b where b: "from_client b" "decodeMessage d (length d) = Inr (message_of b)" using assms(1) unfolding client_ok_def by blast
  note sv = serve_decoded [OF b(2) _ assms(4), unfolded LIMIT_def, OF assms(2,5)]
  have "pred_option (\<lambda>m. \<exists>b. from_server b \<and> m = message_of b \<and> mtype m \<noteq> MSG_ERROR \<and> sendable b) (map_option message_of (respond now lang b))"
  proof (cases "respond now lang b")
    case (Some b')
    have "mtype (message_of b') \<noteq> MSG_ERROR" using b(1) Some by (cases b) (auto simp: hws_consts)
    then show ?thesis using Some sv(2) [OF Some] respond_from_server [OF Some] by auto
  qed simp
  moreover have "\<not> is_disconnect b" using b(1) by (cases b) simp_all
  ultimately show "\<exists>rc. serve_payload now lang d = Inr rc \<and> \<not> rc_stop rc
      \<and> pred_option (\<lambda>m. \<exists>b. from_server b \<and> m = message_of b \<and> mtype m \<noteq> MSG_ERROR \<and> sendable b) (rc_reply rc)"
    using sv(1) by (auto simp: reaction_to_def)
next
  obtain b where b: "from_server b" "decodeMessage e (length e) = Inr (message_of b)" using assms(3) unfolding server_ok_def by blast
  have "\<not> is_disconnect b" using b(1) by (cases b) simp_all
  moreover have "pred_option (\<lambda>m. \<exists>b. from_client b \<and> m = message_of b \<and> sendable b) (map_option message_of (client_respond b))"
  proof (cases "client_respond b")
    case (Some b')
    then show ?thesis using answer_from_client [OF Some] client_respond_sendable [OF Some] by auto
  qed simp
  ultimately show "\<exists>r. client_payload e = (r, False) \<and> pred_option (\<lambda>m. \<exists>b. from_client b \<and> m = message_of b \<and> sendable b) r"
    using client_decoded [OF b(2)] by auto
qed

theorem programs_understand_witness:
  "\<exists>rc. serve_payload 0 (str ''unknown'') (client_bytes hello_message) = Inr rc \<and> \<not> rc_stop rc"
proof -
  have "client_ok (client_bytes hello_message)" using own_ok(1) client_bytes(1) by blast
  moreover have "length (client_bytes hello_message) \<le> 1048576" 
    by (simp add: client_bytes_def own_messages encode_body_of encodeFrame_layout enc_string_def del: message_of.simps)
  moreover note first_ping_ok
  moreover have "string_ok (str ''unknown'')" "length (str ''unknown'') \<le> 1048576" by (simp_all add: ascii_ok)
  ultimately show ?thesis using programs_understand by blast
qed

text \<open>C25: the keep-alive works through both programs: a PING of the server, encoded, makes the client answer with a PONG of the same time,
  which, encoded, makes the server note the time of its arrival and nothing else; the session is not expired then.\<close>

theorem keep_alive:
  "\<exists>d m d'. encode (ping_message now) = Inr d \<and> client_payload d = (Some m, False) \<and> m = message_of (Pong now) \<and> encode m = Inr d'
    \<and> serve_payload later lang d' = Inr \<lparr>rc_reply = None, rc_language = lang, rc_pong = Some later, rc_stop = False\<rparr>
    \<and> \<not> expired later later"
proof -
  have ping: "sendable (Ping now)" "ping_message now = message_of (Ping now)" by (simp_all add: sendableI ping_message_def)
  have pong: "sendable (Pong now)" by (simp add: sendableI)
  obtain d where d: "encode (message_of (Ping now)) = Inr d" "decodeMessage d (length d) = Inr (message_of (Ping now))"
    using ping(1) unfolding sendable_def by blast
  obtain d' where d': "encode (message_of (Pong now)) = Inr d'" "decodeMessage d' (length d') = Inr (message_of (Pong now))"
    using pong unfolding sendable_def by blast
  have "serve_payload later lang d' = Inr (reaction_to later lang (Pong now))"
    unfolding serve_payload_def d'(2) sum.case by (rule serve_message_body)
  then show ?thesis using ping(2) d d'(1) client_decoded [OF d(2)] by (simp add: reaction_to_def expired_def)
qed

end
